theory Spec2Isabelle
  imports Main "HOL-Library.Word" "HOL-Library.Monad_Syntax"
begin

unbundle bit_operations_syntax

section \<open>Constants of the CRUSH format (crush_internal.h, crush.c)\<close>

text \<open>
  Bytes are \<open>8 word\<close>, the 32-bit accumulators of the bit reader and writer are
  \<open>32 word\<close>. Values of type \<open>unsigned long\<close> (64 bits on the LP64 targets the
  code is built for) are natural numbers, and every subtraction that could wrap is written
  with its \<open>mod 2 ^ 64\<close>. The length buckets \<open>A\<close> .. \<open>F\<close> of the header are
  called \<open>A_LEN\<close> .. \<open>F_LEN\<close> here, since single capitals are variable names.
\<close>

type_synonym byte = "8 word"
type_synonym uint32 = "32 word"

definition W_BITS :: nat where "W_BITS = 21"
definition W_SIZE :: nat where "W_SIZE = 2 ^ W_BITS"
definition SLOT_BITS :: nat where "SLOT_BITS = 4"
definition NUM_SLOTS :: nat where "NUM_SLOTS = 2 ^ SLOT_BITS"

definition A_BITS :: nat where "A_BITS = 2"
definition B_BITS :: nat where "B_BITS = 2"
definition C_BITS :: nat where "C_BITS = 2"
definition D_BITS :: nat where "D_BITS = 3"
definition E_BITS :: nat where "E_BITS = 5"
definition F_BITS :: nat where "F_BITS = 9"
definition A_LEN :: nat where "A_LEN = 2 ^ A_BITS"
definition B_LEN :: nat where "B_LEN = 2 ^ B_BITS + A_LEN"
definition C_LEN :: nat where "C_LEN = 2 ^ C_BITS + B_LEN"
definition D_LEN :: nat where "D_LEN = 2 ^ D_BITS + C_LEN"
definition E_LEN :: nat where "E_LEN = 2 ^ E_BITS + D_LEN"
definition F_LEN :: nat where "F_LEN = 2 ^ F_BITS + E_LEN"
definition MIN_MATCH :: nat where "MIN_MATCH = 3"
definition MAX_MATCH :: nat where "MAX_MATCH = (F_LEN - 1) + MIN_MATCH"

definition CRUSH_HASH_BITS :: nat where "CRUSH_HASH_BITS = 17"
definition LOOKUP_SIZE :: nat where "LOOKUP_SIZE = 2 ^ CRUSH_HASH_BITS"
definition NO_MATCH_POS :: nat where "NO_MATCH_POS = 2 ^ 32 - 1"
definition ULONG_MAX :: nat where "ULONG_MAX = 2 ^ 64 - 1"

named_theorems crush_consts \<open>the values of the format's constants\<close>

lemma consts_values [crush_consts]:
  "W_BITS = 21" "W_SIZE = 2097152" "SLOT_BITS = 4" "NUM_SLOTS = 16"
  "A_BITS = 2" "B_BITS = 2" "C_BITS = 2" "D_BITS = 3" "E_BITS = 5" "F_BITS = 9"
  "A_LEN = 4" "B_LEN = 8" "C_LEN = 12" "D_LEN = 20" "E_LEN = 52" "F_LEN = 564"
  "MIN_MATCH = 3" "MAX_MATCH = 566"
  "CRUSH_HASH_BITS = 17" "LOOKUP_SIZE = 131072"
  "NO_MATCH_POS = 4294967295" "ULONG_MAX = 18446744073709551615"
  by (simp_all add: W_BITS_def W_SIZE_def SLOT_BITS_def NUM_SLOTS_def A_BITS_def B_BITS_def
      C_BITS_def D_BITS_def E_BITS_def F_BITS_def A_LEN_def B_LEN_def C_LEN_def D_LEN_def
      E_LEN_def F_LEN_def MIN_MATCH_def MAX_MATCH_def CRUSH_HASH_BITS_def LOOKUP_SIZE_def
      NO_MATCH_POS_def ULONG_MAX_def)


section \<open>Bit writer (crush.c: struct lsb_bitwriter)\<close>

text \<open>
  \<open>next_out\<close> holds the bytes stored through the pointer so far, in order: the C pointer
  only ever advances by one after each store, so the list is the content of
  \<open>dst[0 .. next_out - dst)\<close>.
\<close>

record lsb_bitwriter =
  next_out :: "byte list"
  w_tag :: uint32
  w_msb :: int

definition lbw_init :: lsb_bitwriter where
  "lbw_init = \<lparr>next_out = [], w_tag = 0, w_msb = 0\<rparr>"

definition lbw_store :: "lsb_bitwriter \<Rightarrow> lsb_bitwriter" where
  \<comment> \<open>the loop body shared by \<open>lbw_finalize\<close> and \<open>lbw_flush\<close>\<close>
  "lbw_store lbw = lbw\<lparr>next_out := next_out lbw @ [ucast (w_tag lbw)],
                        w_tag := drop_bit 8 (w_tag lbw),
                        w_msb := w_msb lbw - 8\<rparr>"

function lbw_finalize :: "lsb_bitwriter \<Rightarrow> byte list" where
  "lbw_finalize lbw = (if w_msb lbw > 0 then lbw_finalize (lbw_store lbw) else next_out lbw)"
  by pat_completeness auto
termination
  by (relation "measure (\<lambda>lbw. nat (w_msb lbw))") (auto simp: lbw_store_def)

declare lbw_finalize.simps [simp del]

function lbw_flush :: "lsb_bitwriter \<Rightarrow> int \<Rightarrow> lsb_bitwriter" where
  "lbw_flush lbw num = (if w_msb lbw > 32 - num then lbw_flush (lbw_store lbw) num else lbw)"
  by pat_completeness auto
termination
  by (relation "measure (\<lambda>(lbw, num). nat (w_msb lbw - (32 - num)))") (auto simp: lbw_store_def)

declare lbw_flush.simps [simp del]

definition lbw_putbits_no_flush :: "lsb_bitwriter \<Rightarrow> uint32 \<Rightarrow> int \<Rightarrow> lsb_bitwriter" where
  "lbw_putbits_no_flush lbw bits num =
     lbw\<lparr>w_tag := w_tag lbw OR push_bit (nat (w_msb lbw)) bits, w_msb := w_msb lbw + num\<rparr>"

definition lbw_putbits :: "lsb_bitwriter \<Rightarrow> uint32 \<Rightarrow> int \<Rightarrow> lsb_bitwriter" where
  "lbw_putbits lbw bits num = lbw_putbits_no_flush (lbw_flush lbw num) bits num"


section \<open>Bit reader (crush_depack.c: struct lsb_bitreader)\<close>

text \<open>
  \<open>r_src\<close> is the packed data from the read pointer on. The C reader has no end pointer;
  a read past the last packed byte is a read outside the data handed to the decoder, which
  the model reports as \<open>None\<close>.
\<close>

record lsb_bitreader =
  r_src :: "byte list"
  r_tag :: uint32
  r_msb :: int

definition lbr_init :: "byte list \<Rightarrow> lsb_bitreader" where
  "lbr_init s = \<lparr>r_src = s, r_tag = 0, r_msb = 0\<rparr>"

function lbr_refill :: "lsb_bitreader \<Rightarrow> int \<Rightarrow> lsb_bitreader option" where
  "lbr_refill lbr num =
     (if r_msb lbr < num then
        (case r_src lbr of
           [] \<Rightarrow> None
         | b # bs \<Rightarrow>
             lbr_refill \<lparr>r_src = bs,
                         r_tag = r_tag lbr OR push_bit (nat (r_msb lbr)) (ucast b),
                         r_msb = r_msb lbr + 8\<rparr> num)
      else Some lbr)"
  by pat_completeness auto
termination
  by (relation "measure (\<lambda>(lbr, num). nat (num - r_msb lbr))") auto

declare lbr_refill.simps [simp del]

definition lbr_getbits_no_refill :: "lsb_bitreader \<Rightarrow> int \<Rightarrow> uint32 \<times> lsb_bitreader" where
  "lbr_getbits_no_refill lbr num =
     (r_tag lbr AND mask (nat num),
      lbr\<lparr>r_tag := drop_bit (nat num) (r_tag lbr), r_msb := r_msb lbr - num\<rparr>)"

definition lbr_getbits :: "lsb_bitreader \<Rightarrow> int \<Rightarrow> (uint32 \<times> lsb_bitreader) option" where
  "lbr_getbits lbr num = map_option (\<lambda>l. lbr_getbits_no_refill l num) (lbr_refill lbr num)"


section \<open>Decoder (crush_depack.c: crush_depack)\<close>

datatype depack_ret = CRUSH_ERROR | SRC_OVERRUN | RETURN nat

definition depack_match_len :: "lsb_bitreader \<Rightarrow> (nat \<times> lsb_bitreader) option" where
  \<comment> \<open>the block "Decode match length"\<close>
  "depack_match_len lbr0 = do {
     (b, lbr) \<leftarrow> lbr_getbits lbr0 1;
     if b \<noteq> 0 then do { (v, lbr) \<leftarrow> lbr_getbits lbr (int A_BITS); Some (unat v, lbr) }
     else do {
     (b, lbr) \<leftarrow> lbr_getbits lbr 1;
     if b \<noteq> 0 then do { (v, lbr) \<leftarrow> lbr_getbits lbr (int B_BITS); Some (unat v + A_LEN, lbr) }
     else do {
     (b, lbr) \<leftarrow> lbr_getbits lbr 1;
     if b \<noteq> 0 then do { (v, lbr) \<leftarrow> lbr_getbits lbr (int C_BITS); Some (unat v + B_LEN, lbr) }
     else do {
     (b, lbr) \<leftarrow> lbr_getbits lbr 1;
     if b \<noteq> 0 then do { (v, lbr) \<leftarrow> lbr_getbits lbr (int D_BITS); Some (unat v + C_LEN, lbr) }
     else do {
     (b, lbr) \<leftarrow> lbr_getbits lbr 1;
     if b \<noteq> 0 then do { (v, lbr) \<leftarrow> lbr_getbits lbr (int E_BITS); Some (unat v + D_LEN, lbr) }
     else do { (v, lbr) \<leftarrow> lbr_getbits lbr (int F_BITS); Some (unat v + E_LEN, lbr) }
     }}}}}"

definition depack_match_offs :: "lsb_bitreader \<Rightarrow> (nat \<times> lsb_bitreader) option" where
  \<comment> \<open>the block "Decode match offset", before \<open>++offs\<close>\<close>
  "depack_match_offs lbr0 = do {
     (s, lbr) \<leftarrow> lbr_getbits lbr0 (int SLOT_BITS);
     let mlog = unat s + (W_BITS - NUM_SLOTS);
     if mlog > W_BITS - NUM_SLOTS
     then do { (v, lbr) \<leftarrow> lbr_getbits lbr (int mlog); Some (unat (v + push_bit mlog 1), lbr) }
     else do { (v, lbr) \<leftarrow> lbr_getbits lbr (int (W_BITS - (NUM_SLOTS - 1))); Some (unat v, lbr) }
   }"

datatype token = Literal byte | Match nat nat

definition depack_token :: "lsb_bitreader \<Rightarrow> (token \<times> lsb_bitreader) option" where
  \<comment> \<open>the reads of one turn of the main loop. \<open>Match len offs\<close> holds the decoder's variables
     \<open>len\<close> and \<open>offs\<close> as decoded, before \<open>++offs\<close>: the copy that follows moves
     \<open>3 + len\<close> bytes from \<open>offs + 1\<close> bytes back\<close>
  "depack_token lbr0 = do {
     (t, lbr) \<leftarrow> lbr_getbits lbr0 1;
     if t \<noteq> 0 then do {
       (len, lbr) \<leftarrow> depack_match_len lbr;
       (offs, lbr) \<leftarrow> depack_match_offs lbr;
       Some (Match len offs, lbr) }
     else do {
       (v, lbr) \<leftarrow> lbr_getbits lbr 8;
       Some (Literal (ucast v), lbr) }
   }"

fun copy_match :: "byte list \<Rightarrow> nat \<Rightarrow> nat \<Rightarrow> byte list" where
  \<comment> \<open>\<open>while (len-- != 0) out[dst_size++] = out[mpos++]\<close>; \<open>dst_size\<close> is \<open>length out\<close>\<close>
  "copy_match out mpos 0 = out"
| "copy_match out mpos (Suc len) = copy_match (out @ [out ! mpos]) (Suc mpos) len"

definition depack_step :: "lsb_bitreader \<Rightarrow> byte list \<Rightarrow> depack_ret + lsb_bitreader \<times> byte list" where
  \<comment> \<open>one turn of the main decompression loop; \<open>out\<close> is \<open>dst[0 .. dst_size)\<close>\<close>
  "depack_step lbr0 out =
     (case depack_token lbr0 of
        None \<Rightarrow> Inl SRC_OVERRUN
      | Some (Match len offs0, lbr) \<Rightarrow>
          let offs = offs0 + 1 in
          if offs > length out then Inl CRUSH_ERROR
          else
            let mpos = length out - offs;
                out = out @ [out ! mpos];
                out = out @ [out ! (mpos + 1)];
                out = out @ [out ! (mpos + 2)]
            in Inr (lbr, copy_match out (mpos + 3) len)
      | Some (Literal b, lbr) \<Rightarrow> Inr (lbr, out @ [b]))"

lemma length_copy_match: "length (copy_match out mpos len) = length out + len"
  by (induction len arbitrary: out mpos) auto

lemma depack_step_grows:
  "depack_step lbr out = Inr (lbr', out') \<Longrightarrow> length out < length out'"
  by (auto simp: depack_step_def Let_def length_copy_match
           split: option.splits if_splits prod.splits token.splits)

function crush_depack_loop ::
  "lsb_bitreader \<Rightarrow> byte list \<Rightarrow> nat \<Rightarrow> depack_ret \<times> byte list" where
  "crush_depack_loop lbr out depacked_size =
     (if length out < depacked_size then
        (case depack_step lbr out of
           Inl e \<Rightarrow> (e, out)
         | Inr (lbr', out') \<Rightarrow> crush_depack_loop lbr' out' depacked_size)
      else (RETURN (length out), out))"
  by pat_completeness auto
termination
  by (relation "measure (\<lambda>(lbr, out, m). m - length out)")
     (auto dest: depack_step_grows)

declare crush_depack_loop.simps [simp del]

definition crush_depack :: "byte list \<Rightarrow> nat \<Rightarrow> depack_ret \<times> byte list" where
  "crush_depack s depacked_size = crush_depack_loop (lbr_init s) [] depacked_size"

section \<open>Cost model and token emission (crush.c, crush_leparse.h, crush_btparse.h)\<close>

fun crush_log2_loop :: "nat \<Rightarrow> nat \<Rightarrow> nat" where
  \<comment> \<open>\<open>while (n >>= 1) ++bits\<close>, the portable branch of \<open>crush_log2\<close>\<close>
  "crush_log2_loop n bits = (if n div 2 \<noteq> 0 then crush_log2_loop (n div 2) (bits + 1) else bits)"

declare crush_log2_loop.simps [simp del]

definition crush_log2 :: "nat \<Rightarrow> nat" where
  "crush_log2 n = crush_log2_loop n 0"

definition crush_match_cost :: "nat \<Rightarrow> nat \<Rightarrow> nat" where
  "crush_match_cost pos len =
     (let cost = 1;
          l = (len + 2 ^ 64 - MIN_MATCH) mod 2 ^ 64;
          cost = (if l < A_LEN then cost + (1 + A_BITS)
                  else if l < B_LEN then cost + (2 + B_BITS)
                  else if l < C_LEN then cost + (3 + C_BITS)
                  else if l < D_LEN then cost + (4 + D_BITS)
                  else if l < E_LEN then cost + (5 + E_BITS)
                  else cost + (5 + F_BITS));
          cost = cost + SLOT_BITS;
          cost = (if pos \<ge> 2 * 2 ^ (W_BITS - NUM_SLOTS) then cost + crush_log2 pos
                  else cost + (W_BITS - (NUM_SLOTS - 1)))
      in cost)"

definition crush_max_packed_size :: "nat \<Rightarrow> nat" where
  "crush_max_packed_size src_size = (src_size + src_size div 8 + 64) mod 2 ^ 64"

definition emit_literal :: "lsb_bitwriter \<Rightarrow> byte \<Rightarrow> lsb_bitwriter" where
  \<comment> \<open>\<open>lbw_putbits(&lbw, (uint32_t) in[i] << 1, 9)\<close>\<close>
  "emit_literal lbw b = lbw_putbits lbw (push_bit 1 (ucast b)) 9"

definition emit_match_len :: "lsb_bitwriter \<Rightarrow> nat \<Rightarrow> lsb_bitwriter" where
  \<comment> \<open>the match tag and the length code, the same text in both packers; the argument is \<open>mlen[i]\<close>\<close>
  "emit_match_len lbw0 mlen_i =
     (let lbw = lbw_putbits lbw0 1 1;
          l = (mlen_i + 2 ^ 64 - MIN_MATCH) mod 2 ^ 64
      in if l < A_LEN then
           lbw_putbits (lbw_putbits lbw 1 1) (of_nat l) (int A_BITS)
         else if l < B_LEN then
           lbw_putbits (lbw_putbits lbw (push_bit 1 1) 2) (of_nat (l - A_LEN)) (int B_BITS)
         else if l < C_LEN then
           lbw_putbits (lbw_putbits lbw (push_bit 2 1) 3) (of_nat (l - B_LEN)) (int C_BITS)
         else if l < D_LEN then
           lbw_putbits (lbw_putbits lbw (push_bit 3 1) 4) (of_nat (l - C_LEN)) (int D_BITS)
         else if l < E_LEN then
           lbw_putbits (lbw_putbits lbw (push_bit 4 1) 5) (of_nat (l - D_LEN)) (int E_BITS)
         else
           lbw_putbits (lbw_putbits lbw 0 5) (of_nat (l - E_LEN)) (int F_BITS))"

function leparse_mlog :: "nat \<Rightarrow> nat \<Rightarrow> nat" where
  \<comment> \<open>\<open>while (offs >= (2UL << mlog)) ++mlog\<close>; the shift cannot wrap while \<open>offs < 2 ^ 63\<close>\<close>
  "leparse_mlog offs mlog = (if offs \<ge> 2 * 2 ^ mlog then leparse_mlog offs (mlog + 1) else mlog)"
  by pat_completeness auto
termination
proof (relation "measure (\<lambda>(offs, mlog). offs - mlog)")
  fix offs mlog :: nat
  assume "2 * 2 ^ mlog \<le> offs"
  moreover have "mlog < 2 ^ mlog" by (rule less_exp)
  ultimately have "mlog < offs" by linarith
  then show "((offs, mlog + 1), (offs, mlog)) \<in> measure (\<lambda>(offs, mlog). offs - mlog)"
    by simp
qed simp

declare leparse_mlog.simps [simp del]

definition leparse_emit_offs :: "lsb_bitwriter \<Rightarrow> nat \<Rightarrow> lsb_bitwriter" where
  \<comment> \<open>the offset code of \<open>crush_pack_leparse\<close>; the argument is \<open>offs = i - mpos[i] - 1\<close>\<close>
  "leparse_emit_offs lbw0 offs =
     (let mlog = leparse_mlog offs (W_BITS - NUM_SLOTS);
          lbw = lbw_putbits lbw0 (of_nat (mlog - (W_BITS - NUM_SLOTS))) (int SLOT_BITS)
      in if mlog > W_BITS - NUM_SLOTS
         then lbw_putbits lbw (of_nat ((offs + 2 ^ 64 - 2 ^ mlog) mod 2 ^ 64)) (int mlog)
         else lbw_putbits lbw (of_nat offs) (int (W_BITS - (NUM_SLOTS - 1))))"

definition btparse_emit_offs :: "lsb_bitwriter \<Rightarrow> nat \<Rightarrow> lsb_bitwriter" where
  \<comment> \<open>the offset code of \<open>crush_pack_btparse\<close>; the argument is \<open>offs = mpos[i]\<close>\<close>
  "btparse_emit_offs lbw0 offs =
     (if offs \<ge> 2 * 2 ^ (W_BITS - NUM_SLOTS) then
        (let mlog = crush_log2 offs;
             lbw = lbw_putbits lbw0 (of_nat (mlog - (W_BITS - NUM_SLOTS))) (int SLOT_BITS)
         in lbw_putbits lbw (of_nat ((offs + 2 ^ 64 - 2 ^ mlog) mod 2 ^ 64)) (int mlog))
      else
        (let lbw = lbw_putbits lbw0 0 (int SLOT_BITS)
         in lbw_putbits lbw (of_nat offs) (int (W_BITS - (NUM_SLOTS - 1)))))"

definition leparse_emit_match :: "lsb_bitwriter \<Rightarrow> nat \<Rightarrow> nat \<Rightarrow> lsb_bitwriter" where
  "leparse_emit_match lbw offs mlen_i = leparse_emit_offs (emit_match_len lbw mlen_i) offs"

definition btparse_emit_match :: "lsb_bitwriter \<Rightarrow> nat \<Rightarrow> nat \<Rightarrow> lsb_bitwriter" where
  "btparse_emit_match lbw offs mlen_i = btparse_emit_offs (emit_match_len lbw mlen_i) offs"


section \<open>The packers (crush.c, crush_leparse.h, crush_btparse.h)\<close>

text \<open>
  \<open>workmem\<close> is the scratch buffer as an array of words: \<open>unsigned long\<close> words for
  \<open>crush_pack_leparse\<close>, \<open>uint32_t\<close> words for \<open>crush_pack_btparse\<close>. Loop counters and source
  positions are natural numbers; they stay below \<open>2 ^ 64\<close> for every source the theorems
  below are about, and differences of values read from memory are taken with \<open>ulong_sub\<close>.
  A decrement \<open>--cur\<close> is written \<open>cur - 1\<close> where the loop guard has \<open>cur > 0\<close>.
\<close>

type_synonym workmem = "nat \<Rightarrow> nat"

definition UINT32_MAX :: nat where "UINT32_MAX = 2 ^ 32 - 1"

definition ulong_sub :: "nat \<Rightarrow> nat \<Rightarrow> nat" where
  \<comment> \<open>subtraction of \<open>unsigned long\<close> values\<close>
  "ulong_sub a b = (a + 2 ^ 64 - b mod 2 ^ 64) mod 2 ^ 64"


definition crush_hash3_bits :: "byte list \<Rightarrow> nat \<Rightarrow> nat \<Rightarrow> nat" where
  \<comment> \<open>\<open>crush_hash3_bits(&in[i], bits)\<close>\<close>
  "crush_hash3_bits p i bits =
     (let val = (ucast (p ! i) OR push_bit 8 (ucast (p ! (i + 1)))
                 OR push_bit 16 (ucast (p ! (i + 2)))) :: uint32
      in unat (drop_bit (32 - bits) (val * 2654435761)))"

function fill :: "workmem \<Rightarrow> nat \<Rightarrow> nat \<Rightarrow> nat \<Rightarrow> nat \<Rightarrow> workmem" where
  \<comment> \<open>\<open>for (; i < n; ++i) a[i] = v\<close>, for the array \<open>a\<close> that starts at word \<open>base\<close>\<close>
  "fill w base i n v = (if i < n then fill (w(base + i := v)) base (i + 1) n v else w)"
  by pat_completeness auto
termination
  by (relation "measure (\<lambda>(w, base, i, n, v). n - i)") auto

declare fill.simps [simp del]

function literals_loop :: "byte list \<Rightarrow> lsb_bitwriter \<Rightarrow> nat \<Rightarrow> nat \<Rightarrow> lsb_bitwriter" where
  \<comment> \<open>\<open>for (i = 0; i < src_size; ++i) lbw_putbits(&lbw, (uint32_t) in[i] << 1, 9)\<close>\<close>
  "literals_loop inp lbw i src_size =
     (if i < src_size then literals_loop inp (emit_literal lbw (inp ! i)) (i + 1) src_size else lbw)"
  by pat_completeness auto
termination
  by (relation "measure (\<lambda>(inp, lbw, i, n). n - i)") auto

declare literals_loop.simps [simp del]

function match_len :: "byte list \<Rightarrow> nat \<Rightarrow> nat \<Rightarrow> nat \<Rightarrow> nat \<Rightarrow> nat" where
  \<comment> \<open>\<open>while (len < len_limit && in[pos + len] == in[cur + len]) ++len\<close>\<close>
  "match_len inp pos cur len_limit len =
     (if len < len_limit \<and> inp ! (pos + len) = inp ! (cur + len)
      then match_len inp pos cur len_limit (len + 1) else len)"
  by pat_completeness auto
termination
  by (relation "measure (\<lambda>(inp, pos, cur, len_limit, len). len_limit - len)") auto

declare match_len.simps [simp del]

subsection \<open>crush_leparse.h\<close>

text \<open>
  The arrays of \<open>crush_pack_leparse\<close> are windows of \<open>workmem\<close>, counted in words of type
  \<open>unsigned long\<close>: \<open>prev\<close> and \<open>cost\<close> start at word 0, \<open>mpos\<close> and \<open>lookup\<close> at word
  \<open>src_size\<close>, \<open>mlen\<close> at word \<open>2 * src_size\<close>.
\<close>

definition le_prev :: "nat \<Rightarrow> nat \<Rightarrow> nat" where "le_prev src_size i = i"
definition le_cost :: "nat \<Rightarrow> nat \<Rightarrow> nat" where "le_cost src_size i = i"
definition le_mpos :: "nat \<Rightarrow> nat \<Rightarrow> nat" where "le_mpos src_size i = src_size + i"
definition le_lookup :: "nat \<Rightarrow> nat \<Rightarrow> nat" where "le_lookup src_size i = src_size + i"
definition le_mlen :: "nat \<Rightarrow> nat \<Rightarrow> nat" where "le_mlen src_size i = 2 * src_size + i"

lemmas le_layout = le_prev_def le_cost_def le_mpos_def le_lookup_def le_mlen_def

definition leparse_bits :: "nat \<Rightarrow> nat" where
  \<comment> \<open>\<open>const int bits = 2 * src_size < LOOKUP_SIZE ? CRUSH_HASH_BITS : crush_log2(src_size)\<close>\<close>
  "leparse_bits src_size =
     (if (2 * src_size) mod 2 ^ 64 < LOOKUP_SIZE then CRUSH_HASH_BITS else crush_log2 src_size)"

function leparse_build :: "byte list \<Rightarrow> nat \<Rightarrow> nat \<Rightarrow> nat \<Rightarrow> workmem \<Rightarrow> nat \<Rightarrow> workmem" where
  \<comment> \<open>"Build hash chains in prev"\<close>
  "leparse_build inp bits n last_match_pos w i =
     (if i \<le> last_match_pos then
        let hash = crush_hash3_bits inp i bits;
            w = w(le_prev n i := w (le_lookup n hash));
            w = w(le_lookup n hash := i)
        in leparse_build inp bits n last_match_pos w (i + 1)
      else w)"
  by pat_completeness auto
termination
  by (relation "measure (\<lambda>(inp, bits, n, last_match_pos, w, i). Suc last_match_pos - i)") auto

declare leparse_build.simps [simp del]

function leparse_min_cost ::
  "nat \<Rightarrow> workmem \<Rightarrow> nat \<Rightarrow> nat \<Rightarrow> nat \<Rightarrow> nat \<Rightarrow> nat \<Rightarrow> nat \<Rightarrow> nat \<times> nat" where
  \<comment> \<open>"Find lowest cost match length": \<open>for (i = max_len + 1; i <= len; ++i)\<close>\<close>
  "leparse_min_cost n w cur pos len i min_cost min_cost_len =
     (if i \<le> len then
        let match_cost = crush_match_cost (ulong_sub (ulong_sub cur pos) 1) i;
            cost_here = match_cost + w (le_cost n (cur + i))
        in if cost_here < min_cost
           then leparse_min_cost n w cur pos len (i + 1) cost_here i
           else leparse_min_cost n w cur pos len (i + 1) min_cost min_cost_len
      else (min_cost, min_cost_len))"
  by pat_completeness auto
termination
  by (relation "measure (\<lambda>(n, w, cur, pos, len, i, mc, ml). Suc len - i)") auto

declare leparse_min_cost.simps [simp del]

definition le_store :: "nat \<Rightarrow> workmem \<Rightarrow> nat \<Rightarrow> nat \<Rightarrow> nat \<Rightarrow> nat \<Rightarrow> workmem" where
  \<comment> \<open>\<open>cost[cur] = c; mpos[cur] = pos; mlen[cur] = len;\<close>\<close>
  "le_store n w cur c pos len = w(le_cost n cur := c, le_mpos n cur := pos, le_mlen n cur := len)"

function leparse_left_extend ::
  "byte list \<Rightarrow> nat \<Rightarrow> workmem \<Rightarrow> nat \<Rightarrow> nat \<Rightarrow> nat \<Rightarrow> workmem \<times> nat" where
  \<comment> \<open>the \<open>do ... while\<close> of "Left-extend current match if possible"; entered with \<open>pos > 0\<close>\<close>
  "leparse_left_extend inp n w0 cur0 pos0 min_cost_len0 =
     (let cur = cur0 - 1;
          pos = pos0 - 1;
          min_cost_len = min_cost_len0 + 1;
          match_cost = crush_match_cost (ulong_sub (ulong_sub cur pos) 1) min_cost_len;
          cost_here = match_cost + w0 (le_cost n (cur + min_cost_len));
          w = le_store n w0 cur cost_here pos min_cost_len
      in if pos > 0 \<and> inp ! (pos - 1) = inp ! (cur - 1) \<and> min_cost_len < MAX_MATCH
         then leparse_left_extend inp n w cur pos min_cost_len
         else (w, cur))"
  by pat_completeness auto
termination
  by (relation "measure (\<lambda>(inp, n, w, cur, pos, mcl). pos)") auto

declare leparse_left_extend.simps [simp del]

definition leparse_try ::
  "byte list \<Rightarrow> nat \<Rightarrow> nat \<Rightarrow> nat \<Rightarrow> workmem \<Rightarrow> nat \<Rightarrow> nat \<Rightarrow> nat
     \<Rightarrow> workmem \<times> nat \<times> nat \<times> bool" where
  \<comment> \<open>the body of the loop "Go through the chain of prev matches" for one \<open>pos\<close>: the new
     workmem, \<open>cur\<close> and \<open>max_len\<close>, and whether the loop is left by a \<open>break\<close>\<close>
  "leparse_try inp n accept_len len_limit w0 cur pos max_len0 =
     (if ulong_sub cur pos > W_SIZE then (w0, cur, max_len0, True)
      else
        let len = (if max_len0 < len_limit \<and> inp ! (pos + max_len0) = inp ! (cur + max_len0)
                   then match_len inp pos cur len_limit 0 else 0)
        in if len > max_len0 then
             let (min_cost, min_cost_len) =
                   leparse_min_cost n w0 cur pos len (max_len0 + 1) ULONG_MAX (MIN_MATCH - 1)
             in if min_cost < w0 (le_cost n cur) then
                  let w = le_store n w0 cur min_cost pos min_cost_len
                  in if pos > 0 \<and> inp ! (pos - 1) = inp ! (cur - 1) \<and> min_cost_len < MAX_MATCH
                     then (let (w, cur) = leparse_left_extend inp n w cur pos min_cost_len
                           in (w, cur, len, True))
                     else (w, cur, len, len \<ge> accept_len \<or> len = len_limit)
                else (w0, cur, len, len \<ge> accept_len \<or> len = len_limit)
           else (w0, cur, max_len0, len \<ge> accept_len \<or> len = len_limit))"

function leparse_chain ::
  "byte list \<Rightarrow> nat \<Rightarrow> nat \<Rightarrow> nat \<Rightarrow> workmem \<Rightarrow> nat \<Rightarrow> nat \<Rightarrow> nat \<Rightarrow> nat
     \<Rightarrow> workmem \<times> nat" where
  \<comment> \<open>\<open>for (; pos != NO_MATCH_POS && num_chain--; pos = prev[pos])\<close>\<close>
  "leparse_chain inp n accept_len len_limit w cur pos max_len num_chain =
     (if pos \<noteq> NO_MATCH_POS \<and> num_chain \<noteq> 0 then
        (case leparse_try inp n accept_len len_limit w cur pos max_len of
           (w', cur', max_len', brk) \<Rightarrow>
             if brk then (w', cur')
             else leparse_chain inp n accept_len len_limit w' cur' (w' (le_prev n pos)) max_len'
                    (num_chain - 1))
      else (w, cur))"
  by pat_completeness auto
termination
  by (relation "measure (\<lambda>(inp, n, a, l, w, cur, pos, max_len, num_chain). num_chain)") auto

declare leparse_chain.simps [simp del]

lemma leparse_left_extend_le: "snd (leparse_left_extend inp n w cur pos mcl) \<le> cur"
proof (induction inp n w cur pos mcl rule: leparse_left_extend.induct)
  case (1 inp n w0 cur0 pos0 min_cost_len0)
  define w where "w = le_store n w0 (cur0 - 1)
      (crush_match_cost (ulong_sub (ulong_sub (cur0 - 1) (pos0 - 1)) 1) (min_cost_len0 + 1)
         + w0 (le_cost n (cur0 - 1 + (min_cost_len0 + 1)))) (pos0 - 1) (min_cost_len0 + 1)"
  show ?case
  proof (cases "pos0 - 1 > 0 \<and> inp ! (pos0 - 1 - 1) = inp ! (cur0 - 1 - 1) \<and> min_cost_len0 + 1 < MAX_MATCH")
    case True
    have eq: "leparse_left_extend inp n w0 cur0 pos0 min_cost_len0
                = leparse_left_extend inp n w (cur0 - 1) (pos0 - 1) (min_cost_len0 + 1)"
      using True by (subst leparse_left_extend.simps) (simp add: Let_def w_def)
    from "1.IH" [OF refl refl refl refl refl refl True]
    have "snd (leparse_left_extend inp n w (cur0 - 1) (pos0 - 1) (min_cost_len0 + 1)) \<le> cur0 - 1"
      by (simp only: w_def)
    then show ?thesis unfolding eq by (rule order_trans) simp
  next
    case False
    have "leparse_left_extend inp n w0 cur0 pos0 min_cost_len0 = (w, cur0 - 1)"
      using False by (subst leparse_left_extend.simps) (auto simp add: Let_def w_def)
    then show ?thesis by simp
  qed
qed

lemma leparse_try_le:
  "leparse_try inp n accept_len len_limit w cur pos max_len = (w', cur', max_len', brk) \<Longrightarrow> cur' \<le> cur"
  using leparse_left_extend_le [of inp n _ cur pos]
  by (auto simp: leparse_try_def Let_def split: if_splits prod.splits)
     (metis snd_conv)+

lemma leparse_chain_le:
  "snd (leparse_chain inp n accept_len len_limit w cur pos max_len num_chain) \<le> cur"
proof (induction inp n accept_len len_limit w cur pos max_len num_chain rule: leparse_chain.induct)
  case (1 inp n accept_len len_limit w cur pos max_len num_chain)
  show ?case
  proof (cases "pos \<noteq> NO_MATCH_POS \<and> num_chain \<noteq> 0")
    case False
    then show ?thesis by (subst leparse_chain.simps) auto
  next
    case True
    obtain w' cur' max_len' brk where
      t: "leparse_try inp n accept_len len_limit w cur pos max_len = (w', cur', max_len', brk)"
      by (cases "leparse_try inp n accept_len len_limit w cur pos max_len") auto
    note le = leparse_try_le [OF t]
    show ?thesis
    proof (cases brk)
      case True
      with \<open>pos \<noteq> NO_MATCH_POS \<and> num_chain \<noteq> 0\<close> t le show ?thesis
        by (subst leparse_chain.simps) simp
    next
      case False
      from "1.IH" [OF True t [symmetric] refl refl False] le
      show ?thesis
        using True t False by (subst leparse_chain.simps) simp
    qed
  qed
qed

lemma leparse_chain_decr:
  assumes "(w', cur') = leparse_chain inp n accept_len len_limit w cur pos max_len num_chain"
    and "0 < cur"
  shows "cur' - Suc 0 < cur"
proof -
  have "cur' \<le> cur"
    using leparse_chain_le [of inp n accept_len len_limit w cur pos max_len num_chain]
    by (simp flip: assms(1))
  with assms(2) show ?thesis by simp
qed

function leparse_parse :: "byte list \<Rightarrow> nat \<Rightarrow> nat \<Rightarrow> nat \<Rightarrow> workmem \<Rightarrow> nat \<Rightarrow> workmem" where
  \<comment> \<open>"Phase 2: Find lowest cost path from each position to end":
     \<open>for (cur = last_match_pos; cur > 0; --cur)\<close>, where the body may lower \<open>cur\<close>\<close>
  "leparse_parse inp n max_depth accept_len w0 cur =
     (if cur > 0 then
        let pos = w0 (le_prev n cur);
            w = w0(le_cost n cur := w0 (le_cost n (cur + 1)) + 9);
            w = w(le_mlen n cur := 1);
            max_len = MIN_MATCH - 1;
            len_limit = (if n - cur > MAX_MATCH then MAX_MATCH else n - cur);
            num_chain = max_depth
        in (case leparse_chain inp n accept_len len_limit w cur pos max_len num_chain of
              (w', cur') \<Rightarrow> leparse_parse inp n max_depth accept_len w' (cur' - 1))
      else w0)"
  by pat_completeness auto
termination
  by (relation "measure (\<lambda>(inp, n, max_depth, accept_len, w, cur). cur)")
     (auto intro: leparse_chain_decr)

declare leparse_parse.simps [simp del]

partial_function (option) leparse_emit ::
  "byte list \<Rightarrow> nat \<Rightarrow> workmem \<Rightarrow> lsb_bitwriter \<Rightarrow> nat \<Rightarrow> lsb_bitwriter option" where
  \<comment> \<open>"Phase 3: Output compressed data, following lowest cost path":
     \<open>for (i = 0; i < src_size; i += mlen[i])\<close>; \<open>None\<close> when the loop does not end\<close>
  "leparse_emit inp n w lbw i =
     (if i < n then
        (if w (le_mlen n i) = 1 then
           leparse_emit inp n w (emit_literal lbw (inp ! i)) (i + w (le_mlen n i))
         else
           let offs = ulong_sub (ulong_sub i (w (le_mpos n i))) 1
           in leparse_emit inp n w (leparse_emit_match lbw offs (w (le_mlen n i)))
                (i + w (le_mlen n i)))
      else Some lbw)"

declare leparse_emit.simps [code]

definition crush_pack_leparse :: "byte list \<Rightarrow> workmem \<Rightarrow> nat \<Rightarrow> nat \<Rightarrow> byte list option" where
  \<comment> \<open>the bytes stored to \<open>dst\<close>; the value returned is their number\<close>
  "crush_pack_leparse inp workmem max_depth accept_len =
     (let src_size = length inp;
          last_match_pos = (if src_size > 3 then src_size - 3 else 0)
      in if src_size = 0 then Some []
         else if src_size < 4 then Some (lbw_finalize (literals_loop inp lbw_init 0 src_size))
         else
           let bits = leparse_bits src_size;
               w = fill workmem (le_lookup src_size 0) 0 (2 ^ bits) NO_MATCH_POS;
               w = (if last_match_pos > 0
                    then leparse_build inp bits src_size last_match_pos w 0 else w);
               w = w(le_mlen src_size (src_size - 2) := 1);
               w = w(le_mlen src_size (src_size - 1) := 1);
               w = w(le_cost src_size (src_size - 2) := 18);
               w = w(le_cost src_size (src_size - 1) := 9);
               w = w(le_cost src_size src_size := 0);
               w = leparse_parse inp src_size max_depth accept_len w last_match_pos;
               w = w(le_mpos src_size 0 := 0);
               w = w(le_mlen src_size 0 := 1)
           in map_option lbw_finalize (leparse_emit inp src_size w lbw_init 0))"

subsection \<open>crush_btparse.h\<close>

text \<open>
  The arrays of \<open>crush_pack_btparse\<close> are windows of \<open>workmem\<close>, counted in words of type
  \<open>uint32_t\<close>: \<open>cost\<close>, \<open>mpos\<close> and \<open>mlen\<close> have \<open>src_size + 1\<close> words each, \<open>nodes\<close> has
  \<open>2 * src_size\<close>, and \<open>lookup\<close> follows. Every store to them is reduced modulo \<open>2 ^ 32\<close>.
\<close>

definition bt_cost :: "nat \<Rightarrow> nat \<Rightarrow> nat" where "bt_cost src_size i = i"
definition bt_mpos :: "nat \<Rightarrow> nat \<Rightarrow> nat" where "bt_mpos src_size i = (src_size + 1) + i"
definition bt_mlen :: "nat \<Rightarrow> nat \<Rightarrow> nat" where "bt_mlen src_size i = 2 * (src_size + 1) + i"
definition bt_nodes :: "nat \<Rightarrow> nat \<Rightarrow> nat" where "bt_nodes src_size i = 3 * (src_size + 1) + i"
definition bt_lookup :: "nat \<Rightarrow> nat \<Rightarrow> nat" where
  "bt_lookup src_size i = 3 * (src_size + 1) + 2 * src_size + i"

lemmas bt_layout = bt_cost_def bt_mpos_def bt_mlen_def bt_nodes_def bt_lookup_def


function btparse_init :: "nat \<Rightarrow> workmem \<Rightarrow> nat \<Rightarrow> workmem" where
  \<comment> \<open>"Initialize to all literals with infinite cost": \<open>for (i = 0; i <= src_size; ++i)\<close>\<close>
  "btparse_init n w i =
     (if i \<le> n then btparse_init n (w(bt_cost n i := UINT32_MAX, bt_mlen n i := 1)) (i + 1)
      else w)"
  by pat_completeness auto
termination
  by (relation "measure (\<lambda>(n, w, i). Suc n - i)") auto

declare btparse_init.simps [simp del]

definition btparse_literal :: "nat \<Rightarrow> workmem \<Rightarrow> nat \<Rightarrow> workmem" where
  \<comment> \<open>"Check literal"\<close>
  "btparse_literal n w cur =
     (if w (bt_cost n (cur + 1)) > (w (bt_cost n cur) + 9) mod 2 ^ 32
      then w(bt_cost n (cur + 1) := (w (bt_cost n cur) + 9) mod 2 ^ 32, bt_mlen n (cur + 1) := 1)
      else w)"

function btparse_costs :: "nat \<Rightarrow> workmem \<Rightarrow> nat \<Rightarrow> nat \<Rightarrow> nat \<Rightarrow> nat \<Rightarrow> workmem" where
  \<comment> \<open>\<open>for (i = max_len + 1; i <= len; ++i)\<close> of "Extend current match if possible"\<close>
  "btparse_costs n w cur pos len i =
     (if i \<le> len then
        let match_cost = crush_match_cost (ulong_sub (ulong_sub cur pos) 1) i;
            cost_there = w (bt_cost n cur) + match_cost
        in if cost_there < w (bt_cost n (cur + i))
           then btparse_costs n
                  (w(bt_cost n (cur + i) := cost_there mod 2 ^ 32,
                     bt_mpos n (cur + i) := ulong_sub (ulong_sub cur pos) 1 mod 2 ^ 32,
                     bt_mlen n (cur + i) := i mod 2 ^ 32))
                  cur pos len (i + 1)
           else btparse_costs n w cur pos len (i + 1)
      else w)"
  by pat_completeness auto
termination
  by (relation "measure (\<lambda>(n, w, cur, pos, len, i). Suc len - i)") auto

declare btparse_costs.simps [simp del]

function btparse_search ::
  "byte list \<Rightarrow> nat \<Rightarrow> nat \<Rightarrow> nat \<Rightarrow> nat \<Rightarrow> workmem \<Rightarrow> nat \<Rightarrow> nat \<Rightarrow> nat \<Rightarrow> nat \<Rightarrow> nat
     \<Rightarrow> nat \<Rightarrow> nat \<Rightarrow> nat \<Rightarrow> workmem \<times> nat" where
  \<comment> \<open>the loop "Check matches": \<open>lt_node\<close> and \<open>gt_node\<close> are the words of \<open>workmem\<close> the two
     pointers address; the result is the new workmem and \<open>next_match_cur\<close>\<close>
  "btparse_search inp n accept_len len_limit cur w pos lt_node gt_node lt_len gt_len max_len
       next_match_cur num_chain =
     (if pos = NO_MATCH_POS \<or> ulong_sub cur pos > W_SIZE \<or> num_chain = 0 then
        (w(lt_node := NO_MATCH_POS, gt_node := NO_MATCH_POS), next_match_cur)
      else
        let len = match_len inp pos cur len_limit (if lt_len < gt_len then lt_len else gt_len);
            scored = (cur = next_match_cur \<and> len > max_len);
            w1 = (if scored then btparse_costs n w cur pos len (max_len + 1) else w);
            max_len1 = (if scored then len else max_len);
            next1 = (if scored \<and> len \<ge> accept_len then (cur + len) mod 2 ^ 64 else next_match_cur)
        in if len \<ge> accept_len \<or> len = len_limit then
             (let w2 = w1(lt_node := w1 (bt_nodes n (2 * pos)));
                  w3 = w2(gt_node := w2 (bt_nodes n (2 * pos + 1)))
              in (w3, next1))
           else if unat (inp ! (pos + len)) < unat (inp ! (cur + len)) then
             (let w2 = w1(lt_node := pos mod 2 ^ 32)
              in btparse_search inp n accept_len len_limit cur w2 (w2 (bt_nodes n (2 * pos + 1)))
                   (bt_nodes n (2 * pos + 1)) gt_node len gt_len max_len1 next1 (num_chain - 1))
           else
             (let w2 = w1(gt_node := pos mod 2 ^ 32)
              in btparse_search inp n accept_len len_limit cur w2 (w2 (bt_nodes n (2 * pos)))
                   lt_node (bt_nodes n (2 * pos)) lt_len len max_len1 next1 (num_chain - 1)))"
  by pat_completeness auto
termination
  by (relation "measure (\<lambda>(inp, n, a, ll, cur, w, pos, lt, gt, ltl, gtl, ml, nx, num_chain). num_chain)")
     auto

declare btparse_search.simps [simp del]

function btparse_parse ::
  "byte list \<Rightarrow> nat \<Rightarrow> nat \<Rightarrow> nat \<Rightarrow> nat \<Rightarrow> workmem \<Rightarrow> nat \<Rightarrow> nat \<Rightarrow> workmem" where
  \<comment> \<open>"Phase 1: Find lowest cost path arriving at each position":
     \<open>for (cur = 0; cur <= last_match_pos; ++cur)\<close>\<close>
  "btparse_parse inp n max_depth accept_len last_match_pos w0 next_match_cur0 cur =
     (if cur \<le> last_match_pos then
        let w1 = btparse_literal n w0 cur;
            next_match_cur = (if cur > next_match_cur0 then cur else next_match_cur0);
            max_len = MIN_MATCH - 1;
            hash = crush_hash3_bits inp cur CRUSH_HASH_BITS;
            pos = w1 (bt_lookup n hash);
            w2 = w1(bt_lookup n hash := cur mod 2 ^ 32);
            len_left = (if n - cur > MAX_MATCH then MAX_MATCH else n - cur);
            len_limit = (if cur = next_match_cur then len_left
                         else if accept_len < len_left then accept_len else len_left);
            num_chain = max_depth
        in (case btparse_search inp n accept_len len_limit cur w2 pos (bt_nodes n (2 * cur))
                   (bt_nodes n (2 * cur + 1)) 0 0 max_len next_match_cur num_chain of
              (w3, next3) \<Rightarrow>
                btparse_parse inp n max_depth accept_len last_match_pos w3 next3 (cur + 1))
      else w0)"
  by pat_completeness auto
termination
  by (relation "measure (\<lambda>(inp, n, d, a, last, w, nx, cur). Suc last - cur)") auto

declare btparse_parse.simps [simp del]

function btparse_tail :: "nat \<Rightarrow> workmem \<Rightarrow> nat \<Rightarrow> workmem" where
  \<comment> \<open>\<open>for (cur = last_match_pos + 1; cur < src_size; ++cur)\<close>, "Check literal"\<close>
  "btparse_tail n w cur = (if cur < n then btparse_tail n (btparse_literal n w cur) (cur + 1) else w)"
  by pat_completeness auto
termination
  by (relation "measure (\<lambda>(n, w, cur). n - cur)") auto

declare btparse_tail.simps [simp del]

partial_function (option) btparse_gather :: "nat \<Rightarrow> workmem \<Rightarrow> nat \<Rightarrow> nat \<Rightarrow> (workmem \<times> nat) option" where
  \<comment> \<open>"Phase 2: Follow lowest cost path backwards gathering tokens":
     \<open>for (cur = src_size; cur > 0; cur -= mlen[cur], --next_token)\<close>; the result is the new
     workmem and \<open>next_token\<close>, \<open>None\<close> when the loop does not end\<close>
  "btparse_gather n w cur next_token =
     (if cur > 0 then
        let w1 = w(bt_mlen n next_token := w (bt_mlen n cur));
            w2 = w1(bt_mpos n next_token := w1 (bt_mpos n cur))
        in btparse_gather n w2 (ulong_sub cur (w2 (bt_mlen n cur))) (ulong_sub next_token 1)
      else Some (w, next_token))"

declare btparse_gather.simps [code]

function btparse_emit ::
  "byte list \<Rightarrow> nat \<Rightarrow> workmem \<Rightarrow> lsb_bitwriter \<Rightarrow> nat \<Rightarrow> nat \<Rightarrow> lsb_bitwriter" where
  \<comment> \<open>"Phase 3: Output tokens": \<open>for (i = next_token + 1; i <= src_size; cur += mlen[i++])\<close>\<close>
  "btparse_emit inp n w lbw cur i =
     (if i \<le> n then
        (if w (bt_mlen n i) = 1 then
           btparse_emit inp n w (emit_literal lbw (inp ! cur)) ((cur + w (bt_mlen n i)) mod 2 ^ 64) (i + 1)
         else
           btparse_emit inp n w (btparse_emit_match lbw (w (bt_mpos n i)) (w (bt_mlen n i)))
             ((cur + w (bt_mlen n i)) mod 2 ^ 64) (i + 1))
      else lbw)"
  by pat_completeness auto
termination
  by (relation "measure (\<lambda>(inp, n, w, lbw, cur, i). Suc n - i)") auto

declare btparse_emit.simps [simp del]

definition crush_pack_btparse :: "byte list \<Rightarrow> workmem \<Rightarrow> nat \<Rightarrow> nat \<Rightarrow> byte list option" where
  \<comment> \<open>the bytes stored to \<open>dst\<close>; the value returned is their number\<close>
  "crush_pack_btparse inp workmem max_depth accept_len =
     (let src_size = length inp;
          last_match_pos = (if src_size > 3 then src_size - 3 else 0)
      in if src_size = 0 then Some []
         else if src_size < 4 then Some (lbw_finalize (literals_loop inp lbw_init 0 src_size))
         else
           let w = fill workmem (bt_lookup src_size 0) 0 LOOKUP_SIZE NO_MATCH_POS;
               w = btparse_init src_size w 0;
               w = w(bt_cost src_size 0 := 0);
               w = btparse_parse inp src_size max_depth accept_len last_match_pos w 0 0;
               w = btparse_tail src_size w (last_match_pos + 1)
           in (case btparse_gather src_size w src_size src_size of
                 None \<Rightarrow> None
               | Some (w, next_token) \<Rightarrow>
                   Some (lbw_finalize
                     (btparse_emit inp src_size w lbw_init 0 ((next_token + 1) mod 2 ^ 64)))))"

subsection \<open>crush.c: crush_pack_level\<close>

definition crush_pack_level :: "byte list \<Rightarrow> workmem \<Rightarrow> int \<Rightarrow> (nat \<times> byte list) option" where
  \<comment> \<open>the value returned and the bytes stored to \<open>dst\<close>; \<open>CRUSH_ERROR\<close> is \<open>(unsigned long) (-1)\<close>;
     \<open>None\<close> when the call does not return\<close>
  "crush_pack_level inp workmem level =
     (let ret = map_option (\<lambda>packed. (length packed, packed)) in
      if level = 5 then ret (crush_pack_leparse inp workmem 1 16)
      else if level = 6 then ret (crush_pack_leparse inp workmem 8 32)
      else if level = 7 then ret (crush_pack_leparse inp workmem 64 64)
      else if level = 8 then ret (crush_pack_btparse inp workmem 16 96)
      else if level = 9 then ret (crush_pack_btparse inp workmem 32 224)
      else if level = 10 then ret (crush_pack_btparse inp workmem ULONG_MAX ULONG_MAX)
      else Some (ULONG_MAX, []))"


section \<open>Machine words as numbers\<close>


lemma nat_or_push_bit:
  fixes a b :: nat
  assumes "a < 2 ^ m"
  shows "a OR push_bit m b = a + 2 ^ m * b"
proof -
  have "a AND push_bit m b = 0"
  proof (rule bit_eqI)
    fix n
    show "bit (a AND push_bit m b) n = bit (0::nat) n"
    proof (cases "n < m")
      case True then show ?thesis by (simp add: bit_simps)
    next
      case False
      then have "2 ^ m \<le> (2::nat) ^ n" by simp
      with assms have "a < 2 ^ n" by linarith
      then have "\<not> bit a n" by (simp add: bit_iff_odd)
      then show ?thesis by (simp add: bit_simps)
    qed
  qed
  then have "a + push_bit m b = a OR push_bit m b" by (rule disjunctive_add_eq_or)
  then show ?thesis by (simp add: push_bit_eq_mult mult.commute)
qed

lemma unat_or_push_bit:
  fixes t v :: "'a::len word"
  assumes "unat t < 2 ^ m" and "unat v < 2 ^ k" and "m + k \<le> LENGTH('a)"
  shows "unat (t OR push_bit m v) = unat t + 2 ^ m * unat v"
    and "unat (t OR push_bit m v) < 2 ^ (m + k)"
proof -
  have "2 ^ m * unat v < 2 ^ m * 2 ^ k" using assms(2) by simp
  then have lt: "2 ^ m * unat v < 2 ^ (m + k)" by (simp add: power_add)
  have "(2::nat) ^ (m + k) \<le> 2 ^ LENGTH('a)" using assms(3) by simp
  with lt have lt': "2 ^ m * unat v < 2 ^ LENGTH('a)" by linarith
  have "unat (push_bit m v) = take_bit LENGTH('a) (push_bit m (unat v))"
    by (rule unsigned_push_bit_eq)
  also have "\<dots> = 2 ^ m * unat v"
    using lt' by (simp add: push_bit_eq_mult take_bit_nat_eq_self_iff mult.commute)
  finally have pb: "unat (push_bit m v) = 2 ^ m * unat v" .
  have "unat (t OR push_bit m v) = unat t OR unat (push_bit m v)"
    by (rule unsigned_or_eq)
  also have "\<dots> = unat t OR push_bit m (unat v)"
    unfolding pb by (simp add: push_bit_eq_mult mult.commute)
  also have "\<dots> = unat t + 2 ^ m * unat v"
    using assms(1) by (rule nat_or_push_bit)
  finally show e: "unat (t OR push_bit m v) = unat t + 2 ^ m * unat v" .
  have "unat t + 2 ^ m * unat v < 2 ^ m + 2 ^ m * unat v" using assms(1) by simp
  also have "\<dots> = 2 ^ m * (unat v + 1)" by simp
  also have "\<dots> \<le> 2 ^ m * 2 ^ k" using assms(2) by (intro mult_le_mono2) simp
  finally show "unat (t OR push_bit m v) < 2 ^ (m + k)" by (simp add: e power_add)
qed

lemma unat_and_mask: "unat (t AND mask n :: 'a::len word) = unat t mod 2 ^ n"
proof -
  have "unat (t AND mask n) = unat (take_bit n t)" by (simp only: take_bit_eq_mask)
  also have "\<dots> = take_bit n (unat t)" by (rule unsigned_take_bit_eq)
  also have "\<dots> = unat t mod 2 ^ n" by (rule take_bit_eq_mod)
  finally show ?thesis .
qed

lemma unat_drop_bit_div: "unat (drop_bit n t :: 'a::len word) = unat t div 2 ^ n"
proof -
  have "unat (drop_bit n t) = drop_bit n (unat t)" by (rule unat_drop_bit_eq)
  also have "\<dots> = unat t div 2 ^ n" by (rule drop_bit_eq_div)
  finally show ?thesis .
qed

lemma unat_split_byte:
  "unat (t :: uint32) = unat (ucast t :: byte) + 256 * unat (drop_bit 8 t)"
  by (simp add: unat_drop_bit_div unsigned_ucast_eq take_bit_eq_mod)

lemma unat_ucast_byte: "unat (ucast (b :: byte) :: uint32) = unat b"
proof -
  have "unat b < 256" using unsigned_less [of b] by simp
  then have "unat b < 2 ^ 32" by simp
  then show ?thesis by (simp add: unsigned_ucast_eq take_bit_nat_eq_self_iff)
qed


section \<open>The bit stream as a number\<close>

text \<open>
  A sequence of bytes is read as the little-endian number it spells. The writer's state
  stands for the number written so far and the count of its bits, the reader's state for
  the number still to be read.
\<close>


fun bytes_val :: "byte list \<Rightarrow> nat" where
  "bytes_val [] = 0"
| "bytes_val (b # bs) = unat b + 256 * bytes_val bs"

lemma bytes_val_append:
  "bytes_val (xs @ ys) = bytes_val xs + 256 ^ length xs * bytes_val ys"
  by (induction xs) (simp_all add: algebra_simps)

lemma bytes_val_less: "bytes_val xs < 256 ^ length xs"
proof (induction xs)
  case Nil then show ?case by simp
next
  case (Cons b bs)
  have "unat b < 256" using unsigned_less [of b] by simp
  with Cons show ?case by simp
qed

definition lbw_bits :: "lsb_bitwriter \<Rightarrow> int" where
  "lbw_bits lbw = 8 * int (length (next_out lbw)) + w_msb lbw"

definition lbw_val :: "lsb_bitwriter \<Rightarrow> nat" where
  "lbw_val lbw = bytes_val (next_out lbw) + 256 ^ length (next_out lbw) * unat (w_tag lbw)"

definition lbw_ok :: "lsb_bitwriter \<Rightarrow> bool" where
  "lbw_ok lbw \<longleftrightarrow> 0 \<le> w_msb lbw \<and> w_msb lbw \<le> 32 \<and> unat (w_tag lbw) < 2 ^ nat (w_msb lbw)"

lemma lbw_bits_store: "lbw_bits (lbw_store lbw) = lbw_bits lbw"
  by (simp add: lbw_bits_def lbw_store_def)

lemma lbw_val_store: "lbw_val (lbw_store lbw) = lbw_val lbw"
  by (simp add: lbw_val_def lbw_store_def bytes_val_append algebra_simps
       unat_split_byte [of "w_tag lbw"])

lemma lbw_ok_store:
  assumes "lbw_ok lbw" "8 \<le> w_msb lbw"
  shows "lbw_ok (lbw_store lbw)"
proof -
  define k where "k = nat (w_msb lbw - 8)"
  have k: "w_msb lbw = int k + 8" using assms(2) by (simp add: k_def)
  then have "nat (w_msb lbw) = k + 8" by simp
  with assms(1) have "unat (w_tag lbw) < 2 ^ k * 256" by (simp add: lbw_ok_def power_add)
  then have "unat (w_tag lbw) div 256 < 2 ^ k"
    by (simp add: less_mult_imp_div_less)
  with assms k show ?thesis
    by (simp add: lbw_ok_def lbw_store_def unat_drop_bit_div)
qed

lemma lbw_flush_props:
  assumes "lbw_ok lbw" "0 \<le> num" "num \<le> 24"
  shows "lbw_ok (lbw_flush lbw num) \<and> lbw_val (lbw_flush lbw num) = lbw_val lbw
       \<and> lbw_bits (lbw_flush lbw num) = lbw_bits lbw \<and> w_msb (lbw_flush lbw num) \<le> 32 - num"
  using assms
proof (induction lbw num rule: lbw_flush.induct)
  case (1 lbw num)
  show ?case
  proof (cases "w_msb lbw > 32 - num")
    case True
    then have "8 \<le> w_msb lbw" using "1.prems" by simp
    then have "lbw_ok (lbw_store lbw)" using "1.prems" by (simp add: lbw_ok_store)
    from "1.IH" [OF True this "1.prems"(2,3)] True show ?thesis
      by (simp add: lbw_val_store lbw_bits_store lbw_flush.simps [of lbw num])
  next
    case False
    with "1.prems" show ?thesis by (simp add: lbw_flush.simps [of lbw num])
  qed
qed

lemma lbw_bits_flush: "lbw_bits (lbw_flush lbw num) = lbw_bits lbw"
proof (induction lbw num rule: lbw_flush.induct)
  case (1 lbw num)
  then show ?case
    by (cases "w_msb lbw > 32 - num") (simp_all add: lbw_bits_store lbw_flush.simps [of lbw num])
qed

lemma lbw_bits_putbits: "lbw_bits (lbw_putbits lbw bits num) = lbw_bits lbw + num"
proof -
  have "lbw_bits (lbw_putbits lbw bits num) = lbw_bits (lbw_flush lbw num) + num"
    by (simp add: lbw_putbits_def lbw_putbits_no_flush_def lbw_bits_def)
  then show ?thesis by (simp add: lbw_bits_flush)
qed

lemma lbw_putbits_props:
  assumes ok: "lbw_ok lbw" and num: "num \<le> 24" and bits: "unat bits < 2 ^ num"
  shows "lbw_ok (lbw_putbits lbw bits (int num))"
    and "lbw_val (lbw_putbits lbw bits (int num)) = lbw_val lbw + 2 ^ nat (lbw_bits lbw) * unat bits"
proof -
  define f where "f = lbw_flush lbw (int num)"
  have f: "lbw_ok f" "lbw_val f = lbw_val lbw" "lbw_bits f = lbw_bits lbw" "w_msb f \<le> 32 - int num"
    using lbw_flush_props [OF ok, of "int num"] num by (simp_all add: f_def)
  define m where "m = nat (w_msb f)"
  have m: "w_msb f = int m" "m + num \<le> 32" "unat (w_tag f) < 2 ^ m"
    using f(1,4) by (auto simp: m_def lbw_ok_def)
  have p: "lbw_putbits lbw bits (int num) = f\<lparr>w_tag := w_tag f OR push_bit m bits, w_msb := int m + int num\<rparr>"
    by (simp add: lbw_putbits_def lbw_putbits_no_flush_def f_def [symmetric] m)
  have u: "unat (w_tag f OR push_bit m bits) = unat (w_tag f) + 2 ^ m * unat bits"
          "unat (w_tag f OR push_bit m bits) < 2 ^ (m + num)"
    using unat_or_push_bit [OF m(3) bits] m(2) by simp_all
  show "lbw_ok (lbw_putbits lbw bits (int num))"
    using u(2) m(2) by (simp add: p lbw_ok_def nat_add_distrib)
  have "nat (lbw_bits f) = 8 * length (next_out f) + m"
    by (simp add: lbw_bits_def m)
  then have pw: "(2::nat) ^ nat (lbw_bits lbw) = 256 ^ length (next_out f) * 2 ^ m"
    by (simp add: f(3) [symmetric] power_add power_mult)
  have "lbw_val (lbw_putbits lbw bits (int num))
      = lbw_val f + 256 ^ length (next_out f) * 2 ^ m * unat bits"
    by (simp add: p lbw_val_def u(1) algebra_simps)
  then show "lbw_val (lbw_putbits lbw bits (int num)) = lbw_val lbw + 2 ^ nat (lbw_bits lbw) * unat bits"
    by (simp only: f(2) pw)
qed

lemma lbw_finalize_props:
  assumes "w_msb lbw \<le> 32" "unat (w_tag lbw) < 2 ^ nat (w_msb lbw)"
  shows "bytes_val (lbw_finalize lbw) = lbw_val lbw
       \<and> length (lbw_finalize lbw) = length (next_out lbw) + (nat (w_msb lbw) + 7) div 8"
  using assms
proof (induction lbw rule: lbw_finalize.induct)
  case (1 lbw)
  show ?case
  proof (cases "w_msb lbw > 0")
    case True
    define m where "m = nat (w_msb lbw)"
    have m: "w_msb lbw = int m" "0 < m" using True by (simp_all add: m_def)
    have "unat (w_tag lbw) div 256 < 2 ^ (m - 8)"
    proof (cases "8 \<le> m")
      case True
      define k where "k = m - 8"
      have "m = k + 8" using True by (simp add: k_def)
      moreover have "unat (w_tag lbw) < 2 ^ m" using "1.prems"(2) by (simp add: m_def)
      ultimately have "unat (w_tag lbw) < 2 ^ k * 256" by (simp add: power_add)
      then have "unat (w_tag lbw) div 256 < 2 ^ k" by (simp add: less_mult_imp_div_less)
      then show ?thesis by (simp add: \<open>m = k + 8\<close>)
    next
      case False
      then have "(2::nat) ^ m \<le> 2 ^ 8" by (intro power_increasing) simp_all
      with "1.prems"(2) have "unat (w_tag lbw) < 256" by (simp add: m)
      then show ?thesis by simp
    qed
    then have a: "unat (w_tag (lbw_store lbw)) < 2 ^ nat (w_msb (lbw_store lbw))"
      by (simp add: lbw_store_def unat_drop_bit_div m nat_diff_distrib')
    have b: "w_msb (lbw_store lbw) \<le> 32" using "1.prems"(1) by (simp add: lbw_store_def)
    have c: "(m + 7) div 8 = Suc ((m - 8 + 7) div 8)"
    proof (cases "8 \<le> m")
      case True
      then have "m + 7 = (m - 8 + 7) + 1 * 8" by simp
      then show ?thesis by (simp only: div_mult_self1)
    next
      case False
      with m(2) have "m + 7 < 16" "8 \<le> m + 7" "m - 8 = 0" by simp_all
      then show ?thesis by (simp add: div_nat_eqI)
    qed
    have d: "nat (w_msb (lbw_store lbw)) = m - 8" by (simp add: lbw_store_def m nat_diff_distrib')
    have e: "length (next_out (lbw_store lbw)) = Suc (length (next_out lbw))" by (simp add: lbw_store_def)
    have f: "lbw_finalize lbw = lbw_finalize (lbw_store lbw)"
      using True by (subst lbw_finalize.simps) simp
    have g: "nat (w_msb lbw) = m" by (simp add: m_def)
    from "1.IH" [OF True b a] show ?thesis
      unfolding f g d e c lbw_val_store by simp
  next
    case False
    then have "nat (w_msb lbw) = 0" by simp
    with "1.prems" False show ?thesis by (simp add: lbw_val_def lbw_finalize.simps [of lbw])
  qed
qed


definition lbr_bits :: "lsb_bitreader \<Rightarrow> nat" where
  "lbr_bits lbr = nat (r_msb lbr) + 8 * length (r_src lbr)"

definition lbr_val :: "lsb_bitreader \<Rightarrow> nat" where
  "lbr_val lbr = unat (r_tag lbr) + 2 ^ nat (r_msb lbr) * bytes_val (r_src lbr)"

definition lbr_ok :: "lsb_bitreader \<Rightarrow> bool" where
  "lbr_ok lbr \<longleftrightarrow> 0 \<le> r_msb lbr \<and> r_msb lbr \<le> 32 \<and> unat (r_tag lbr) < 2 ^ nat (r_msb lbr)"

lemma lbr_init_props [simp]:
  "lbr_ok (lbr_init s)" "lbr_val (lbr_init s) = bytes_val s" "lbr_bits (lbr_init s) = 8 * length s"
  by (simp_all add: lbr_init_def lbr_ok_def lbr_val_def lbr_bits_def)

lemma lbr_refill_props:
  assumes "lbr_ok lbr" "num \<le> 25" "num \<le> int (lbr_bits lbr)"
  shows "\<exists>lbr'. lbr_refill lbr num = Some lbr' \<and> lbr_ok lbr' \<and> lbr_val lbr' = lbr_val lbr
           \<and> lbr_bits lbr' = lbr_bits lbr \<and> num \<le> r_msb lbr'"
  using assms
proof (induction lbr num rule: lbr_refill.induct)
  case (1 lbr num)
  show ?case
  proof (cases "r_msb lbr < num")
    case False
    with "1.prems" show ?thesis by (simp add: lbr_refill.simps [of lbr num])
  next
    case True
    define m where "m = nat (r_msb lbr)"
    have m: "r_msb lbr = int m" "m \<le> 24" "unat (r_tag lbr) < 2 ^ m"
      using True "1.prems"(1,2) by (auto simp: m_def lbr_ok_def)
    have "int m < int (lbr_bits lbr)" using True "1.prems"(3) m(1) by simp
    then have "r_src lbr \<noteq> []" by (auto simp: lbr_bits_def m)
    then obtain b bs where src: "r_src lbr = b # bs" by (cases "r_src lbr") auto
    define lbr2 where "lbr2 = \<lparr>r_src = bs,
        r_tag = r_tag lbr OR push_bit (nat (r_msb lbr)) (ucast b), r_msb = r_msb lbr + 8\<rparr>"
    have b8: "unat (ucast b :: uint32) < 2 ^ 8"
      using unsigned_less [of b] by (simp add: unat_ucast_byte)
    have u: "unat (r_tag lbr OR push_bit m (ucast b)) = unat (r_tag lbr) + 2 ^ m * unat b"
            "unat (r_tag lbr OR push_bit m (ucast b)) < 2 ^ (m + 8)"
      using unat_or_push_bit [OF m(3) b8] m(2) by (simp_all add: unat_ucast_byte)
    have ok2: "lbr_ok lbr2"
      using u(2) m(2) by (simp add: lbr2_def lbr_ok_def m nat_add_distrib)
    have val2: "lbr_val lbr2 = lbr_val lbr"
      by (simp add: lbr2_def lbr_val_def m src u(1) nat_add_distrib power_add algebra_simps)
    have bits2: "lbr_bits lbr2 = lbr_bits lbr"
      by (simp add: lbr2_def lbr_bits_def m src nat_add_distrib)
    have step: "lbr_refill lbr num = lbr_refill lbr2 num"
      using True by (simp add: lbr_refill.simps [of lbr num] src lbr2_def)
    from "1.IH" [OF True src ok2 [unfolded lbr2_def] "1.prems"(2)] "1.prems"(3)
    show ?thesis
      unfolding step lbr2_def [symmetric] by (simp add: val2 bits2)
  qed
qed

lemma lbr_getbits_props:
  assumes "lbr_ok lbr" "num \<le> 25" "num \<le> lbr_bits lbr"
  obtains v lbr' where "lbr_getbits lbr (int num) = Some (v, lbr')"
    "unat v = lbr_val lbr mod 2 ^ num" "lbr_val lbr' = lbr_val lbr div 2 ^ num"
    "lbr_ok lbr'" "lbr_bits lbr' = lbr_bits lbr - num"
proof -
  from lbr_refill_props [OF assms(1), of "int num"] assms(2,3)
  obtain l where l: "lbr_refill lbr (int num) = Some l" "lbr_ok l" "lbr_val l = lbr_val lbr"
      "lbr_bits l = lbr_bits lbr" "int num \<le> r_msb l"
    by auto
  define m where "m = nat (r_msb l)"
  have m: "r_msb l = int m" "num \<le> m" "unat (r_tag l) < 2 ^ m"
    using l(2,5) by (auto simp: m_def lbr_ok_def)
  define k where "k = m - num"
  have k: "m = num + k" using m(2) by (simp add: k_def)
  define v where "v = r_tag l AND mask num"
  define lbr' where "lbr' = l\<lparr>r_tag := drop_bit num (r_tag l), r_msb := r_msb l - int num\<rparr>"
  have g: "lbr_getbits lbr (int num) = Some (v, lbr')"
    by (simp add: lbr_getbits_def l(1) lbr_getbits_no_refill_def v_def lbr'_def)
  have nm: "nat (r_msb l) = num + k" using k by (simp add: m_def)
  have "lbr_val l = unat (r_tag l) + 2 ^ num * (2 ^ k * bytes_val (r_src l))"
    by (simp add: lbr_val_def nm power_add)
  then have val: "lbr_val lbr = unat (r_tag l) + 2 ^ num * (2 ^ k * bytes_val (r_src l))"
    by (simp only: l(3))
  have 1: "unat v = lbr_val lbr mod 2 ^ num"
    by (simp add: v_def unat_and_mask val)
  have nm': "nat (r_msb l - int num) = k" using k by (simp add: m(1))
  have "lbr_val lbr' = unat (r_tag l) div 2 ^ num + 2 ^ k * bytes_val (r_src l)"
    by (simp add: lbr'_def lbr_val_def unat_drop_bit_div nm')
  also have "\<dots> = lbr_val lbr div 2 ^ num" by (simp add: val)
  finally have 2: "lbr_val lbr' = lbr_val lbr div 2 ^ num" .
  have "unat (r_tag l) < 2 ^ k * 2 ^ num" using m(3) by (simp add: k power_add mult.commute)
  then have "unat (r_tag l) div 2 ^ num < 2 ^ k" by (simp add: less_mult_imp_div_less)
  then have 3: "lbr_ok lbr'"
    using l(2) m(2) by (simp add: lbr'_def lbr_ok_def unat_drop_bit_div nm') (simp add: m(1))
  have "lbr_bits lbr' = lbr_bits l - num"
    by (simp add: lbr'_def lbr_bits_def nm' nm)
  then have 4: "lbr_bits lbr' = lbr_bits lbr - num" by (simp only: l(4))
  from g 1 2 3 4 show thesis by (rule that)
qed

lemma lbr_getbits_cat:
  assumes "lbr_ok lbr" "lbr_val lbr = b + 2 ^ n * R" "b < 2 ^ n" "n \<le> 25" "n \<le> lbr_bits lbr"
  obtains lbr' where "lbr_getbits lbr (int n) = Some (of_nat b, lbr')"
    "lbr_ok lbr'" "lbr_val lbr' = R" "lbr_bits lbr' = lbr_bits lbr - n"
proof -
  from lbr_getbits_props [OF assms(1,4,5)]
  obtain v lbr' where g: "lbr_getbits lbr (int n) = Some (v, lbr')"
    "unat v = lbr_val lbr mod 2 ^ n" "lbr_val lbr' = lbr_val lbr div 2 ^ n"
    "lbr_ok lbr'" "lbr_bits lbr' = lbr_bits lbr - n" by blast
  have "unat v = b" using assms(3) by (simp add: g(2) assms(2))
  moreover have "v = word_of_nat (unat v)" by simp
  ultimately have v: "v = of_nat b" by simp
  have "lbr_val lbr' = R" using assms(3) by (simp add: g(3) assms(2))
  with g v show thesis by (intro that [of lbr']) simp_all
qed


section \<open>Logarithms\<close>

lemma log2_unique:
  fixes n :: nat
  assumes "2 ^ k \<le> n" "n < 2 * 2 ^ k" "2 ^ j \<le> n" "n < 2 * 2 ^ j"
  shows "j = k"
proof -
  have "(2::nat) ^ k < 2 ^ Suc j" using assms(1,4) by simp
  then have "k < Suc j" by (rule power_less_imp_less_exp [rotated]) simp
  moreover have "(2::nat) ^ j < 2 ^ Suc k" using assms(2,3) by simp
  then have "j < Suc k" by (rule power_less_imp_less_exp [rotated]) simp
  ultimately show ?thesis by simp
qed

lemma crush_log2_loop_props:
  "0 < n \<Longrightarrow> bits \<le> crush_log2_loop n bits
     \<and> 2 ^ (crush_log2_loop n bits - bits) \<le> n \<and> n < 2 * 2 ^ (crush_log2_loop n bits - bits)"
proof (induction n bits rule: crush_log2_loop.induct)
  case (1 n bits)
  show ?case
  proof (cases "n div 2 \<noteq> 0")
    case False
    then have "n = 1" using "1.prems" by presburger
    moreover have "crush_log2_loop n bits = bits"
      using False by (simp add: crush_log2_loop.simps [of n bits])
    ultimately show ?thesis by simp
  next
    case True
    then have pos: "0 < n div 2" by simp
    define r where "r = crush_log2_loop (n div 2) (bits + 1)"
    have r: "crush_log2_loop n bits = r"
      using True by (simp add: crush_log2_loop.simps [of n bits] r_def)
    from "1.IH" [OF True pos]
    have ih: "bits + 1 \<le> r" "2 ^ (r - (bits + 1)) \<le> n div 2" "n div 2 < 2 * 2 ^ (r - (bits + 1))"
      by (simp_all add: r_def)
    define d where "d = r - (bits + 1)"
    have d: "r - bits = Suc d" using ih(1) by (simp add: d_def)
    have "2 * 2 ^ d \<le> n" using ih(2) unfolding d_def [symmetric] by presburger
    moreover have "n < 2 * (2 * 2 ^ d)" using ih(3) unfolding d_def [symmetric] by presburger
    ultimately show ?thesis using ih(1) by (simp add: r d)
  qed
qed

lemma crush_log2_props:
  assumes "0 < n"
  shows "2 ^ crush_log2 n \<le> n" "n < 2 * 2 ^ crush_log2 n"
  using crush_log2_loop_props [OF assms, of 0] by (simp_all add: crush_log2_def)

lemma crush_log2_eq:
  assumes "2 ^ k \<le> n" "n < 2 * 2 ^ k"
  shows "crush_log2 n = k"
proof -
  have "0 < n" using assms(1) by (cases n) simp_all
  from crush_log2_props [OF this] assms show ?thesis by (intro log2_unique [of k n])
qed

lemma crush_log2_ge:
  assumes "2 ^ a \<le> n"
  shows "a \<le> crush_log2 n"
proof -
  have pos: "0 < n" using assms(1) by (cases n) simp_all
  note p = crush_log2_props [OF pos]
  have "(2::nat) ^ a < 2 ^ Suc (crush_log2 n)" using assms(1) p(2) by simp
  then have "a < Suc (crush_log2 n)" by (rule power_less_imp_less_exp [rotated]) simp
  then show "a \<le> crush_log2 n" by simp
qed

lemma crush_log2_less:
  assumes "0 < n" "n < 2 ^ b"
  shows "crush_log2 n < b"
proof -
  note p = crush_log2_props [OF assms(1)]
  have "(2::nat) ^ crush_log2 n < 2 ^ b" by (rule le_less_trans [OF p(1) assms(2)])
  then show "crush_log2 n < b" by (rule power_less_imp_less_exp [rotated]) simp
qed

lemma leparse_mlog_props:
  "m \<le> leparse_mlog offs m \<and> offs < 2 * 2 ^ leparse_mlog offs m
     \<and> (m < leparse_mlog offs m \<longrightarrow> 2 ^ leparse_mlog offs m \<le> offs)"
proof (induction offs m rule: leparse_mlog.induct)
  case (1 offs mlog)
  show ?case
  proof (cases "offs \<ge> 2 * 2 ^ mlog")
    case False
    then show ?thesis by (simp add: leparse_mlog.simps [of offs mlog])
  next
    case True
    have r: "leparse_mlog offs mlog = leparse_mlog offs (mlog + 1)"
      using True by (simp add: leparse_mlog.simps [of offs mlog])
    from "1.IH" [OF True] True show ?thesis
      unfolding r by (cases "mlog + 1 < leparse_mlog offs (mlog + 1)") auto
  qed
qed

lemma leparse_mlog_eq:
  "leparse_mlog offs (W_BITS - NUM_SLOTS) =
     (if offs \<ge> 2 * 2 ^ (W_BITS - NUM_SLOTS) then crush_log2 offs else W_BITS - NUM_SLOTS)"
proof (cases "offs \<ge> 2 * 2 ^ (W_BITS - NUM_SLOTS)")
  case False
  then show ?thesis by (simp add: leparse_mlog.simps [of offs "W_BITS - NUM_SLOTS"])
next
  case True
  define r where "r = leparse_mlog offs (W_BITS - NUM_SLOTS)"
  have p: "W_BITS - NUM_SLOTS \<le> r" "offs < 2 * 2 ^ r" "W_BITS - NUM_SLOTS < r \<longrightarrow> 2 ^ r \<le> offs"
    using leparse_mlog_props [of "W_BITS - NUM_SLOTS" offs] by (simp_all add: r_def)
  have "r \<noteq> W_BITS - NUM_SLOTS" using True p(2) by auto
  with p have "2 ^ r \<le> offs" by simp
  from crush_log2_eq [OF this p(2)] True show ?thesis by (simp add: r_def)
qed


section \<open>What the writer emits for a token\<close>

lemma wrap_sub:
  fixes a b :: nat
  assumes "b \<le> a" "a < 2 ^ 64"
  shows "(a + 2 ^ 64 - b) mod 2 ^ 64 = a - b"
proof -
  have "a + 2 ^ 64 - b = (a - b) + 2 ^ 64" using assms(1) by simp
  moreover have "a - b < 2 ^ 64" using assms(2) by simp
  ultimately show ?thesis by (simp only: mod_add_self2 mod_less)
qed

definition len_code :: "nat \<Rightarrow> nat \<times> nat" where
  "len_code l =
     (if l < 4 then (1 + 2 * l, 3)
      else if l < 8 then (2 + 4 * (l - 4), 4)
      else if l < 12 then (4 + 8 * (l - 8), 5)
      else if l < 20 then (8 + 16 * (l - 12), 7)
      else if l < 52 then (16 + 32 * (l - 20), 10)
      else (32 * (l - 52), 14))"

definition offs_code :: "nat \<Rightarrow> nat \<times> nat" where
  "offs_code o' =
     (if o' < 64 then (16 * o', 10)
      else (crush_log2 o' - 5 + 16 * (o' - 2 ^ crush_log2 o'), 4 + crush_log2 o'))"

definition wstate :: "lsb_bitwriter \<Rightarrow> nat \<Rightarrow> nat \<Rightarrow> bool" where
  "wstate lbw V n \<longleftrightarrow> lbw_ok lbw \<and> lbw_val lbw = V \<and> lbw_bits lbw = int n"

lemma wstate_init: "wstate lbw_init 0 0"
  by (simp add: wstate_def lbw_init_def lbw_ok_def lbw_val_def lbw_bits_def)

lemma wstate_putbits:
  assumes "wstate lbw V n" "num \<le> 24" "b < 2 ^ num"
  shows "wstate (lbw_putbits lbw (of_nat b) (int num)) (V + 2 ^ n * b) (n + num)"
proof -
  have "(2::nat) ^ num \<le> 2 ^ 32" using assms(2) by (intro power_increasing) simp_all
  with assms(3) have "b < 2 ^ 32" by linarith
  then have u: "unat (of_nat b :: uint32) = b" by (simp add: unat_of_nat)
  have ok: "lbw_ok lbw" using assms(1) by (simp add: wstate_def)
  have "unat (of_nat b :: uint32) < 2 ^ num" using assms(3) by (simp only: u)
  from lbw_putbits_props [OF ok assms(2) this] assms(1) show ?thesis
    by (simp add: wstate_def lbw_bits_putbits u)
qed

lemma wstate_putbits_word:
  assumes "wstate lbw V n" "num \<le> 24" "unat w < 2 ^ num"
  shows "wstate (lbw_putbits lbw w (int num)) (V + 2 ^ n * unat w) (n + num)"
  using wstate_putbits [OF assms(1,2), of "unat w"] assms(3) by simp

lemma wstate_emit_literal:
  assumes "wstate lbw V n"
  shows "wstate (emit_literal lbw b) (V + 2 ^ n * (2 * unat b)) (n + 9)"
proof -
  have b: "unat b < 256" using unsigned_less [of b] by simp
  have "unat (push_bit 1 (ucast b) :: uint32) = 2 * unat b"
    using unat_or_push_bit(1) [of "0 :: uint32" 1 "ucast b" 8] b by (simp add: unat_ucast_byte)
  moreover from this b have "unat (push_bit 1 (ucast b) :: uint32) < 2 ^ 9" by simp
  ultimately show ?thesis
    using wstate_putbits_word [OF assms, of 9 "push_bit 1 (ucast b)"] by (simp add: emit_literal_def)
qed

lemma wstate_len_bucket:
  assumes "wstate lbw V n" "k \<le> 5" "s < 2 ^ k" "e \<le> 9" "x < 2 ^ e"
    "sw = of_nat s" "xw = of_nat x" "ki = int k" "ei = int e"
    "V' = V + 2 ^ n * (1 + 2 * (s + 2 ^ k * x))" "n' = n + (1 + (k + e))"
  shows "wstate (lbw_putbits (lbw_putbits (lbw_putbits lbw 1 1) sw ki) xw ei) V' n'"
proof -
  have t: "wstate (lbw_putbits lbw 1 1) (V + 2 ^ n) (n + 1)"
    using wstate_putbits [OF assms(1), of 1 1] by simp
  have "wstate (lbw_putbits (lbw_putbits (lbw_putbits lbw 1 1) (of_nat s) (int k)) (of_nat x) (int e))
           (V + 2 ^ n + 2 ^ (n + 1) * s + 2 ^ (n + 1 + k) * x) (n + 1 + k + e)"
    using assms(2-5) by (intro wstate_putbits [OF wstate_putbits [OF t]]) simp_all
  moreover have "V + 2 ^ n + 2 ^ (n + 1) * s + 2 ^ (n + 1 + k) * x = V'"
    by (simp add: assms(10) power_add algebra_simps)
  moreover have "n + 1 + k + e = n'" by (simp add: assms(11))
  ultimately show ?thesis by (simp only: assms(6-9))
qed

lemma wstate_emit_match_len:
  assumes "wstate lbw V n" "MIN_MATCH \<le> len" "len \<le> MAX_MATCH"
  shows "wstate (emit_match_len lbw len)
           (V + 2 ^ n * (1 + 2 * fst (len_code (len - MIN_MATCH)))) (n + (1 + snd (len_code (len - MIN_MATCH))))"
proof -
  define l where "l = len - MIN_MATCH"
  have "len < 2 ^ 64" using assms(3) by (simp add: crush_consts)
  from wrap_sub [OF assms(2) this] assms(3)
  have l: "(len + 2 ^ 64 - MIN_MATCH) mod 2 ^ 64 = l" "l < 564"
    by (simp_all add: l_def MAX_MATCH_def F_LEN_def E_LEN_def D_LEN_def C_LEN_def B_LEN_def
          A_LEN_def A_BITS_def B_BITS_def C_BITS_def D_BITS_def E_BITS_def F_BITS_def MIN_MATCH_def)
  note b = wstate_len_bucket [OF assms(1), where V' = "V + 2 ^ n * (1 + 2 * fst (len_code l))"
      and n' = "n + (1 + snd (len_code l))"]
  consider "l < 4" | "4 \<le> l" "l < 8" | "8 \<le> l" "l < 12" | "12 \<le> l" "l < 20"
    | "20 \<le> l" "l < 52" | "52 \<le> l" by linarith
  then have "wstate (emit_match_len lbw len)
           (V + 2 ^ n * (1 + 2 * fst (len_code l))) (n + (1 + snd (len_code l)))"
  proof cases
    case 1
    then have "emit_match_len lbw len = lbw_putbits (lbw_putbits (lbw_putbits lbw 1 1) 1 1) (of_nat l) 2"
      unfolding emit_match_len_def Let_def l(1) by (simp add: crush_consts)
    moreover have "wstate (lbw_putbits (lbw_putbits (lbw_putbits lbw 1 1) 1 1) (of_nat l) 2)
           (V + 2 ^ n * (1 + 2 * fst (len_code l))) (n + (1 + snd (len_code l)))"
      by (rule b [where k = 1 and s = 1 and e = 2 and x = l]) (use 1 in \<open>simp_all add: len_code_def\<close>)
    ultimately show ?thesis by (simp only:)
  next
    case 2
    then have "emit_match_len lbw len = lbw_putbits (lbw_putbits (lbw_putbits lbw 1 1) 2 2) (of_nat (l - 4)) 2"
      unfolding emit_match_len_def Let_def l(1) by (simp add: crush_consts)
    moreover have "wstate (lbw_putbits (lbw_putbits (lbw_putbits lbw 1 1) 2 2) (of_nat (l - 4)) 2)
           (V + 2 ^ n * (1 + 2 * fst (len_code l))) (n + (1 + snd (len_code l)))"
      by (rule b [where k = 2 and s = 2 and e = 2 and x = "l - 4"]) (use 2 in \<open>simp_all add: len_code_def\<close>)
    ultimately show ?thesis by (simp only:)
  next
    case 3
    then have "emit_match_len lbw len = lbw_putbits (lbw_putbits (lbw_putbits lbw 1 1) 4 3) (of_nat (l - 8)) 2"
      unfolding emit_match_len_def Let_def l(1) by (simp add: crush_consts)
    moreover have "wstate (lbw_putbits (lbw_putbits (lbw_putbits lbw 1 1) 4 3) (of_nat (l - 8)) 2)
           (V + 2 ^ n * (1 + 2 * fst (len_code l))) (n + (1 + snd (len_code l)))"
      by (rule b [where k = 3 and s = 4 and e = 2 and x = "l - 8"]) (use 3 in \<open>simp_all add: len_code_def\<close>)
    ultimately show ?thesis by (simp only:)
  next
    case 4
    then have "emit_match_len lbw len = lbw_putbits (lbw_putbits (lbw_putbits lbw 1 1) 8 4) (of_nat (l - 12)) 3"
      unfolding emit_match_len_def Let_def l(1) by (simp add: crush_consts)
    moreover have "wstate (lbw_putbits (lbw_putbits (lbw_putbits lbw 1 1) 8 4) (of_nat (l - 12)) 3)
           (V + 2 ^ n * (1 + 2 * fst (len_code l))) (n + (1 + snd (len_code l)))"
      by (rule b [where k = 4 and s = 8 and e = 3 and x = "l - 12"]) (use 4 in \<open>simp_all add: len_code_def\<close>)
    ultimately show ?thesis by (simp only:)
  next
    case 5
    then have "emit_match_len lbw len = lbw_putbits (lbw_putbits (lbw_putbits lbw 1 1) 16 5) (of_nat (l - 20)) 5"
      unfolding emit_match_len_def Let_def l(1) by (simp add: crush_consts)
    moreover have "wstate (lbw_putbits (lbw_putbits (lbw_putbits lbw 1 1) 16 5) (of_nat (l - 20)) 5)
           (V + 2 ^ n * (1 + 2 * fst (len_code l))) (n + (1 + snd (len_code l)))"
      by (rule b [where k = 5 and s = 16 and e = 5 and x = "l - 20"]) (use 5 in \<open>simp_all add: len_code_def\<close>)
    ultimately show ?thesis by (simp only:)
  next
    case 6
    then have "emit_match_len lbw len = lbw_putbits (lbw_putbits (lbw_putbits lbw 1 1) 0 5) (of_nat (l - 52)) 9"
      unfolding emit_match_len_def Let_def l(1) by (simp add: crush_consts)
    moreover have "wstate (lbw_putbits (lbw_putbits (lbw_putbits lbw 1 1) 0 5) (of_nat (l - 52)) 9)
           (V + 2 ^ n * (1 + 2 * fst (len_code l))) (n + (1 + snd (len_code l)))"
      by (rule b [where k = 5 and s = 0 and e = 9 and x = "l - 52"]) (use 6 l(2) in \<open>simp_all add: len_code_def\<close>)
    ultimately show ?thesis by (simp only:)
  qed
  then show ?thesis by (simp only: l_def)
qed

lemma wstate_offs_direct:
  assumes "wstate lbw V n" "o' < 64"
  shows "wstate (lbw_putbits (lbw_putbits lbw 0 4) (of_nat o') 6) (V + 2 ^ n * (16 * o')) (n + 10)"
proof -
  have "wstate (lbw_putbits (lbw_putbits lbw (of_nat 0) (int 4)) (of_nat o') (int 6))
          (V + 2 ^ n * 0 + 2 ^ (n + 4) * o') (n + 4 + 6)"
    using assms(2) by (intro wstate_putbits [OF wstate_putbits [OF assms(1)]]) simp_all
  then show ?thesis by (simp add: power_add algebra_simps)
qed

lemma wstate_offs_slot:
  assumes "wstate lbw V n" "64 \<le> o'" "o' < 2 ^ 21" "m = crush_log2 o'"
  shows "wstate (lbw_putbits (lbw_putbits lbw (of_nat (m - 5)) 4) (of_nat ((o' + 2 ^ 64 - 2 ^ m) mod 2 ^ 64)) (int m))
           (V + 2 ^ n * (m - 5 + 16 * (o' - 2 ^ m))) (n + (4 + m))"
proof -
  have pos: "0 < o'" using assms(2) by simp
  have m: "6 \<le> m" "m < 21"
    using crush_log2_ge [of 6 o'] crush_log2_less [OF pos assms(3)] assms(2) by (simp_all add: assms(4))
  have p: "2 ^ m \<le> o'" "o' < 2 * 2 ^ m"
    using crush_log2_props [OF pos] by (simp_all add: assms(4))
  have "o' < 2 ^ 64" using assms(3) by simp
  from wrap_sub [OF p(1) this] have w: "(o' + 2 ^ 64 - 2 ^ m) mod 2 ^ 64 = o' - 2 ^ m" .
  have "wstate (lbw_putbits (lbw_putbits lbw (of_nat (m - 5)) (int 4)) (of_nat (o' - 2 ^ m)) (int m))
          (V + 2 ^ n * (m - 5) + 2 ^ (n + 4) * (o' - 2 ^ m)) (n + 4 + m)"
    using m p by (intro wstate_putbits [OF wstate_putbits [OF assms(1)]]) simp_all
  moreover have "V + 2 ^ n * (m - 5) + 2 ^ (n + 4) * (o' - 2 ^ m) = V + 2 ^ n * (m - 5 + 16 * (o' - 2 ^ m))"
    by (simp add: power_add add_mult_distrib2)
  ultimately show ?thesis unfolding w by (simp add: add.assoc)
qed

lemma wstate_leparse_emit_offs:
  assumes "wstate lbw V n" "o' < W_SIZE"
  shows "wstate (leparse_emit_offs lbw o') (V + 2 ^ n * fst (offs_code o')) (n + snd (offs_code o'))"
proof (cases "o' < 64")
  case True
  then have "leparse_emit_offs lbw o' = lbw_putbits (lbw_putbits lbw 0 4) (of_nat o') 6"
    unfolding leparse_emit_offs_def leparse_mlog_eq Let_def by (simp add: crush_consts)
  with wstate_offs_direct [OF assms(1) True] True show ?thesis by (simp add: offs_code_def)
next
  case False
  then have "leparse_emit_offs lbw o' = lbw_putbits (lbw_putbits lbw (of_nat (crush_log2 o' - 5)) 4)
      (of_nat ((o' + 2 ^ 64 - 2 ^ crush_log2 o') mod 2 ^ 64)) (int (crush_log2 o'))"
    using crush_log2_ge [of 6 o']
    unfolding leparse_emit_offs_def leparse_mlog_eq Let_def by (simp add: crush_consts)
  with wstate_offs_slot [OF assms(1), of o' "crush_log2 o'"] False assms(2) show ?thesis
    by (simp add: offs_code_def crush_consts)
qed

lemma wstate_btparse_emit_offs:
  assumes "wstate lbw V n" "o' < W_SIZE"
  shows "wstate (btparse_emit_offs lbw o') (V + 2 ^ n * fst (offs_code o')) (n + snd (offs_code o'))"
proof (cases "o' < 64")
  case True
  then have "btparse_emit_offs lbw o' = lbw_putbits (lbw_putbits lbw 0 4) (of_nat o') 6"
    unfolding btparse_emit_offs_def Let_def by (simp add: crush_consts)
  with wstate_offs_direct [OF assms(1) True] True show ?thesis by (simp add: offs_code_def)
next
  case False
  then have "btparse_emit_offs lbw o' = lbw_putbits (lbw_putbits lbw (of_nat (crush_log2 o' - 5)) 4)
      (of_nat ((o' + 2 ^ 64 - 2 ^ crush_log2 o') mod 2 ^ 64)) (int (crush_log2 o'))"
    unfolding btparse_emit_offs_def Let_def by (simp add: crush_consts)
  with wstate_offs_slot [OF assms(1), of o' "crush_log2 o'"] False assms(2) show ?thesis
    by (simp add: offs_code_def crush_consts)
qed

definition match_code :: "nat \<Rightarrow> nat \<Rightarrow> nat \<times> nat" where
  \<comment> \<open>the number and the width of the code of a match of \<open>len\<close> bytes at distance \<open>offs\<close>\<close>
  "match_code len offs =
     (1 + 2 * (fst (len_code (len - MIN_MATCH))
               + 2 ^ snd (len_code (len - MIN_MATCH)) * fst (offs_code (offs - 1))),
      1 + snd (len_code (len - MIN_MATCH)) + snd (offs_code (offs - 1)))"

lemma wstate_emit_match:
  assumes "wstate lbw V n" "MIN_MATCH \<le> len" "len \<le> MAX_MATCH" "1 \<le> offs" "offs \<le> W_SIZE"
  shows "wstate (leparse_emit_match lbw (offs - 1) len)
           (V + 2 ^ n * fst (match_code len offs)) (n + snd (match_code len offs))"
    and "wstate (btparse_emit_match lbw (offs - 1) len)
           (V + 2 ^ n * fst (match_code len offs)) (n + snd (match_code len offs))"
proof -
  have o: "offs - 1 < W_SIZE" using assms(4,5) by simp
  note a = wstate_emit_match_len [OF assms(1-3)]
  have e: "V + 2 ^ n * (1 + 2 * fst (len_code (len - MIN_MATCH)))
             + 2 ^ (n + (1 + snd (len_code (len - MIN_MATCH)))) * fst (offs_code (offs - 1))
           = V + 2 ^ n * fst (match_code len offs)"
    by (simp add: match_code_def power_add algebra_simps)
  have f: "n + (1 + snd (len_code (len - MIN_MATCH))) + snd (offs_code (offs - 1))
           = n + snd (match_code len offs)"
    by (simp add: match_code_def)
  from wstate_leparse_emit_offs [OF a o]
  show "wstate (leparse_emit_match lbw (offs - 1) len)
           (V + 2 ^ n * fst (match_code len offs)) (n + snd (match_code len offs))"
    unfolding leparse_emit_match_def e f .
  from wstate_btparse_emit_offs [OF a o]
  show "wstate (btparse_emit_match lbw (offs - 1) len)
           (V + 2 ^ n * fst (match_code len offs)) (n + snd (match_code len offs))"
    unfolding btparse_emit_match_def e f .
qed

lemma match_code_cost:
  assumes "MIN_MATCH \<le> len" "len \<le> MAX_MATCH"
  shows "snd (match_code len offs) = crush_match_cost (offs - 1) len"
proof -
  have "len < 2 ^ 64" using assms(2) by (simp add: crush_consts)
  from wrap_sub [OF assms(1) this]
  have l: "(len + 2 ^ 64 - MIN_MATCH) mod 2 ^ 64 = len - MIN_MATCH" .
  show ?thesis
    unfolding crush_match_cost_def Let_def l
    by (simp add: match_code_def len_code_def offs_code_def crush_consts)
qed


section \<open>What the reader decodes from a token\<close>

definition rstate :: "lsb_bitreader \<Rightarrow> nat \<Rightarrow> nat \<Rightarrow> bool" where
  "rstate lbr V n \<longleftrightarrow> lbr_ok lbr \<and> lbr_val lbr = V \<and> lbr_bits lbr = n"

lemma rstate_init: "rstate (lbr_init s) (bytes_val s) (8 * length s)"
  by (simp add: rstate_def)

lemma rstate_getbits:
  assumes "rstate lbr V n" "V = b + 2 ^ k * R" "b < 2 ^ k" "k \<le> 25" "k \<le> n" "ki = int k"
    "n' = n - k"
  obtains lbr' where "lbr_getbits lbr ki = Some (of_nat b, lbr')" "rstate lbr' R n'"
proof -
  have a: "lbr_ok lbr" "lbr_val lbr = b + 2 ^ k * R" "k \<le> lbr_bits lbr"
    using assms(1,2,5) by (simp_all add: rstate_def)
  from lbr_getbits_cat [OF a(1,2) assms(3,4) a(3)]
  obtain lbr' where "lbr_getbits lbr (int k) = Some (of_nat b, lbr')"
    "lbr_ok lbr'" "lbr_val lbr' = R" "lbr_bits lbr' = lbr_bits lbr - k" by blast
  with assms(1,6,7) show thesis by (intro that [of lbr']) (simp_all add: rstate_def)
qed

lemma read_zero:
  assumes "rstate lbr V n" "V = 2 * R" "1 \<le> n" "n' = n - 1"
  obtains lbr' where "lbr_getbits lbr 1 = Some (0, lbr')" "rstate lbr' R n'"
  using rstate_getbits [OF assms(1), of 0 1 R 1 n'] assms(2,3,4) by auto

lemma read_one:
  assumes "rstate lbr V n" "V = 1 + 2 * R" "1 \<le> n" "n' = n - 1"
  obtains lbr' where "lbr_getbits lbr 1 = Some (1, lbr')" "rstate lbr' R n'"
  using rstate_getbits [OF assms(1), of 1 1 R 1 n'] assms(2,3,4) by auto

lemma unat_of_nat32: "x < 2 ^ k \<Longrightarrow> k \<le> 32 \<Longrightarrow> unat (of_nat x :: uint32) = x"
proof -
  assume "x < 2 ^ k" "k \<le> 32"
  moreover from this have "(2::nat) ^ k \<le> 2 ^ 32" by (intro power_increasing) simp_all
  ultimately have "x < 2 ^ 32" by linarith
  then show ?thesis by (simp add: unat_of_nat)
qed

lemma depack_match_len_dec:
  assumes rs: "rstate lbr V n" and V: "V = fst (len_code l) + 2 ^ snd (len_code l) * R"
    and l: "l < F_LEN" and n: "snd (len_code l) \<le> n"
  shows "\<exists>lbr'. depack_match_len lbr = Some (l, lbr') \<and> rstate lbr' R (n - snd (len_code l))"
proof -
  consider "l < 4" | "4 \<le> l" "l < 8" | "8 \<le> l" "l < 12" | "12 \<le> l" "l < 20"
    | "20 \<le> l" "l < 52" | "52 \<le> l" by linarith
  then show ?thesis
  proof cases
    case 1
    define k where "k = l - 0"
    have lk: "l = k + 0" "k < 4" using 1 by (simp_all add: k_def)
    have c: "len_code l = (1 + 2 * k, 3)" using 1 by (simp add: len_code_def k_def)
    obtain r1 where g1: "lbr_getbits lbr 1 = Some (1, r1)" "rstate r1 (k + 2 ^ 2 * R) (n - 1)"
      by (rule read_one [OF rs, where n' = "n - 1" and R = "k + 2 ^ 2 * R"]) (use V n c in simp_all)
    obtain r2 where gx: "lbr_getbits r1 (int A_BITS) = Some (of_nat k, r2)" "rstate r2 R (n - 3)"
      by (rule rstate_getbits [OF g1(2), where n' = "n - 3" and b = k and k = 2 and R = R])
         (use lk n c in \<open>simp_all add: A_BITS_def\<close>)
    have "unat (of_nat k :: uint32) = k" using lk by (intro unat_of_nat32 [of _ 2]) simp_all
    with g1 gx c lk show ?thesis by (simp add: depack_match_len_def crush_consts)
  next
    case 2
    define k where "k = l - 4"
    have lk: "l = k + 4" "k < 4" using 2 by (simp_all add: k_def)
    have c: "len_code l = (2 + 4 * k, 4)" using 2 by (simp add: len_code_def k_def)
    obtain r1 where g1: "lbr_getbits lbr 1 = Some (0, r1)" "rstate r1 (1 + 2 * (k + 2 ^ 2 * R)) (n - 1)"
      by (rule read_zero [OF rs, where n' = "n - 1" and R = "1 + 2 * (k + 2 ^ 2 * R)"]) (use V n c in simp_all)
    obtain r2 where g2: "lbr_getbits r1 1 = Some (1, r2)" "rstate r2 (k + 2 ^ 2 * R) (n - 2)"
      by (rule read_one [OF g1(2), where n' = "n - 2" and R = "k + 2 ^ 2 * R"]) (use n c in simp_all)
    obtain r3 where gx: "lbr_getbits r2 (int B_BITS) = Some (of_nat k, r3)" "rstate r3 R (n - 4)"
      by (rule rstate_getbits [OF g2(2), where n' = "n - 4" and b = k and k = 2 and R = R])
         (use lk n c in \<open>simp_all add: B_BITS_def\<close>)
    have "unat (of_nat k :: uint32) = k" using lk by (intro unat_of_nat32 [of _ 2]) simp_all
    with g1 g2 gx c lk show ?thesis by (simp add: depack_match_len_def crush_consts)
  next
    case 3
    define k where "k = l - 8"
    have lk: "l = k + 8" "k < 4" using 3 by (simp_all add: k_def)
    have c: "len_code l = (4 + 8 * k, 5)" using 3 by (simp add: len_code_def k_def)
    obtain r1 where g1: "lbr_getbits lbr 1 = Some (0, r1)" "rstate r1 (2 * (1 + 2 * (k + 2 ^ 2 * R))) (n - 1)"
      by (rule read_zero [OF rs, where n' = "n - 1" and R = "2 * (1 + 2 * (k + 2 ^ 2 * R))"]) (use V n c in simp_all)
    obtain r2 where g2: "lbr_getbits r1 1 = Some (0, r2)" "rstate r2 (1 + 2 * (k + 2 ^ 2 * R)) (n - 2)"
      by (rule read_zero [OF g1(2), where n' = "n - 2" and R = "1 + 2 * (k + 2 ^ 2 * R)"]) (use n c in simp_all)
    obtain r3 where g3: "lbr_getbits r2 1 = Some (1, r3)" "rstate r3 (k + 2 ^ 2 * R) (n - 3)"
      by (rule read_one [OF g2(2), where n' = "n - 3" and R = "k + 2 ^ 2 * R"]) (use n c in simp_all)
    obtain r4 where gx: "lbr_getbits r3 (int C_BITS) = Some (of_nat k, r4)" "rstate r4 R (n - 5)"
      by (rule rstate_getbits [OF g3(2), where n' = "n - 5" and b = k and k = 2 and R = R])
         (use lk n c in \<open>simp_all add: C_BITS_def\<close>)
    have "unat (of_nat k :: uint32) = k" using lk by (intro unat_of_nat32 [of _ 2]) simp_all
    with g1 g2 g3 gx c lk show ?thesis by (simp add: depack_match_len_def crush_consts)
  next
    case 4
    define k where "k = l - 12"
    have lk: "l = k + 12" "k < 8" using 4 by (simp_all add: k_def)
    have c: "len_code l = (8 + 16 * k, 7)" using 4 by (simp add: len_code_def k_def)
    obtain r1 where g1: "lbr_getbits lbr 1 = Some (0, r1)" "rstate r1 (2 * (2 * (1 + 2 * (k + 2 ^ 3 * R)))) (n - 1)"
      by (rule read_zero [OF rs, where n' = "n - 1" and R = "2 * (2 * (1 + 2 * (k + 2 ^ 3 * R)))"]) (use V n c in simp_all)
    obtain r2 where g2: "lbr_getbits r1 1 = Some (0, r2)" "rstate r2 (2 * (1 + 2 * (k + 2 ^ 3 * R))) (n - 2)"
      by (rule read_zero [OF g1(2), where n' = "n - 2" and R = "2 * (1 + 2 * (k + 2 ^ 3 * R))"]) (use n c in simp_all)
    obtain r3 where g3: "lbr_getbits r2 1 = Some (0, r3)" "rstate r3 (1 + 2 * (k + 2 ^ 3 * R)) (n - 3)"
      by (rule read_zero [OF g2(2), where n' = "n - 3" and R = "1 + 2 * (k + 2 ^ 3 * R)"]) (use n c in simp_all)
    obtain r4 where g4: "lbr_getbits r3 1 = Some (1, r4)" "rstate r4 (k + 2 ^ 3 * R) (n - 4)"
      by (rule read_one [OF g3(2), where n' = "n - 4" and R = "k + 2 ^ 3 * R"]) (use n c in simp_all)
    obtain r5 where gx: "lbr_getbits r4 (int D_BITS) = Some (of_nat k, r5)" "rstate r5 R (n - 7)"
      by (rule rstate_getbits [OF g4(2), where n' = "n - 7" and b = k and k = 3 and R = R])
         (use lk n c in \<open>simp_all add: D_BITS_def\<close>)
    have "unat (of_nat k :: uint32) = k" using lk by (intro unat_of_nat32 [of _ 3]) simp_all
    with g1 g2 g3 g4 gx c lk show ?thesis by (simp add: depack_match_len_def crush_consts)
  next
    case 5
    define k where "k = l - 20"
    have lk: "l = k + 20" "k < 32" using 5 by (simp_all add: k_def)
    have c: "len_code l = (16 + 32 * k, 10)" using 5 by (simp add: len_code_def k_def)
    obtain r1 where g1: "lbr_getbits lbr 1 = Some (0, r1)" "rstate r1 (2 * (2 * (2 * (1 + 2 * (k + 2 ^ 5 * R))))) (n - 1)"
      by (rule read_zero [OF rs, where n' = "n - 1" and R = "2 * (2 * (2 * (1 + 2 * (k + 2 ^ 5 * R))))"]) (use V n c in simp_all)
    obtain r2 where g2: "lbr_getbits r1 1 = Some (0, r2)" "rstate r2 (2 * (2 * (1 + 2 * (k + 2 ^ 5 * R)))) (n - 2)"
      by (rule read_zero [OF g1(2), where n' = "n - 2" and R = "2 * (2 * (1 + 2 * (k + 2 ^ 5 * R)))"]) (use n c in simp_all)
    obtain r3 where g3: "lbr_getbits r2 1 = Some (0, r3)" "rstate r3 (2 * (1 + 2 * (k + 2 ^ 5 * R))) (n - 3)"
      by (rule read_zero [OF g2(2), where n' = "n - 3" and R = "2 * (1 + 2 * (k + 2 ^ 5 * R))"]) (use n c in simp_all)
    obtain r4 where g4: "lbr_getbits r3 1 = Some (0, r4)" "rstate r4 (1 + 2 * (k + 2 ^ 5 * R)) (n - 4)"
      by (rule read_zero [OF g3(2), where n' = "n - 4" and R = "1 + 2 * (k + 2 ^ 5 * R)"]) (use n c in simp_all)
    obtain r5 where g5: "lbr_getbits r4 1 = Some (1, r5)" "rstate r5 (k + 2 ^ 5 * R) (n - 5)"
      by (rule read_one [OF g4(2), where n' = "n - 5" and R = "k + 2 ^ 5 * R"]) (use n c in simp_all)
    obtain r6 where gx: "lbr_getbits r5 (int E_BITS) = Some (of_nat k, r6)" "rstate r6 R (n - 10)"
      by (rule rstate_getbits [OF g5(2), where n' = "n - 10" and b = k and k = 5 and R = R])
         (use lk n c in \<open>simp_all add: E_BITS_def\<close>)
    have "unat (of_nat k :: uint32) = k" using lk by (intro unat_of_nat32 [of _ 5]) simp_all
    with g1 g2 g3 g4 g5 gx c lk show ?thesis by (simp add: depack_match_len_def crush_consts)
  next
    case 6
    define k where "k = l - 52"
    have lk: "l = k + 52" "k < 512" using 6 l by (simp_all add: k_def crush_consts)
    have c: "len_code l = (32 * k, 14)" using 6 by (simp add: len_code_def k_def)
    obtain r1 where g1: "lbr_getbits lbr 1 = Some (0, r1)" "rstate r1 (2 * (2 * (2 * (2 * (k + 2 ^ 9 * R))))) (n - 1)"
      by (rule read_zero [OF rs, where n' = "n - 1" and R = "2 * (2 * (2 * (2 * (k + 2 ^ 9 * R))))"]) (use V n c in simp_all)
    obtain r2 where g2: "lbr_getbits r1 1 = Some (0, r2)" "rstate r2 (2 * (2 * (2 * (k + 2 ^ 9 * R)))) (n - 2)"
      by (rule read_zero [OF g1(2), where n' = "n - 2" and R = "2 * (2 * (2 * (k + 2 ^ 9 * R)))"]) (use n c in simp_all)
    obtain r3 where g3: "lbr_getbits r2 1 = Some (0, r3)" "rstate r3 (2 * (2 * (k + 2 ^ 9 * R))) (n - 3)"
      by (rule read_zero [OF g2(2), where n' = "n - 3" and R = "2 * (2 * (k + 2 ^ 9 * R))"]) (use n c in simp_all)
    obtain r4 where g4: "lbr_getbits r3 1 = Some (0, r4)" "rstate r4 (2 * (k + 2 ^ 9 * R)) (n - 4)"
      by (rule read_zero [OF g3(2), where n' = "n - 4" and R = "2 * (k + 2 ^ 9 * R)"]) (use n c in simp_all)
    obtain r5 where g5: "lbr_getbits r4 1 = Some (0, r5)" "rstate r5 (k + 2 ^ 9 * R) (n - 5)"
      by (rule read_zero [OF g4(2), where n' = "n - 5" and R = "k + 2 ^ 9 * R"]) (use n c in simp_all)
    obtain r6 where gx: "lbr_getbits r5 (int F_BITS) = Some (of_nat k, r6)" "rstate r6 R (n - 14)"
      by (rule rstate_getbits [OF g5(2), where n' = "n - 14" and b = k and k = 9 and R = R])
         (use lk n c in \<open>simp_all add: F_BITS_def\<close>)
    have "unat (of_nat k :: uint32) = k" using lk by (intro unat_of_nat32 [of _ 9]) simp_all
    with g1 g2 g3 g4 g5 gx c lk show ?thesis by (simp add: depack_match_len_def crush_consts)
  qed
qed

lemma depack_match_offs_dec:
  assumes rs: "rstate lbr V n" and V: "V = fst (offs_code o') + 2 ^ snd (offs_code o') * R"
    and o: "o' < W_SIZE" and n: "snd (offs_code o') \<le> n"
  shows "\<exists>lbr'. depack_match_offs lbr = Some (o', lbr') \<and> rstate lbr' R (n - snd (offs_code o'))"
proof (cases "o' < 64")
  case True
  then have c: "offs_code o' = (16 * o', 10)" by (simp add: offs_code_def)
  obtain r1 where g1: "lbr_getbits lbr (int SLOT_BITS) = Some (of_nat 0, r1)" "rstate r1 (o' + 2 ^ 6 * R) (n - 4)"
    by (rule rstate_getbits [OF rs, where n' = "n - 4" and b = 0 and k = 4 and R = "o' + 2 ^ 6 * R"])
       (use V n c in \<open>simp_all add: SLOT_BITS_def\<close>)
  obtain r2 where g2: "lbr_getbits r1 (int (W_BITS - (NUM_SLOTS - 1))) = Some (of_nat o', r2)"
      "rstate r2 R (n - 10)"
    by (rule rstate_getbits [OF g1(2), where n' = "n - 10" and b = o' and k = 6 and R = R])
       (use True n c in \<open>simp_all add: crush_consts\<close>)
  have "unat (of_nat o' :: uint32) = o'" using True by (intro unat_of_nat32 [of _ 6]) simp_all
  with g1 g2 c show ?thesis by (simp add: depack_match_offs_def crush_consts)
next
  case False
  define m where "m = crush_log2 o'"
  define k where "k = o' - 2 ^ m"
  have pos: "0 < o'" using False by simp
  have o21: "o' < 2 ^ 21" using o by (simp add: crush_consts)
  have m: "6 \<le> m" "m < 21"
    using crush_log2_ge [of 6 o'] crush_log2_less [OF pos o21] False by (simp_all add: m_def)
  have p: "2 ^ m \<le> o'" "o' < 2 * 2 ^ m"
    using crush_log2_props [OF pos] by (simp_all add: m_def)
  have k: "o' = k + 2 ^ m" "k < 2 ^ m" using p by (simp_all add: k_def)
  have c: "offs_code o' = (m - 5 + 16 * k, 4 + m)" using False by (simp add: offs_code_def m_def k_def)
  obtain r1 where g1: "lbr_getbits lbr (int SLOT_BITS) = Some (of_nat (m - 5), r1)"
      "rstate r1 (k + 2 ^ m * R) (n - 4)"
    by (rule rstate_getbits [OF rs, where n' = "n - 4" and b = "m - 5" and k = 4 and R = "k + 2 ^ m * R"])
       (use V n c m in \<open>simp_all add: SLOT_BITS_def power_add\<close>)
  obtain r2 where g2: "lbr_getbits r1 (int m) = Some (of_nat k, r2)" "rstate r2 R (n - (4 + m))"
    by (rule rstate_getbits [OF g1(2), where n' = "n - (4 + m)" and b = k and k = m and R = R])
       (use k m n c in simp_all)
  define sw :: uint32 where "sw = of_nat (m - 5)"
  define kw :: uint32 where "kw = of_nat k"
  have u1: "unat sw = m - 5" unfolding sw_def using m by (intro unat_of_nat32 [of _ 4]) simp_all
  have "o' < 2 ^ 32" using o21 by simp
  then have "unat (of_nat o' :: uint32) = o'" by (simp add: unat_of_nat)
  moreover have "(kw + 2 ^ m :: uint32) = of_nat o'"
    by (simp add: kw_def k(1))
  ultimately have u2: "unat (kw + 2 ^ m :: uint32) = o'" by simp
  have m5: "5 < m" using m(1) by simp
  have mm: "m - 5 + (W_BITS - NUM_SLOTS) = m" "m > W_BITS - NUM_SLOTS"
    using m by (simp_all add: crush_consts)
  have h1: "lbr_getbits lbr (int SLOT_BITS) = Some (sw, r1)" using g1(1) by (simp only: sw_def)
  have h2: "lbr_getbits r1 (int m) = Some (kw, r2)" using g2(1) by (simp only: kw_def)
  have h3: "rstate r2 R (n - snd (offs_code o'))" using g2(2) by (simp add: c)
  show ?thesis
    unfolding depack_match_offs_def h1 by (simp add: u1 mm m5 Let_def h2 u2 h3)
qed

lemma ucast_ucast_byte: "ucast (ucast (b :: byte) :: uint32) = b"
  by (rule bit_word_eqI) (auto simp: bit_simps)

lemma depack_token_literal:
  assumes rs: "rstate lbr V n" and V: "V = 2 * unat b + 2 ^ 9 * R" and n: "9 \<le> n"
  shows "\<exists>lbr'. depack_token lbr = Some (Literal b, lbr') \<and> rstate lbr' R (n - 9)"
proof -
  have b: "unat b < 2 ^ 8" using unsigned_less [of b] by simp
  obtain r1 where g1: "lbr_getbits lbr 1 = Some (0, r1)" "rstate r1 (unat b + 2 ^ 8 * R) (n - 1)"
    by (rule read_zero [OF rs, where n' = "n - 1" and R = "unat b + 2 ^ 8 * R"]) (use V n in simp_all)
  obtain r2 where g2: "lbr_getbits r1 8 = Some (of_nat (unat b), r2)" "rstate r2 R (n - 9)"
    by (rule rstate_getbits [OF g1(2), where n' = "n - 9" and b = "unat b" and k = 8 and R = R])
       (use b n in simp_all)
  show ?thesis unfolding depack_token_def g1(1) by (simp add: g2 ucast_ucast_byte)
qed

lemma depack_token_match:
  assumes rs: "rstate lbr V n" and V: "V = fst (match_code len offs) + 2 ^ snd (match_code len offs) * R"
    and len: "MIN_MATCH \<le> len" "len \<le> MAX_MATCH" and offs: "1 \<le> offs" "offs \<le> W_SIZE"
    and n: "snd (match_code len offs) \<le> n"
  shows "\<exists>lbr'. depack_token lbr = Some (Match (len - MIN_MATCH) (offs - 1), lbr')
           \<and> rstate lbr' R (n - snd (match_code len offs))"
proof -
  define l where "l = len - MIN_MATCH"
  define o' where "o' = offs - 1"
  define V2 where "V2 = fst (offs_code o') + 2 ^ snd (offs_code o') * R"
  define V1 where "V1 = fst (len_code l) + 2 ^ snd (len_code l) * V2"
  have lF: "l < F_LEN" using len by (simp add: l_def crush_consts)
  have oW: "o' < W_SIZE" using offs by (simp add: o'_def)
  have VV: "V = 1 + 2 * V1"
    by (simp add: V match_code_def V1_def V2_def l_def o'_def power_add algebra_simps)
  have nn: "1 + snd (len_code l) + snd (offs_code o') \<le> n"
    using n by (simp add: match_code_def l_def o'_def)
  obtain r1 where g1: "lbr_getbits lbr 1 = Some (1, r1)" "rstate r1 V1 (n - 1)"
    by (rule read_one [OF rs VV, where n' = "n - 1"]) (use nn in simp_all)
  have n1: "snd (len_code l) \<le> n - 1" using nn by simp
  from depack_match_len_dec [OF g1(2) V1_def lF n1]
  obtain r2 where g2: "depack_match_len r1 = Some (l, r2)" "rstate r2 V2 (n - 1 - snd (len_code l))"
    by blast
  have n2: "snd (offs_code o') \<le> n - 1 - snd (len_code l)" using nn by simp
  from depack_match_offs_dec [OF g2(2) V2_def oW n2]
  obtain r3 where g3: "depack_match_offs r2 = Some (o', r3)"
      "rstate r3 R (n - 1 - snd (len_code l) - snd (offs_code o'))"
    by blast
  have "n - 1 - snd (len_code l) - snd (offs_code o') = n - snd (match_code len offs)"
    by (simp add: match_code_def l_def o'_def)
  with g3(2) have "rstate r3 R (n - snd (match_code len offs))" by simp
  then show ?thesis
    unfolding depack_token_def g1(1) l_def [symmetric] o'_def [symmetric] by (simp add: g2(1) g3(1))
qed


section \<open>The token codec: cost and round trip of one token\<close>

lemma wstate_finalize:
  assumes "wstate lbw V n"
  shows "bytes_val (lbw_finalize lbw) = V" "length (lbw_finalize lbw) = (n + 7) div 8"
proof -
  have ok: "w_msb lbw \<le> 32" "unat (w_tag lbw) < 2 ^ nat (w_msb lbw)" "0 \<le> w_msb lbw"
    and V: "lbw_val lbw = V" and n: "lbw_bits lbw = int n"
    using assms by (simp_all add: wstate_def lbw_ok_def)
  note p = lbw_finalize_props [OF ok(1,2)]
  show "bytes_val (lbw_finalize lbw) = V" using p V by simp
  define m where "m = nat (w_msb lbw)"
  have "n = 8 * length (next_out lbw) + m"
    using n ok(3) by (simp add: lbw_bits_def m_def)
  then have "(n + 7) div 8 = length (next_out lbw) + (m + 7) div 8" by simp
  with p show "length (lbw_finalize lbw) = (n + 7) div 8" by (simp add: m_def)
qed

lemma rstate_finalize:
  assumes "wstate lbw V n"
  shows "rstate (lbr_init (lbw_finalize lbw)) V (8 * ((n + 7) div 8))"
  using wstate_finalize [OF assms] rstate_init [of "lbw_finalize lbw"] by simp

lemma lbw_bits_emit_literal: "lbw_bits (emit_literal lbw b) = lbw_bits lbw + 9"
  by (simp add: emit_literal_def lbw_bits_putbits)

lemma lbw_bits_emit_match:
  "lbw_bits (leparse_emit_match lbw offs len) = lbw_bits lbw + int (crush_match_cost offs len)"
  "lbw_bits (btparse_emit_match lbw offs len) = lbw_bits lbw + int (crush_match_cost offs len)"
proof -
  have g: "2 * 2 ^ (W_BITS - NUM_SLOTS) \<le> offs \<Longrightarrow> W_BITS - NUM_SLOTS < crush_log2 offs"
    using crush_log2_ge [of 6 offs] by (simp add: crush_consts)
  show "lbw_bits (leparse_emit_match lbw offs len) = lbw_bits lbw + int (crush_match_cost offs len)"
    using g by (simp add: leparse_emit_match_def leparse_emit_offs_def emit_match_len_def
      crush_match_cost_def Let_def lbw_bits_putbits leparse_mlog_eq)
  show "lbw_bits (btparse_emit_match lbw offs len) = lbw_bits lbw + int (crush_match_cost offs len)"
    by (simp add: btparse_emit_match_def btparse_emit_offs_def emit_match_len_def
      crush_match_cost_def Let_def lbw_bits_putbits)
qed

text \<open>
  Claim C4. For every match of \<open>len\<close> bytes (\<open>MIN_MATCH \<le> len \<le> MAX_MATCH\<close>) at distance
  \<open>offs\<close> (\<open>1 \<le> offs \<le> W_SIZE\<close>), \<open>crush_match_cost (offs - 1) len\<close> is the number of bits by
  which the emit phase of either packer advances the bit writer for that token, from any
  writer state, and a literal advances it by 9 bits.
\<close>

theorem cost_model_faithful:
  assumes "MIN_MATCH \<le> len" "len \<le> MAX_MATCH" "1 \<le> offs" "offs \<le> W_SIZE"
  shows "lbw_bits (leparse_emit_match lbw (offs - 1) len)
           = lbw_bits lbw + int (crush_match_cost (offs - 1) len)
       \<and> lbw_bits (btparse_emit_match lbw (offs - 1) len)
           = lbw_bits lbw + int (crush_match_cost (offs - 1) len)
       \<and> lbw_bits (emit_literal lbw b) = lbw_bits lbw + 9"
  by (simp add: lbw_bits_emit_match lbw_bits_emit_literal)

theorem cost_model_faithful_witness:
  "lbw_bits (leparse_emit_match lbw_init (100 - 1) 10)
           = lbw_bits lbw_init + int (crush_match_cost (100 - 1) 10)
       \<and> lbw_bits (btparse_emit_match lbw_init (100 - 1) 10)
           = lbw_bits lbw_init + int (crush_match_cost (100 - 1) 10)
       \<and> lbw_bits (emit_literal lbw_init 65) = lbw_bits lbw_init + 9"
  using cost_model_faithful [of 10 100 lbw_init 65] by (simp add: crush_consts)

text \<open>
  Claim C5. A token written by the packers' emit code into an empty stream and flushed is
  read back by the decoder's token-reading steps: a literal byte as itself, and a match of
  \<open>len\<close> bytes at distance \<open>offs\<close> as the decoder's variables \<open>len - MIN_MATCH\<close> and
  \<open>offs - 1\<close>, from which the decoder copies \<open>3 + (len - MIN_MATCH)\<close> bytes from
  \<open>(offs - 1) + 1\<close> bytes back.
\<close>

theorem codec_self_consistency:
  "(\<exists>lbr'. depack_token (lbr_init (lbw_finalize (emit_literal lbw_init b))) = Some (Literal b, lbr'))
   \<and> (MIN_MATCH \<le> len \<and> len \<le> MAX_MATCH \<and> 1 \<le> offs \<and> offs \<le> W_SIZE \<longrightarrow>
        (\<exists>lbr'. depack_token (lbr_init (lbw_finalize (leparse_emit_match lbw_init (offs - 1) len)))
                  = Some (Match (len - MIN_MATCH) (offs - 1), lbr'))
      \<and> (\<exists>lbr'. depack_token (lbr_init (lbw_finalize (btparse_emit_match lbw_init (offs - 1) len)))
                  = Some (Match (len - MIN_MATCH) (offs - 1), lbr')))"
proof (intro conjI impI)
  from wstate_emit_literal [OF wstate_init, of b]
  have "wstate (emit_literal lbw_init b) (2 * unat b) 9" by simp
  from rstate_finalize [OF this]
  have "rstate (lbr_init (lbw_finalize (emit_literal lbw_init b))) (2 * unat b) 16" by simp
  from depack_token_literal [OF this, of b 0]
  show "\<exists>lbr'. depack_token (lbr_init (lbw_finalize (emit_literal lbw_init b))) = Some (Literal b, lbr')"
    by auto
next
  assume a: "MIN_MATCH \<le> len \<and> len \<le> MAX_MATCH \<and> 1 \<le> offs \<and> offs \<le> W_SIZE"
  then have h: "MIN_MATCH \<le> len" "len \<le> MAX_MATCH" "1 \<le> offs" "offs \<le> W_SIZE" by simp_all
  define c where "c = snd (match_code len offs)"
  have cn: "c \<le> 8 * ((c + 7) div 8)" by presburger
  from wstate_emit_match(1) [OF wstate_init h]
  have "wstate (leparse_emit_match lbw_init (offs - 1) len) (fst (match_code len offs)) c"
    by (simp add: c_def)
  from rstate_finalize [OF this]
  have "rstate (lbr_init (lbw_finalize (leparse_emit_match lbw_init (offs - 1) len)))
          (fst (match_code len offs)) (8 * ((c + 7) div 8))" .
  from depack_token_match [OF this _ h, of 0] cn
  show "\<exists>lbr'. depack_token (lbr_init (lbw_finalize (leparse_emit_match lbw_init (offs - 1) len)))
                  = Some (Match (len - MIN_MATCH) (offs - 1), lbr')"
    by (auto simp: c_def)
  from wstate_emit_match(2) [OF wstate_init h]
  have "wstate (btparse_emit_match lbw_init (offs - 1) len) (fst (match_code len offs)) c"
    by (simp add: c_def)
  from rstate_finalize [OF this]
  have "rstate (lbr_init (lbw_finalize (btparse_emit_match lbw_init (offs - 1) len)))
          (fst (match_code len offs)) (8 * ((c + 7) div 8))" .
  from depack_token_match [OF this _ h, of 0] cn
  show "\<exists>lbr'. depack_token (lbr_init (lbw_finalize (btparse_emit_match lbw_init (offs - 1) len)))
                  = Some (Match (len - MIN_MATCH) (offs - 1), lbr')"
    by (auto simp: c_def)
qed

theorem codec_self_consistency_witness:
  "(\<exists>lbr'. depack_token (lbr_init (lbw_finalize (emit_literal lbw_init 65))) = Some (Literal 65, lbr'))
   \<and> (\<exists>lbr'. depack_token (lbr_init (lbw_finalize (leparse_emit_match lbw_init (100 - 1) 10)))
                  = Some (Match (10 - MIN_MATCH) (100 - 1), lbr'))
   \<and> (\<exists>lbr'. depack_token (lbr_init (lbw_finalize (btparse_emit_match lbw_init (100 - 1) 10)))
                  = Some (Match (10 - MIN_MATCH) (100 - 1), lbr'))"
  using codec_self_consistency [of 65 10 100] by (simp add: crush_consts)


section \<open>The decoder's contract and its error\<close>

inductive depack_reach :: "nat \<Rightarrow> lsb_bitreader \<times> byte list \<Rightarrow> lsb_bitreader \<times> byte list \<Rightarrow> bool"
  for depacked_size :: nat where
  start: "depack_reach depacked_size s s"
| turn: "depack_reach depacked_size s (lbr, out) \<Longrightarrow> length out < depacked_size \<Longrightarrow>
         depack_step lbr out = Inr (lbr', out') \<Longrightarrow> depack_reach depacked_size s (lbr', out')"

lemmas depack_eval = crush_depack_def crush_depack_loop.simps depack_step_def depack_token_def
  depack_match_len_def depack_match_offs_def lbr_getbits_def lbr_getbits_no_refill_def
  lbr_refill.simps lbr_init_def Let_def crush_consts mask_eq_exp_minus_1

lemma lbr_getbits_less:
  assumes "lbr_getbits lbr (int num) = Some (v, lbr')"
  shows "unat v < 2 ^ num"
proof -
  from assms have "v = r_tag (the (lbr_refill lbr (int num))) AND mask num"
    by (auto simp: lbr_getbits_def lbr_getbits_no_refill_def)
  then show ?thesis by (simp add: unat_and_mask)
qed

lemma depack_match_len_less:
  assumes "depack_match_len lbr = Some (len, lbr')"
  shows "len < F_LEN"
  using assms
  by (auto simp: depack_match_len_def crush_consts split: Option.bind_splits if_splits
           dest!: lbr_getbits_less [of _ 2, simplified] lbr_getbits_less [of _ 3, simplified]
                  lbr_getbits_less [of _ 5, simplified] lbr_getbits_less [of _ 9, simplified])

lemma depack_token_len_less:
  assumes "depack_token lbr = Some (Match len offs, lbr')"
  shows "len < F_LEN"
proof -
  from assms obtain t r where 1: "lbr_getbits lbr 1 = Some (t, r)"
    by (auto simp: depack_token_def split: Option.bind_splits)
  with assms obtain r2 where "depack_match_len r = Some (len, r2)"
    by (auto simp: depack_token_def split: Option.bind_splits if_splits)
  then show ?thesis by (rule depack_match_len_less)
qed

lemma depack_step_Inr:
  assumes "depack_step lbr out = Inr (lbr', out')"
  shows "length out < length out'" "length out' < length out + MAX_MATCH + 1"
  using assms
  by (auto simp: depack_step_def Let_def length_copy_match crush_consts
           split: option.splits token.splits if_splits
           dest!: depack_token_len_less)

lemma depack_step_error:
  "depack_step lbr out = Inl CRUSH_ERROR \<longleftrightarrow>
     (\<exists>len offs lbr'. depack_token lbr = Some (Match len offs, lbr') \<and> length out < offs + 1)"
  by (auto simp: depack_step_def Let_def split: option.splits token.splits)

lemma depack_loop_bounds:
  "crush_depack_loop lbr out M = (ret, out') \<Longrightarrow>
     (case ret of RETURN r \<Rightarrow> r = length out' \<and> M \<le> r \<and> r < max (length out + 1) (M + MAX_MATCH)
      | _ \<Rightarrow> length out' < M)"
proof (induction lbr out M rule: crush_depack_loop.induct)
  case (1 lbr out M)
  show ?case
  proof (cases "length out < M")
    case False
    with "1.prems" show ?thesis by (auto simp: crush_depack_loop.simps [of lbr out M])
  next
    case True
    show ?thesis
    proof (cases "depack_step lbr out")
      case (Inl e)
      then have "e \<noteq> RETURN r" for r
        by (auto simp: depack_step_def Let_def split: option.splits token.splits if_splits)
      with Inl True "1.prems" show ?thesis
        by (cases e) (auto simp: crush_depack_loop.simps [of lbr out M])
    next
      case (Inr p)
      obtain lbr2 out2 where p: "p = (lbr2, out2)" by (cases p)
      note b = depack_step_Inr [OF Inr [unfolded p]]
      have l: "crush_depack_loop lbr2 out2 M = (ret, out')"
        using "1.prems" True Inr p by (simp add: crush_depack_loop.simps [of lbr out M])
      from "1.IH" [OF True Inr p [symmetric] l] b True show ?thesis
        by (cases ret) (auto simp: max_def split: if_splits)
    qed
  qed
qed

lemma depack_reach_loop:
  "depack_reach M s t \<Longrightarrow>
     crush_depack_loop (fst t) (snd t) M = crush_depack_loop (fst s) (snd s) M"
proof (induction rule: depack_reach.induct)
  case (start s)
  show ?case by simp
next
  case (turn s lbr out lbr' out')
  have "crush_depack_loop lbr out M = crush_depack_loop lbr' out' M"
    using turn.hyps(2,3) by (simp add: crush_depack_loop.simps [of lbr out M])
  with turn.IH show ?case by simp
qed

lemma depack_reach_first:
  assumes "depack_reach M s t" "s = (lbr', out')" "length out < M"
    "depack_step lbr out = Inr (lbr', out')"
  shows "depack_reach M (lbr, out) t"
  using assms
proof (induction rule: depack_reach.induct)
  case (start s)
  from depack_reach.turn [OF depack_reach.start start(2,3)] start(1) show ?case by simp
next
  case (turn s l1 o1 l2 o2)
  from turn.IH [OF turn.prems] turn.hyps(2,3) show ?case by (rule depack_reach.turn)
qed

lemma depack_loop_error:
  "crush_depack_loop lbr out M = (CRUSH_ERROR, out_e) \<Longrightarrow>
     \<exists>lbr1. depack_reach M (lbr, out) (lbr1, out_e) \<and> length out_e < M
          \<and> depack_step lbr1 out_e = Inl CRUSH_ERROR"
proof (induction lbr out M rule: crush_depack_loop.induct)
  case (1 lbr out M)
  show ?case
  proof (cases "length out < M")
    case False
    with "1.prems" show ?thesis by (simp add: crush_depack_loop.simps [of lbr out M])
  next
    case True
    show ?thesis
    proof (cases "depack_step lbr out")
      case (Inl e)
      with True "1.prems" have "e = CRUSH_ERROR" "out_e = out"
        by (simp_all add: crush_depack_loop.simps [of lbr out M])
      with Inl True show ?thesis by (auto intro: depack_reach.start)
    next
      case (Inr p)
      obtain lbr2 out2 where p: "p = (lbr2, out2)" by (cases p)
      have l: "crush_depack_loop lbr2 out2 M = (CRUSH_ERROR, out_e)"
        using "1.prems" True Inr p by (simp add: crush_depack_loop.simps [of lbr out M])
      from "1.IH" [OF True Inr p [symmetric] l]
      obtain lbr1 where r: "depack_reach M (lbr2, out2) (lbr1, out_e)" "length out_e < M"
          "depack_step lbr1 out_e = Inl CRUSH_ERROR" by blast
      from depack_reach_first [OF r(1) refl True Inr [unfolded p]] r(2,3) show ?thesis by blast
    qed
  qed
qed

text \<open>
  Claim C3. \<open>crush_depack\<close> returns the error sentinel, with the output as it was before the
  offending token, exactly when the main loop reaches, with fewer than \<open>depacked_size\<close> bytes
  written, a match token whose offset \<open>offs + 1\<close> (the decoder's \<open>++offs\<close>) exceeds the number of
  bytes written. So such a token makes the decoder fail without copying the match, and a
  stream in which none occurs never yields the sentinel.
\<close>

theorem depack_error_iff:
  "crush_depack s depacked_size = (CRUSH_ERROR, out) \<longleftrightarrow>
     (\<exists>lbr len offs lbr'.
        depack_reach depacked_size (lbr_init s, []) (lbr, out) \<and> length out < depacked_size
        \<and> depack_token lbr = Some (Match len offs, lbr') \<and> length out < offs + 1)"
proof
  assume "crush_depack s depacked_size = (CRUSH_ERROR, out)"
  then have "crush_depack_loop (lbr_init s) [] depacked_size = (CRUSH_ERROR, out)"
    by (simp add: crush_depack_def)
  from depack_loop_error [OF this]
  show "\<exists>lbr len offs lbr'.
        depack_reach depacked_size (lbr_init s, []) (lbr, out) \<and> length out < depacked_size
        \<and> depack_token lbr = Some (Match len offs, lbr') \<and> length out < offs + 1"
    unfolding depack_step_error by blast
next
  assume "\<exists>lbr len offs lbr'.
        depack_reach depacked_size (lbr_init s, []) (lbr, out) \<and> length out < depacked_size
        \<and> depack_token lbr = Some (Match len offs, lbr') \<and> length out < offs + 1"
  then obtain lbr where r: "depack_reach depacked_size (lbr_init s, []) (lbr, out)"
      "length out < depacked_size" "depack_step lbr out = Inl CRUSH_ERROR"
    unfolding depack_step_error by blast
  have "crush_depack_loop lbr out depacked_size = (CRUSH_ERROR, out)"
    using r(2,3) by (simp add: crush_depack_loop.simps [of lbr out depacked_size])
  with depack_reach_loop [OF r(1)] show "crush_depack s depacked_size = (CRUSH_ERROR, out)"
    by (simp add: crush_depack_def)
qed

theorem depack_error_iff_witness:
  "crush_depack [130, 6, 2] 4 = (CRUSH_ERROR, [65]) \<and>
     (\<exists>lbr len offs lbr'.
        depack_reach 4 (lbr_init [130, 6, 2], []) (lbr, [65]) \<and> length [65 :: byte] < 4
        \<and> depack_token lbr = Some (Match len offs, lbr') \<and> length [65 :: byte] < offs + 1)"
proof -
  have e: "crush_depack [130, 6, 2] 4 = (CRUSH_ERROR, [65])"
    by (simp add: depack_eval)
  with depack_error_iff [of "[130, 6, 2]" 4 "[65]"] show ?thesis by blast
qed

text \<open>
  Claim C2, as stated, fails: the copy of a match is not cut at \<open>depacked_size\<close>. A literal
  followed by a match of three bytes, decoded with \<open>depacked_size = 2\<close>, writes four bytes
  and returns 4.
\<close>

theorem depack_exact_counterexample:
  "crush_depack [130, 6, 0] 2 = (RETURN 4, [65, 65, 65, 65])"
  by (simp add: depack_eval)

text \<open>
  Claim C2, amended. When \<open>crush_depack\<close> returns without the error sentinel, its return value
  is the number of bytes it has written, which is at least \<open>depacked_size\<close> and less than
  \<open>depacked_size + MAX_MATCH\<close>: the last match is copied whole, so up to \<open>MAX_MATCH - 1\<close> bytes
  can be written at positions from \<open>depacked_size\<close> on. When it fails, fewer than
  \<open>depacked_size\<close> bytes have been written.
\<close>

theorem depack_at_least:
  "crush_depack s depacked_size = (ret, out) \<Longrightarrow>
     (case ret of
        RETURN r \<Rightarrow> r = length out \<and> depacked_size \<le> r \<and> r < depacked_size + MAX_MATCH
      | _ \<Rightarrow> length out < depacked_size)"
  using depack_loop_bounds [of "lbr_init s" "[]" depacked_size ret out]
  by (cases ret) (auto simp: crush_depack_def max_def crush_consts split: if_splits)

theorem depack_at_least_witness:
  "crush_depack [130, 6, 0] 2 = (RETURN 4, [65, 65, 65, 65]) \<and>
     4 = length [65, 65, 65, 65 :: byte] \<and> (2 :: nat) \<le> 4 \<and> (4 :: nat) < 2 + MAX_MATCH"
proof -
  have e: "crush_depack [130, 6, 0] 2 = (RETURN 4, [65, 65, 65, 65])"
    by (simp add: depack_eval)
  from depack_at_least [OF e] e show ?thesis by simp
qed

text \<open>
  Claim C7, as stated, fails in both directions: a source of 4 bytes has \<open>2N < 2 ^ CRUSH_HASH_BITS\<close>
  and is hashed with the full 17 bits, not with \<open>\<lfloor>log2 4\<rfloor> = 2\<close>; a source of \<open>2 ^ 20\<close> bytes is
  hashed with 20 bits, not with \<open>CRUSH_HASH_BITS\<close>.
\<close>

theorem hash_width_counterexample:
  "2 * (4 :: nat) < 2 ^ CRUSH_HASH_BITS \<and> leparse_bits 4 = 17 \<and> crush_log2 4 = 2
   \<and> \<not> 2 * (1048576 :: nat) < 2 ^ CRUSH_HASH_BITS \<and> leparse_bits 1048576 = 20"
proof -
  have "crush_log2 4 = 2" by (rule crush_log2_eq) simp_all
  moreover have "crush_log2 1048576 = 20" by (rule crush_log2_eq) simp_all
  ultimately show ?thesis by (simp add: leparse_bits_def crush_consts)
qed

text \<open>
  Claim C7, amended. In the hash-chain match-finder, when \<open>2N < 2 ^ CRUSH_HASH_BITS\<close> the full
  \<open>CRUSH_HASH_BITS\<close> width is used; otherwise the width is \<open>\<lfloor>log2 N\<rfloor>\<close>, which is at least
  \<open>CRUSH_HASH_BITS - 1\<close>, so the table grows with the source.
\<close>

theorem hash_width_amended:
  assumes "src_size < 2 ^ 63"
  shows "(2 * src_size < 2 ^ CRUSH_HASH_BITS \<longrightarrow> leparse_bits src_size = CRUSH_HASH_BITS)
       \<and> (\<not> 2 * src_size < 2 ^ CRUSH_HASH_BITS \<longrightarrow>
            2 ^ leparse_bits src_size \<le> src_size \<and> src_size < 2 * 2 ^ leparse_bits src_size
            \<and> CRUSH_HASH_BITS - 1 \<le> leparse_bits src_size)"
proof -
  have m: "(2 * src_size) mod 2 ^ 64 = 2 * src_size" using assms by simp
  show ?thesis
  proof (cases "2 * src_size < 2 ^ CRUSH_HASH_BITS")
    case True
    then show ?thesis unfolding leparse_bits_def m by (simp add: LOOKUP_SIZE_def)
  next
    case False
    then have b: "leparse_bits src_size = crush_log2 src_size"
      unfolding leparse_bits_def m by (simp add: LOOKUP_SIZE_def)
    from False have "2 ^ 16 \<le> src_size" by (simp add: crush_consts)
    then have "0 < src_size" "16 \<le> crush_log2 src_size"
      using crush_log2_ge [of 16 src_size] by simp_all
    with crush_log2_props [of src_size] False show ?thesis by (simp add: b crush_consts)
  qed
qed

theorem hash_width_amended_witness:
  "leparse_bits 4 = CRUSH_HASH_BITS
   \<and> 2 ^ leparse_bits 1048576 \<le> (1048576 :: nat) \<and> (1048576 :: nat) < 2 * 2 ^ leparse_bits 1048576"
  using hash_width_amended [of 4] hash_width_amended [of 1048576] by (simp add: crush_consts)


section \<open>The packers: evaluation\<close>

lemma fill_closed:
  "fill w base i n v = (\<lambda>j. if base + i \<le> j \<and> j < base + n then v else w j)"
proof (induction w base i n v rule: fill.induct)
  case (1 w base i n v)
  show ?case
  proof (cases "i < n")
    case True
    have "fill w base i n v = fill (w(base + i := v)) base (i + 1) n v"
      using True by (subst fill.simps) simp
    also have "\<dots> = (\<lambda>j. if base + (i + 1) \<le> j \<and> j < base + n then v else (w(base + i := v)) j)"
      by (rule "1.IH" [OF True])
    also have "\<dots> = (\<lambda>j. if base + i \<le> j \<and> j < base + n then v else w j)"
      using True by (auto simp: fun_eq_iff)
    finally show ?thesis .
  next
    case False
    then show ?thesis by (subst fill.simps) (auto simp: fun_eq_iff)
  qed
qed

lemmas pack_eval = crush_pack_level_def crush_pack_leparse_def leparse_bits_def fill_closed
  leparse_build.simps crush_hash3_bits_def le_layout le_store_def leparse_parse.simps
  leparse_chain.simps leparse_try_def leparse_min_cost.simps match_len.simps
  leparse_left_extend.simps leparse_emit.simps crush_match_cost_def crush_log2_def
  crush_log2_loop.simps leparse_emit_match_def leparse_emit_offs_def emit_match_len_def
  emit_literal_def leparse_mlog.simps lbw_putbits_def lbw_putbits_no_flush_def lbw_flush.simps
  lbw_finalize.simps lbw_store_def lbw_init_def literals_loop.simps ulong_sub_def crush_consts
  Let_def

section \<open>Token sequences and their streams\<close>

text \<open>
  A parse of the source is a list of tokens: a literal byte, or a match \<open>PMatch len offs\<close> of
  \<open>len\<close> bytes at distance \<open>offs\<close>. \<open>emit_ptokens\<close> runs the emit code of a packer over such a
  list (\<open>le\<close> selects the code of crush_leparse.h, otherwise that of crush_btparse.h), and
  \<open>ptokens_ok inp i ts\<close> says that \<open>ts\<close> is a parse of \<open>inp\<close> from position \<open>i\<close> to its end: every
  match has its length in \<open>[MIN_MATCH, MAX_MATCH]\<close>, its distance in \<open>[1, W_SIZE]\<close> and at most the
  position it stands at, and the bytes it copies are those of the source.
\<close>

datatype ptoken = PLit byte | PMatch nat nat

fun emit_ptoken :: "bool \<Rightarrow> lsb_bitwriter \<Rightarrow> ptoken \<Rightarrow> lsb_bitwriter" where
  "emit_ptoken le lbw (PLit b) = emit_literal lbw b"
| "emit_ptoken le lbw (PMatch len offs) =
     (if le then leparse_emit_match lbw (offs - 1) len else btparse_emit_match lbw (offs - 1) len)"

definition emit_ptokens :: "bool \<Rightarrow> lsb_bitwriter \<Rightarrow> ptoken list \<Rightarrow> lsb_bitwriter" where
  "emit_ptokens le lbw ts = foldl (emit_ptoken le) lbw ts"

fun ptokens_ok :: "byte list \<Rightarrow> nat \<Rightarrow> ptoken list \<Rightarrow> bool" where
  "ptokens_ok inp i [] \<longleftrightarrow> i = length inp"
| "ptokens_ok inp i (PLit b # ts) \<longleftrightarrow> i < length inp \<and> b = inp ! i \<and> ptokens_ok inp (i + 1) ts"
| "ptokens_ok inp i (PMatch len offs # ts) \<longleftrightarrow>
     MIN_MATCH \<le> len \<and> len \<le> MAX_MATCH \<and> 1 \<le> offs \<and> offs \<le> W_SIZE \<and> offs \<le> i
     \<and> i + len \<le> length inp \<and> (\<forall>k<len. inp ! (i + k) = inp ! (i + k - offs))
     \<and> ptokens_ok inp (i + len) ts"

fun ptoken_code :: "ptoken \<Rightarrow> nat \<times> nat" where
  "ptoken_code (PLit b) = (2 * unat b, 9)"
| "ptoken_code (PMatch len offs) = match_code len offs"

fun ptokens_code :: "ptoken list \<Rightarrow> nat \<times> nat" where
  "ptokens_code [] = (0, 0)"
| "ptokens_code (t # ts) =
     (fst (ptoken_code t) + 2 ^ snd (ptoken_code t) * fst (ptokens_code ts),
      snd (ptoken_code t) + snd (ptokens_code ts))"

fun ptoken_cost :: "ptoken \<Rightarrow> nat" where
  "ptoken_cost (PLit b) = 9"
| "ptoken_cost (PMatch len offs) = crush_match_cost (offs - 1) len"

lemma ptoken_code_cost:
  "ptokens_ok inp i (t # ts) \<Longrightarrow> snd (ptoken_code t) = ptoken_cost t"
  by (cases t) (simp_all add: match_code_cost)

lemma ptokens_code_cost:
  "ptokens_ok inp i ts \<Longrightarrow> snd (ptokens_code ts) = sum_list (map ptoken_cost ts)"
proof (induction ts arbitrary: i)
  case Nil
  show ?case by simp
next
  case (Cons t ts)
  from Cons.prems obtain j where "ptokens_ok inp j ts" by (cases t) auto
  from Cons.IH [OF this] ptoken_code_cost [OF Cons.prems] show ?case by simp
qed

lemma wstate_emit_ptoken:
  assumes "wstate lbw V n" "ptokens_ok inp i (t # ts)"
  shows "wstate (emit_ptoken le lbw t) (V + 2 ^ n * fst (ptoken_code t)) (n + snd (ptoken_code t))"
proof (cases t)
  case (PLit b)
  with wstate_emit_literal [OF assms(1), of b] show ?thesis by simp
next
  case (PMatch len offs)
  with assms(2) have h: "MIN_MATCH \<le> len" "len \<le> MAX_MATCH" "1 \<le> offs" "offs \<le> W_SIZE" by simp_all
  from wstate_emit_match [OF assms(1) h] PMatch show ?thesis by simp
qed

lemma wstate_emit_ptokens:
  assumes "wstate lbw V n" "ptokens_ok inp i ts"
  shows "wstate (emit_ptokens le lbw ts) (V + 2 ^ n * fst (ptokens_code ts)) (n + snd (ptokens_code ts))"
  using assms
proof (induction ts arbitrary: lbw V n i)
  case Nil
  then show ?case by (simp add: emit_ptokens_def)
next
  case (Cons t ts)
  from Cons.prems(2) obtain j where j: "ptokens_ok inp j ts" by (cases t) auto
  note a = wstate_emit_ptoken [OF Cons.prems, of le]
  from Cons.IH [OF a j] show ?case
    by (simp add: emit_ptokens_def power_add algebra_simps)
qed

lemma copy_match_take:
  assumes "out = take i inp" "i + len \<le> length inp" "1 \<le> offs" "offs \<le> i"
    "\<forall>k<len. inp ! (i + k) = inp ! (i + k - offs)"
  shows "copy_match out (i - offs) len = take (i + len) inp"
  using assms
proof (induction len arbitrary: out i)
  case 0
  then show ?case by simp
next
  case (Suc len)
  have i: "i < length inp" "length out = i" using Suc.prems(1,2) by simp_all
  have "out ! (i - offs) = inp ! (i - offs)" using Suc.prems(1,3,4) i by simp
  also have "\<dots> = inp ! i" using Suc.prems(5) [rule_format, of 0] by simp
  finally have "out @ [out ! (i - offs)] = take (Suc i) inp"
    using Suc.prems(1) i by (simp add: take_Suc_conv_app_nth)
  moreover have "\<forall>k<len. inp ! (Suc i + k) = inp ! (Suc i + k - offs)"
    using Suc.prems(5) by (auto dest: spec [of _ "Suc _"])
  ultimately have "copy_match (out @ [out ! (i - offs)]) (Suc i - offs) len = take (Suc i + len) inp"
    using Suc.prems(2,3,4) by (intro Suc.IH) simp_all
  moreover have "Suc (i - offs) = Suc i - offs" using Suc.prems(4) by simp
  ultimately show ?case by simp
qed

lemma depack_step_match:
  assumes "depack_token lbr = Some (Match l o', lbr')" "o' + 1 \<le> length out"
  shows "depack_step lbr out = Inr (lbr', copy_match out (length out - (o' + 1)) (l + 3))"
proof -
  define m where "m = length out - (o' + 1)"
  have "copy_match out m (l + 3)
      = copy_match (out @ [out ! m] @ [(out @ [out ! m]) ! (m + 1)]
          @ [(out @ [out ! m] @ [(out @ [out ! m]) ! (m + 1)]) ! (m + 2)]) (m + 3) l"
    by (simp add: numeral_3_eq_3)
  then show ?thesis using assms by (simp add: depack_step_def Let_def m_def)
qed


lemma ptokens_code_snd_le: "snd (ptoken_code t) \<le> snd (ptokens_code (t # ts))"
  by simp

lemma depack_ptokens:
  assumes "rstate lbr (fst (ptokens_code ts) + 2 ^ snd (ptokens_code ts) * R) nb"
    "snd (ptokens_code ts) \<le> nb" "ptokens_ok inp i ts" "out = take i inp" "i \<le> length inp"
  shows "crush_depack_loop lbr out (length inp) = (RETURN (length inp), inp)"
  using assms
proof (induction ts arbitrary: lbr out i nb)
  case Nil
  then show ?case by (simp add: crush_depack_loop.simps)
next
  case (Cons t ts)
  define c where "c = snd (ptoken_code t)"
  define R' where "R' = fst (ptokens_code ts) + 2 ^ snd (ptokens_code ts) * R"
  have V: "fst (ptokens_code (t # ts)) + 2 ^ snd (ptokens_code (t # ts)) * R
      = fst (ptoken_code t) + 2 ^ c * R'"
    by (simp add: c_def R'_def power_add algebra_simps)
  have nb: "c \<le> nb" "snd (ptokens_code ts) \<le> nb - c" using Cons.prems(2) by (simp_all add: c_def)
  have lo: "length out = i" using Cons.prems(4,5) by simp
  show ?case
  proof (cases t)
    case (PLit b)
    with Cons.prems(3) have h: "i < length inp" "b = inp ! i" "ptokens_ok inp (i + 1) ts" by simp_all
    have c9: "c = 9" by (simp add: c_def PLit)
    from depack_token_literal [OF Cons.prems(1) [unfolded V], of b R'] nb PLit c9
    obtain lbr' where d: "depack_token lbr = Some (Literal b, lbr')" "rstate lbr' R' (nb - 9)" by auto
    have s: "depack_step lbr out = Inr (lbr', out @ [b])" by (simp add: depack_step_def d)
    have o: "out @ [b] = take (i + 1) inp" using h Cons.prems(4) by (simp add: take_Suc_conv_app_nth)
    have "crush_depack_loop lbr' (out @ [b]) (length inp) = (RETURN (length inp), inp)"
      using d(2) nb(2) h o unfolding R'_def c9 by (intro Cons.IH [where i = "i + 1"]) simp_all
    then show ?thesis using h lo by (subst crush_depack_loop.simps) (simp add: s)
  next
    case (PMatch len offs)
    with Cons.prems(3) have h: "MIN_MATCH \<le> len" "len \<le> MAX_MATCH" "1 \<le> offs" "offs \<le> W_SIZE" "offs \<le> i"
      "i + len \<le> length inp" "\<forall>k<len. inp ! (i + k) = inp ! (i + k - offs)"
      "ptokens_ok inp (i + len) ts" by simp_all
    have cm: "c = snd (match_code len offs)" by (simp add: c_def PMatch)
    have V': "fst (ptoken_code t) + 2 ^ c * R' = fst (match_code len offs) + 2 ^ snd (match_code len offs) * R'"
      by (simp add: cm PMatch)
    from depack_token_match [OF Cons.prems(1) [unfolded V] V' h(1-4)] nb cm
    obtain lbr' where d: "depack_token lbr = Some (Match (len - MIN_MATCH) (offs - 1), lbr')"
      "rstate lbr' R' (nb - c)" by auto
    have l3: "len - MIN_MATCH + 3 = len" using h(1) by (simp add: MIN_MATCH_def)
    have "depack_step lbr out = Inr (lbr', copy_match out (length out - (offs - 1 + 1)) (len - MIN_MATCH + 3))"
      using h(3,5) lo by (intro depack_step_match [OF d(1)]) simp
    then have s: "depack_step lbr out = Inr (lbr', copy_match out (i - offs) len)"
      using h(3) lo l3 by simp
    have o: "copy_match out (i - offs) len = take (i + len) inp"
      by (rule copy_match_take [OF Cons.prems(4) h(6,3,5,7)])
    have "crush_depack_loop lbr' (copy_match out (i - offs) len) (length inp) = (RETURN (length inp), inp)"
      using d(2) nb(2) h o unfolding R'_def by (intro Cons.IH [where i = "i + len"]) simp_all
    moreover have "i < length inp" using h(1,6) by (simp add: MIN_MATCH_def)
    ultimately show ?thesis using lo by (subst crush_depack_loop.simps) (simp add: s)
  qed
qed

definition encode_ptokens :: "bool \<Rightarrow> ptoken list \<Rightarrow> byte list" where
  "encode_ptokens le ts = lbw_finalize (emit_ptokens le lbw_init ts)"

lemma encode_ptokens_length:
  assumes "ptokens_ok inp 0 ts"
  shows "length (encode_ptokens le ts) = (sum_list (map ptoken_cost ts) + 7) div 8"
proof -
  from wstate_emit_ptokens [OF wstate_init assms, of le]
  have w: "wstate (emit_ptokens le lbw_init ts) (fst (ptokens_code ts)) (snd (ptokens_code ts))" by simp
  from wstate_finalize(2) [OF w] ptokens_code_cost [OF assms] show ?thesis
    by (simp add: encode_ptokens_def)
qed

lemma depack_encode_ptokens:
  assumes "ptokens_ok inp 0 ts"
  shows "crush_depack (encode_ptokens le ts) (length inp) = (RETURN (length inp), inp)"
proof -
  from wstate_emit_ptokens [OF wstate_init assms, of le]
  have w: "wstate (emit_ptokens le lbw_init ts) (fst (ptokens_code ts)) (snd (ptokens_code ts))" by simp
  note r = rstate_finalize [OF w]
  have "rstate (lbr_init (encode_ptokens le ts)) (fst (ptokens_code ts) + 2 ^ snd (ptokens_code ts) * 0)
     (8 * ((snd (ptokens_code ts) + 7) div 8))" using r by (simp add: encode_ptokens_def)
  from depack_ptokens [OF this _ assms, of "[]"] show ?thesis
    by (simp add: crush_depack_def)
qed


section \<open>The parse of crush_leparse.h is a parse of the source\<close>

text \<open>
  The command line tool packs a file in blocks of \<open>BLOCK_SIZE\<close> bytes (bcrush.c), and the fuzzing
  entry of crush.c drops longer inputs; the theorems about the packers are for sources of at
  most that length, where no position, cost or table index leaves the range of its C type.
\<close>

definition BLOCK_SIZE :: nat where "BLOCK_SIZE = 64 * 1024 * 1024"

lemma ulong_sub_simp:
  assumes "b \<le> a" "a < 2 ^ 64"
  shows "ulong_sub a b = a - b"
proof -
  have "b < 2 ^ 64" using assms by (rule le_less_trans)
  then have b: "b mod 2 ^ 64 = b" by (rule mod_less)
  show ?thesis unfolding ulong_sub_def b by (rule wrap_sub [OF assms])
qed

lemma match_len_props:
  assumes "l0 \<le> limit"
  shows "l0 \<le> match_len inp pos cur limit l0 \<and> match_len inp pos cur limit l0 \<le> limit
    \<and> (\<forall>k. l0 \<le> k \<and> k < match_len inp pos cur limit l0 \<longrightarrow> inp ! (pos + k) = inp ! (cur + k))
    \<and> (match_len inp pos cur limit l0 < limit \<longrightarrow>
         inp ! (pos + match_len inp pos cur limit l0) \<noteq> inp ! (cur + match_len inp pos cur limit l0))"
  using assms
proof (induction inp pos cur limit l0 rule: match_len.induct)
  case (1 inp pos cur len_limit len)
  show ?case
  proof (cases "len < len_limit \<and> inp ! (pos + len) = inp ! (cur + len)")
    case True
    then have e: "match_len inp pos cur len_limit len = match_len inp pos cur len_limit (len + 1)"
      by (subst match_len.simps) simp
    from True have "len + 1 \<le> len_limit" by simp
    note ih = "1.IH" [OF True this]
    have "inp ! (pos + k) = inp ! (cur + k)"
      if "len \<le> k" "k < match_len inp pos cur len_limit (len + 1)" for k
    proof (cases "k = len")
      case True
      with \<open>len < len_limit \<and> inp ! (pos + len) = inp ! (cur + len)\<close> show ?thesis by simp
    next
      case False
      with that have "len + 1 \<le> k" by simp
      with ih that show ?thesis by blast
    qed
    moreover have "len \<le> match_len inp pos cur len_limit (len + 1)" using ih by simp
    ultimately show ?thesis unfolding e using ih by blast
  next
    case False
    then have e: "match_len inp pos cur len_limit len = len"
      by (subst match_len.simps) auto
    show ?thesis unfolding e using False "1.prems" by auto
  qed
qed

lemma crush_match_cost_step:
  assumes "MIN_MATCH \<le> len" "len < MAX_MATCH"
  shows "crush_match_cost offs (len + 1) \<le> crush_match_cost offs len + 4"
proof -
  have a: "len < 2 ^ 64" "len + 1 < 2 ^ 64" "MIN_MATCH \<le> len + 1" using assms by (simp_all add: crush_consts)
  note l = wrap_sub [OF assms(1) a(1)] wrap_sub [OF a(3) a(2)]
  show ?thesis unfolding crush_match_cost_def Let_def l using assms
    by (simp add: crush_consts; arith)
qed

lemma crush_match_cost_pos: "0 < crush_match_cost offs len"
  by (simp add: crush_match_cost_def Let_def)

lemma crush_match_cost_le:
  assumes "offs < W_SIZE"
  shows "crush_match_cost offs len \<le> 39"
proof -
  define l where "l = (len + 2 ^ 64 - MIN_MATCH) mod 2 ^ 64"
  define c where "c = (if l < A_LEN then 1 + A_BITS else if l < B_LEN then 2 + B_BITS
    else if l < C_LEN then 3 + C_BITS else if l < D_LEN then 4 + D_BITS
    else if l < E_LEN then 5 + E_BITS else 5 + F_BITS)"
  have c: "c \<le> 14" by (simp add: c_def crush_consts)
  have "offs \<noteq> 0 \<Longrightarrow> crush_log2 offs < 21"
    using crush_log2_less [of offs 21] assms by (simp add: crush_consts)
  then have o: "(if offs \<ge> 2 * 2 ^ (W_BITS - NUM_SLOTS) then crush_log2 offs
                 else W_BITS - (NUM_SLOTS - 1)) \<le> 20"
    by (auto simp add: crush_consts)
  have "crush_match_cost offs len = 1 + c + SLOT_BITS
     + (if offs \<ge> 2 * 2 ^ (W_BITS - NUM_SLOTS) then crush_log2 offs else W_BITS - (NUM_SLOTS - 1))"
    unfolding crush_match_cost_def Let_def c_def l_def by simp
  with c o show ?thesis by (simp add: SLOT_BITS_def)
qed

lemma drop_bit_less:
  assumes "bits \<le> 32"
  shows "unat (drop_bit (32 - bits) (x :: uint32)) < 2 ^ bits"
proof -
  have "unat x < 2 ^ 32" using unsigned_less [of x] by simp
  also have "(2::nat) ^ 32 = 2 ^ ((32 - bits) + bits)" using assms by simp
  also have "\<dots> = 2 ^ (32 - bits) * 2 ^ bits" by (simp only: power_add)
  finally have "unat x div 2 ^ (32 - bits) < 2 ^ bits"
    by (simp add: less_mult_imp_div_less mult.commute)
  then show ?thesis by (simp only: unat_drop_bit_div)
qed

lemma hash3_less: "bits \<le> 32 \<Longrightarrow> crush_hash3_bits inp i bits < 2 ^ bits"
  unfolding crush_hash3_bits_def Let_def by (rule drop_bit_less)

definition prev_ok :: "nat \<Rightarrow> workmem \<Rightarrow> nat \<Rightarrow> bool" where
  "prev_ok n w i \<longleftrightarrow> w (le_prev n i) = NO_MATCH_POS \<or> w (le_prev n i) < i"

lemma leparse_build_props:
  assumes "\<forall>j<i. prev_ok n w j" "\<forall>h<2 ^ bits. w (le_lookup n h) = NO_MATCH_POS \<or> w (le_lookup n h) < i"
    "bits \<le> 32" "lmp < n"
  shows "\<forall>j\<le>lmp. prev_ok n (leparse_build inp bits n lmp w i) j"
  using assms
proof (induction inp bits n lmp w i rule: leparse_build.induct)
  case (1 inp bits n lmp w i)
  show ?case
  proof (cases "i \<le> lmp")
    case False
    then have "leparse_build inp bits n lmp w i = w" by (subst leparse_build.simps) simp
    with False "1.prems"(1) show ?thesis by simp
  next
    case True
    define hash where "hash = crush_hash3_bits inp i bits"
    define w1 where "w1 = w(le_prev n i := w (le_lookup n hash))"
    define w2 where "w2 = w1(le_lookup n hash := i)"
    have e: "leparse_build inp bits n lmp w i = leparse_build inp bits n lmp w2 (i + 1)"
      using True by (subst leparse_build.simps) (simp add: Let_def hash_def w1_def w2_def)
    have h: "hash < 2 ^ bits" unfolding hash_def by (rule hash3_less [OF "1.prems"(3)])
    have i: "i < n" using True "1.prems"(4) by simp
    have a: "\<forall>j<i + 1. prev_ok n w2 j"
    proof (intro allI impI)
      fix j assume "j < i + 1"
      then consider "j < i" | "j = i" by linarith
      then show "prev_ok n w2 j"
      proof cases
        case 1
        with "1.prems"(1) i show ?thesis
          by (simp add: prev_ok_def w2_def w1_def le_layout)
      next
        case 2
        with "1.prems"(2) [rule_format, OF h] i show ?thesis
          by (simp add: prev_ok_def w2_def w1_def le_layout)
      qed
    qed
    have b: "\<forall>h<2 ^ bits. w2 (le_lookup n h) = NO_MATCH_POS \<or> w2 (le_lookup n h) < i + 1"
      using "1.prems"(2) i by (auto simp: w2_def w1_def le_layout)
    show ?thesis unfolding e
      using "1.IH" [OF True hash_def w1_def w2_def a b "1.prems"(3,4)] .
  qed
qed

text \<open>
  What the parse of crush_leparse.h keeps in \<open>workmem\<close>: \<open>le_node_ok inp n w i\<close> says that
  \<open>mlen[i]\<close> and \<open>mpos[i]\<close> are a literal or a match that the source has at \<open>i\<close>, and that
  \<open>cost[i]\<close> is its cost plus the cost stored where it ends, at most 9 bits per byte left.
  \<open>le_inv inp n w a b\<close>: this holds from position \<open>a\<close> on, \<open>cost[n]\<close> is 0, and below \<open>b\<close> the
  hash chains in \<open>prev\<close> lead to earlier positions or end.
\<close>

definition le_tok :: "byte list \<Rightarrow> nat \<Rightarrow> workmem \<Rightarrow> nat \<Rightarrow> ptoken" where
  "le_tok inp n w i = (if w (le_mlen n i) = 1 then PLit (inp ! i)
      else PMatch (w (le_mlen n i)) (i - w (le_mpos n i)))"

definition le_match_ok :: "byte list \<Rightarrow> nat \<Rightarrow> nat \<Rightarrow> nat \<Rightarrow> nat \<Rightarrow> bool" where
  "le_match_ok inp n i p L \<longleftrightarrow> MIN_MATCH \<le> L \<and> L \<le> MAX_MATCH \<and> p < i \<and> i - p \<le> W_SIZE
      \<and> i + L \<le> n \<and> (\<forall>k<L. inp ! (p + k) = inp ! (i + k))"

definition le_node_ok :: "byte list \<Rightarrow> nat \<Rightarrow> workmem \<Rightarrow> nat \<Rightarrow> bool" where
  "le_node_ok inp n w i \<longleftrightarrow>
     (w (le_mlen n i) = 1 \<or> le_match_ok inp n i (w (le_mpos n i)) (w (le_mlen n i)))
     \<and> i + w (le_mlen n i) \<le> n
     \<and> w (le_cost n i) = ptoken_cost (le_tok inp n w i) + w (le_cost n (i + w (le_mlen n i)))
     \<and> w (le_cost n i) \<le> 9 * (n - i)"

definition le_inv :: "byte list \<Rightarrow> nat \<Rightarrow> workmem \<Rightarrow> nat \<Rightarrow> nat \<Rightarrow> bool" where
  "le_inv inp n w a b \<longleftrightarrow> (\<forall>i. a \<le> i \<and> i < n \<longrightarrow> le_node_ok inp n w i)
      \<and> w (le_cost n n) = 0 \<and> (\<forall>i<b. prev_ok n w i)"

lemma le_inv_weaken: "le_inv inp n w a b \<Longrightarrow> a \<le> a' \<Longrightarrow> b' \<le> b \<Longrightarrow> le_inv inp n w a' b'"
  by (simp add: le_inv_def)

lemma le_store_other:
  assumes "1 \<le> c" "c < n" "j \<noteq> c"
  shows "j \<le> n \<Longrightarrow> le_store n w c x p l (le_cost n j) = w (le_cost n j)"
    and "j < n \<Longrightarrow> le_store n w c x p l (le_mpos n j) = w (le_mpos n j)"
    and "j < n \<Longrightarrow> le_store n w c x p l (le_mlen n j) = w (le_mlen n j)"
  using assms by (simp_all add: le_store_def le_layout)

lemma le_store_same:
  assumes "1 \<le> c" "c < n"
  shows "le_store n w c x p l (le_cost n c) = x"
    and "le_store n w c x p l (le_mpos n c) = p"
    and "le_store n w c x p l (le_mlen n c) = l"
  using assms by (simp_all add: le_store_def le_layout)

lemma le_node_ok_cong:
  assumes "le_node_ok inp n w i"
    "w' (le_mlen n i) = w (le_mlen n i)" "w' (le_mpos n i) = w (le_mpos n i)"
    "w' (le_cost n i) = w (le_cost n i)"
    "\<And>j. i < j \<Longrightarrow> j \<le> n \<Longrightarrow> w' (le_cost n j) = w (le_cost n j)"
  shows "le_node_ok inp n w' i"
proof -
  have L: "i + w (le_mlen n i) \<le> n" using assms(1) by (simp add: le_node_ok_def)
  have "0 < w (le_mlen n i)" using assms(1) by (auto simp: le_node_ok_def le_match_ok_def MIN_MATCH_def)
  with L have "w' (le_cost n (i + w (le_mlen n i))) = w (le_cost n (i + w (le_mlen n i)))"
    by (intro assms(5)) simp_all
  with assms(1-4) show ?thesis by (simp add: le_node_ok_def le_tok_def)
qed

lemma le_node_ok_store:
  assumes "le_node_ok inp n w i" "1 \<le> c" "c < i" "i < n"
  shows "le_node_ok inp n (le_store n w c x p l) i"
  using assms by (intro le_node_ok_cong [OF assms(1)] le_store_other) simp_all

lemma le_node_ok_new:
  assumes "le_match_ok inp n c p l" "1 \<le> c" "c < n"
    "x = crush_match_cost (c - p - 1) l + w (le_cost n (c + l))" "x \<le> 9 * (n - c)"
  shows "le_node_ok inp n (le_store n w c x p l) c"
proof -
  have l: "l \<noteq> 1" "c + l \<le> n" "c + l \<noteq> c" using assms(1) by (simp_all add: le_match_ok_def MIN_MATCH_def)
  have "le_store n w c x p l (le_cost n (c + l)) = w (le_cost n (c + l))"
    using l assms(2,3) by (intro le_store_other) simp_all
  then show ?thesis using assms l
    by (simp add: le_node_ok_def le_tok_def le_store_same)
qed

lemma prev_ok_store:
  assumes "prev_ok n w j" "1 \<le> c" "c < n" "j < c"
  shows "prev_ok n (le_store n w c x p l) j"
  using assms by (simp add: prev_ok_def le_store_def le_layout)

lemma le_inv_store:
  assumes "le_inv inp n w (c + 1) c" "le_match_ok inp n c p l" "1 \<le> c" "c < n"
    "x = crush_match_cost (c - p - 1) l + w (le_cost n (c + l))" "x \<le> 9 * (n - c)"
  shows "le_inv inp n (le_store n w c x p l) c c"
proof -
  have "le_node_ok inp n (le_store n w c x p l) i" if "c \<le> i" "i < n" for i
  proof (cases "i = c")
    case True
    then show ?thesis using assms(2-6) by (simp add: le_node_ok_new)
  next
    case False
    with that have "c < i" by simp
    moreover from this that assms(1) have "le_node_ok inp n w i" by (simp add: le_inv_def)
    ultimately show ?thesis using that assms(3) by (intro le_node_ok_store) simp_all
  qed
  moreover have "le_store n w c x p l (le_cost n n) = 0"
    using assms(1,3,4) by (simp add: le_inv_def le_store_def le_layout)
  moreover have "prev_ok n (le_store n w c x p l) j" if "j < c" for j
    using assms(1,3,4) that by (intro prev_ok_store) (simp_all add: le_inv_def)
  ultimately show ?thesis by (simp add: le_inv_def)
qed



lemma le_inv_node: "le_inv inp n w a b \<Longrightarrow> a \<le> i \<Longrightarrow> i < n \<Longrightarrow> le_node_ok inp n w i"
  by (simp add: le_inv_def)

lemma le_node_ok_bound: "le_node_ok inp n w i \<Longrightarrow> w (le_cost n i) \<le> 9 * (n - i)"
  unfolding le_node_ok_def by (elim conjE)

lemma le_inv_bound:
  assumes "le_inv inp n w a b" "a \<le> i" "i \<le> n"
  shows "w (le_cost n i) \<le> 9 * (n - i)"
proof (cases "i = n")
  case True
  with assms(1) show ?thesis by (simp add: le_inv_def)
next
  case False
  with assms(3) have "i < n" by simp
  from le_node_ok_bound [OF le_inv_node [OF assms(1,2) this]] show ?thesis .
qed

lemma leparse_min_cost_props:
  assumes "leparse_min_cost n w cur pos len i mc ml = (mc', ml')"
  shows "(mc' = mc \<and> ml' = ml) \<or> (i \<le> ml' \<and> ml' \<le> len
     \<and> mc' = crush_match_cost (ulong_sub (ulong_sub cur pos) 1) ml' + w (le_cost n (cur + ml')))"
  using assms
proof (induction n w cur pos len i mc ml rule: leparse_min_cost.induct)
  case (1 n w cur pos len i min_cost min_cost_len)
  define ch where "ch = crush_match_cost (ulong_sub (ulong_sub cur pos) 1) i + w (le_cost n (cur + i))"
  show ?case
  proof (cases "i \<le> len")
    case False
    with "1.prems" show ?thesis by (subst (asm) leparse_min_cost.simps) simp
  next
    case True
    show ?thesis
    proof (cases "ch < min_cost")
      case c: True
      have "leparse_min_cost n w cur pos len (i + 1) ch i = (mc', ml')"
        using "1.prems" True c by (subst (asm) leparse_min_cost.simps) (simp add: Let_def ch_def)
      from "1.IH"(1) [OF True refl refl c [unfolded ch_def] this [unfolded ch_def]] True
      show ?thesis by (auto simp: ch_def)
    next
      case c: False
      have "leparse_min_cost n w cur pos len (i + 1) min_cost min_cost_len = (mc', ml')"
        using "1.prems" True c by (subst (asm) leparse_min_cost.simps) (simp add: Let_def ch_def)
      from "1.IH"(2) [OF True refl refl c [unfolded ch_def] this] True
      show ?thesis by auto
    qed
  qed
qed


lemma le_match_ok_extend:
  assumes "le_match_ok inp n c p l" "0 < p" "inp ! (p - 1) = inp ! (c - 1)" "l < MAX_MATCH"
  shows "le_match_ok inp n (c - 1) (p - 1) (l + 1)"
proof -
  have h: "MIN_MATCH \<le> l" "p < c" "c - p \<le> W_SIZE" "c + l \<le> n"
    "\<And>k. k < l \<Longrightarrow> inp ! (p + k) = inp ! (c + k)"
    using assms(1) by (simp_all add: le_match_ok_def)
  have "inp ! (p - 1 + k) = inp ! (c - 1 + k)" if "k < l + 1" for k
  proof (cases k)
    case 0
    then show ?thesis using assms(3) by simp
  next
    case (Suc k')
    with that have "k' < l" by simp
    from h(5) [OF this] assms(2) h(2) Suc show ?thesis by simp
  qed
  then show ?thesis using h(1-4) assms(2,4) by (simp add: le_match_ok_def)
qed

lemma leparse_left_extend_inv:
  assumes "le_inv inp n w cur cur" "cur < n" "n < 2 ^ 64"
    "w (le_mlen n cur) = L" "w (le_mpos n cur) = pos" "MIN_MATCH \<le> L"
    "0 < pos" "inp ! (pos - 1) = inp ! (cur - 1)" "L < MAX_MATCH"
    "leparse_left_extend inp n w cur pos L = (w', cur')"
  shows "le_inv inp n w' cur' cur' \<and> 1 \<le> cur' \<and> cur' \<le> cur"
  using assms
proof (induction inp n w cur pos L rule: leparse_left_extend.induct)
  case (1 inp n w0 cur0 pos0 L0)
  define cur where "cur = cur0 - 1"
  define pos where "pos = pos0 - 1"
  define L where "L = L0 + 1"
  define ch where "ch = crush_match_cost (ulong_sub (ulong_sub cur pos) 1) L + w0 (le_cost n (cur + L))"
  define w where "w = le_store n w0 cur ch pos L"
  have node: "le_node_ok inp n w0 cur0" using "1.prems"(1,2) by (simp add: le_inv_def)
  have L1: "L0 \<noteq> 1" using "1.prems"(6) by (simp add: MIN_MATCH_def)
  from node L1 "1.prems"(4,5) have m: "le_match_ok inp n cur0 pos0 L0"
    and c0: "w0 (le_cost n cur0) = crush_match_cost (cur0 - pos0 - 1) L0 + w0 (le_cost n (cur0 + L0))"
    and b0: "w0 (le_cost n cur0) \<le> 9 * (n - cur0)"
    by (simp_all add: le_node_ok_def le_tok_def)
  have p: "pos0 < cur0" using m by (simp add: le_match_ok_def)
  have c1: "1 \<le> cur" "cur < n" "cur + 1 = cur0" "pos < cur" "cur - pos = cur0 - pos0" "cur + L = cur0 + L0"
    using p "1.prems"(2,7) by (simp_all add: cur_def pos_def L_def)
  have m': "le_match_ok inp n cur pos L"
    unfolding cur_def pos_def L_def by (rule le_match_ok_extend [OF m "1.prems"(7,8,9)])
  have "cur < 2 ^ 64" using c1(2) "1.prems"(3) by simp
  then have u: "ulong_sub (ulong_sub cur pos) 1 = cur - pos - 1"
    using c1(4) by (simp add: ulong_sub_simp)
  have ch: "ch = crush_match_cost (cur - pos - 1) L + w0 (le_cost n (cur + L))"
    by (simp only: ch_def u)
  note st = crush_match_cost_step [OF "1.prems"(6,9), of "cur0 - pos0 - 1", folded L_def]
  have "ch \<le> w0 (le_cost n cur0) + 4"
    unfolding ch c0 c1(5,6) using st by linarith
  with b0 c1(2,3) have chb: "ch \<le> 9 * (n - cur)" by simp
  have inv0: "le_inv inp n w0 (cur + 1) cur"
    by (rule le_inv_weaken [OF "1.prems"(1)]) (simp_all add: cur_def)
  have inv: "le_inv inp n w cur cur"
    unfolding w_def by (rule le_inv_store [OF inv0 m' c1(1,2) ch chb])
  show ?case
  proof (cases "pos > 0 \<and> inp ! (pos - 1) = inp ! (cur - 1) \<and> L < MAX_MATCH")
    case False
    then have "leparse_left_extend inp n w0 cur0 pos0 L0 = (w, cur)"
      by (subst leparse_left_extend.simps) (auto simp add: Let_def w_def ch_def cur_def pos_def L_def)
    with "1.prems"(10) inv c1 show ?thesis by auto
  next
    case True
    then have "leparse_left_extend inp n w0 cur0 pos0 L0 = leparse_left_extend inp n w cur pos L"
      by (subst leparse_left_extend.simps) (simp add: Let_def w_def ch_def cur_def pos_def L_def)
    with "1.prems"(10) have e: "leparse_left_extend inp n w cur pos L = (w', cur')" by simp
    have s: "w (le_mlen n cur) = L" "w (le_mpos n cur) = pos"
      using c1(1,2) by (simp_all add: w_def le_store_same)
    have L3: "MIN_MATCH \<le> L" using "1.prems"(6) by (simp add: L_def)
    from True have t: "0 < pos" "inp ! (pos - 1) = inp ! (cur - 1)" "L < MAX_MATCH" by simp_all
    note ih = "1.IH" [OF refl refl refl refl refl refl, folded cur_def pos_def L_def, folded ch_def,
        folded w_def]
    have "le_inv inp n w' cur' cur' \<and> 1 \<le> cur' \<and> cur' \<le> cur"
      by (rule ih [OF True inv c1(2) "1.prems"(3) s L3 t e])
    then show ?thesis using c1(3) by auto
  qed
qed


lemma leparse_try_inv:
  assumes inv: "le_inv inp n w cur cur" and c: "1 \<le> cur" "cur < n" and n: "n \<le> BLOCK_SIZE"
    and p: "pos < cur" and ml: "MIN_MATCH - 1 \<le> max_len"
    and ll: "len_limit \<le> n - cur" "len_limit \<le> MAX_MATCH"
    and t: "leparse_try inp n al len_limit w cur pos max_len = (w', cur', max_len', brk)"
  shows "le_inv inp n w' cur' cur' \<and> 1 \<le> cur' \<and> cur' \<le> cur \<and> MIN_MATCH - 1 \<le> max_len'
    \<and> (\<not> brk \<longrightarrow> cur' = cur)"
proof (cases "ulong_sub cur pos > W_SIZE")
  case True
  with t inv c ml show ?thesis by (simp add: leparse_try_def)
next
  case far: False
  have n64: "n < 2 ^ 64" using n by (simp add: BLOCK_SIZE_def)
  then have c64: "cur < 2 ^ 64" using c(2) by simp
  have u: "ulong_sub cur pos = cur - pos" "ulong_sub (ulong_sub cur pos) 1 = cur - pos - 1"
    using p c64 by (simp_all add: ulong_sub_simp)
  have w: "cur - pos \<le> W_SIZE" using far by (simp add: u)
  define len where "len = (if max_len < len_limit \<and> inp ! (pos + max_len) = inp ! (cur + max_len)
                   then match_len inp pos cur len_limit 0 else 0)"
  show ?thesis
  proof (cases "len > max_len")
    case False
    with t far inv c ml show ?thesis by (simp add: leparse_try_def Let_def len_def split: if_splits)
  next
    case long: True
    then have lm: "len = match_len inp pos cur len_limit 0" by (simp add: len_def split: if_splits)
    from match_len_props [of 0 len_limit inp pos cur]
    have lp: "len \<le> len_limit" "\<And>k. k < len \<Longrightarrow> inp ! (pos + k) = inp ! (cur + k)"
      by (simp_all add: lm)
    obtain mc mcl where
      mc: "leparse_min_cost n w cur pos len (max_len + 1) ULONG_MAX (MIN_MATCH - 1) = (mc, mcl)"
      by (cases "leparse_min_cost n w cur pos len (max_len + 1) ULONG_MAX (MIN_MATCH - 1)") auto
    have ml': "MIN_MATCH - 1 \<le> len" using long ml by simp
    show ?thesis
    proof (cases "mc < w (le_cost n cur)")
      case False
      with t far long mc inv c ml' show ?thesis
        by (simp add: leparse_try_def Let_def len_def [symmetric])
    next
      case cheaper: True
      have nb: "w (le_cost n cur) \<le> 9 * (n - cur)" using c by (intro le_inv_bound [OF inv]) simp_all
      also have "\<dots> < ULONG_MAX" using n by (simp add: BLOCK_SIZE_def ULONG_MAX_def)
      finally have "mc \<noteq> ULONG_MAX" using cheaper by simp
      with leparse_min_cost_props [OF mc, unfolded u(2)]
      have m: "max_len + 1 \<le> mcl" "mcl \<le> len"
        "mc = crush_match_cost (cur - pos - 1) mcl + w (le_cost n (cur + mcl))"
        by auto
      have mok: "le_match_ok inp n cur pos mcl"
        using m(1,2) ml lp ll w p by (auto simp add: le_match_ok_def MIN_MATCH_def)
      define w1 where "w1 = le_store n w cur mc pos mcl"
      have mcb: "mc \<le> 9 * (n - cur)" using cheaper nb by simp
      have inv0: "le_inv inp n w (cur + 1) cur" by (rule le_inv_weaken [OF inv]) simp_all
      have inv1: "le_inv inp n w1 cur cur"
        unfolding w1_def by (rule le_inv_store [OF inv0 mok c m(3) mcb])
      show ?thesis
      proof (cases "pos > 0 \<and> inp ! (pos - 1) = inp ! (cur - 1) \<and> mcl < MAX_MATCH")
        case False
        have "leparse_try inp n al len_limit w cur pos max_len
            = (w1, cur, len, len \<ge> al \<or> len = len_limit)"
          using far long mc cheaper False
          by (auto simp add: leparse_try_def Let_def len_def [symmetric] w1_def [symmetric])
        with t inv1 c ml' show ?thesis by auto
      next
        case True
        obtain w2 cur2 where le: "leparse_left_extend inp n w1 cur pos mcl = (w2, cur2)"
          by (cases "leparse_left_extend inp n w1 cur pos mcl") auto
        have "leparse_try inp n al len_limit w cur pos max_len = (w2, cur2, len, True)"
          using far long mc cheaper True le
          by (simp add: leparse_try_def Let_def len_def [symmetric] w1_def [symmetric])
        with t have e: "w' = w2" "cur' = cur2" "max_len' = len" "brk" by simp_all
        have s: "w1 (le_mlen n cur) = mcl" "w1 (le_mpos n cur) = pos"
          using c by (simp_all add: w1_def le_store_same)
        have m3: "MIN_MATCH \<le> mcl" using mok by (simp add: le_match_ok_def)
        from True have tt: "0 < pos" "inp ! (pos - 1) = inp ! (cur - 1)" "mcl < MAX_MATCH" by simp_all
        from leparse_left_extend_inv [OF inv1 c(2) n64 s m3 tt le] e ml'
        show ?thesis by simp
      qed
    qed
  qed
qed

lemma le_inv_literal:
  assumes "le_inv inp n w (c + 1) c" "c + 1 \<le> n" 
  shows "le_inv inp n (w(le_cost n c := w (le_cost n (c + 1)) + 9, le_mlen n c := 1)) c c"
proof -
  define w' where "w' = w(le_cost n c := w (le_cost n (c + 1)) + 9, le_mlen n c := 1)"
  have r: "w' (le_cost n c) = w (le_cost n (c + 1)) + 9" "w' (le_mlen n c) = 1"
    "\<And>j. j \<noteq> c \<Longrightarrow> j \<le> n \<Longrightarrow> w' (le_cost n j) = w (le_cost n j)"
    "\<And>j. j \<noteq> c \<Longrightarrow> j < n \<Longrightarrow> w' (le_mlen n j) = w (le_mlen n j)"
    "\<And>j. j < n \<Longrightarrow> w' (le_mpos n j) = w (le_mpos n j)"
    using assms(2) by (simp_all add: w'_def le_layout)
  have b: "w (le_cost n (c + 1)) \<le> 9 * (n - (c + 1))"
    using assms(2) by (intro le_inv_bound [OF assms(1)]) simp_all
  have "le_node_ok inp n w' i" if "c \<le> i" "i < n" for i
  proof (cases "i = c")
    case True
    then show ?thesis using r(1,2) r(3) [of "c + 1"] b assms(2) that
      by (simp add: le_node_ok_def le_tok_def)
  next
    case False
    with that have ci: "c + 1 \<le> i" by simp
    show ?thesis
      by (rule le_node_ok_cong [OF le_inv_node [OF assms(1) ci that(2)]])
         (use that False ci in \<open>simp_all add: r\<close>)
  qed
  moreover have "w' (le_cost n n) = 0" using assms by (simp add: r le_inv_def)
  moreover have "prev_ok n w' j" if "j < c" for j
    using assms(1,2) that r(3) [of j] by (simp add: le_inv_def prev_ok_def le_layout)
  ultimately show ?thesis unfolding w'_def [symmetric] by (simp add: le_inv_def)
qed

lemma leparse_chain_inv:
  assumes "le_inv inp n w cur cur" "1 \<le> cur" "cur < n" "n \<le> BLOCK_SIZE"
    "pos = NO_MATCH_POS \<or> pos < cur" "MIN_MATCH - 1 \<le> max_len"
    "len_limit \<le> n - cur" "len_limit \<le> MAX_MATCH"
    "leparse_chain inp n al len_limit w cur pos max_len nc = (w', cur')"
  shows "le_inv inp n w' cur' cur' \<and> 1 \<le> cur' \<and> cur' \<le> cur"
  using assms
proof (induction inp n al len_limit w cur pos max_len nc rule: leparse_chain.induct)
  case (1 inp n al len_limit w cur pos max_len nc)
  show ?case
  proof (cases "pos \<noteq> NO_MATCH_POS \<and> nc \<noteq> 0")
    case False
    then have "leparse_chain inp n al len_limit w cur pos max_len nc = (w, cur)"
      by (subst leparse_chain.simps) auto
    with "1.prems" show ?thesis by simp
  next
    case True
    with "1.prems"(5) have p: "pos < cur" by simp
    obtain w1 cur1 ml1 brk where
      t: "leparse_try inp n al len_limit w cur pos max_len = (w1, cur1, ml1, brk)"
      by (cases "leparse_try inp n al len_limit w cur pos max_len") auto
    note ti = leparse_try_inv [OF "1.prems"(1-4) p "1.prems"(6-8) t]
    show ?thesis
    proof (cases brk)
      case True
      with \<open>pos \<noteq> NO_MATCH_POS \<and> nc \<noteq> 0\<close> t
      have "leparse_chain inp n al len_limit w cur pos max_len nc = (w1, cur1)"
        by (subst leparse_chain.simps) simp
      with "1.prems"(9) ti show ?thesis by simp
    next
      case False
      with True t
      have "leparse_chain inp n al len_limit w cur pos max_len nc
          = leparse_chain inp n al len_limit w1 cur1 (w1 (le_prev n pos)) ml1 (nc - 1)"
        by (subst leparse_chain.simps) simp
      with "1.prems"(9)
      have e: "leparse_chain inp n al len_limit w1 cur1 (w1 (le_prev n pos)) ml1 (nc - 1) = (w', cur')"
        by simp
      from ti False have c1: "cur1 = cur" by simp
      from ti p c1 have "prev_ok n w1 pos" by (simp add: le_inv_def)
      with p c1 have np: "w1 (le_prev n pos) = NO_MATCH_POS \<or> w1 (le_prev n pos) < cur1"
        by (auto simp: prev_ok_def)
      from ti c1 "1.prems"(2,3,7)
      have a: "le_inv inp n w1 cur1 cur1" "1 \<le> cur1" "cur1 < n" "MIN_MATCH - 1 \<le> ml1"
        "len_limit \<le> n - cur1" by simp_all
      from "1.IH" [OF True t [symmetric] refl refl False a(1-3) "1.prems"(4) np a(4,5) "1.prems"(8) e] c1
      show ?thesis by simp
    qed
  qed
qed

lemma leparse_parse_inv:
  assumes "le_inv inp n w (cur + 1) (cur + 1)" "cur + 2 < n" "n \<le> BLOCK_SIZE"
  shows "le_inv inp n (leparse_parse inp n md al w cur) 1 1"
  using assms
proof (induction inp n md al w cur rule: leparse_parse.induct)
  case (1 inp n md al w0 cur)
  show ?case
  proof (cases "cur > 0")
    case False
    then have "leparse_parse inp n md al w0 cur = w0" by (subst leparse_parse.simps) simp
    with False "1.prems"(1) show ?thesis by simp
  next
    case True
    define pos where "pos = w0 (le_prev n cur)"
    define w where "w = w0(le_cost n cur := w0 (le_cost n (cur + 1)) + 9, le_mlen n cur := 1)"
    define len_limit where "len_limit = (if n - cur > MAX_MATCH then MAX_MATCH else n - cur)"
    obtain w' cur' where ch: "leparse_chain inp n al len_limit w cur pos (MIN_MATCH - 1) md = (w', cur')"
      by (cases "leparse_chain inp n al len_limit w cur pos (MIN_MATCH - 1) md") auto
    have e: "leparse_parse inp n md al w0 cur = leparse_parse inp n md al w' (cur' - 1)"
      using True ch by (subst leparse_parse.simps) (simp add: Let_def pos_def w_def len_limit_def)
    have "prev_ok n w0 cur" using "1.prems"(1) by (simp add: le_inv_def)
    then have p: "pos = NO_MATCH_POS \<or> pos < cur" by (simp add: prev_ok_def pos_def)
    have inv0: "le_inv inp n w0 (cur + 1) cur" by (rule le_inv_weaken [OF "1.prems"(1)]) simp_all
    have inv: "le_inv inp n w cur cur"
      unfolding w_def using "1.prems"(2) by (intro le_inv_literal [OF inv0]) simp
    have ll: "len_limit \<le> n - cur" "len_limit \<le> MAX_MATCH" by (simp_all add: len_limit_def)
    from leparse_chain_inv [OF inv _ _ "1.prems"(3) p _ ll ch] True "1.prems"(2)
    have r: "le_inv inp n w' cur' cur'" "1 \<le> cur'" "cur' \<le> cur" by simp_all
    have a: "le_inv inp n w' (cur' - 1 + 1) (cur' - 1 + 1)" "cur' - 1 + 2 < n"
      using r "1.prems"(2) by simp_all
    note ih = "1.IH" [OF True refl refl refl refl refl refl, folded pos_def,
        unfolded fun_upd_def [symmetric], folded w_def len_limit_def, OF ch [symmetric] a "1.prems"(3)]
    show ?thesis unfolding e by (rule ih)
  qed
qed

lemma emit_ptokens_Cons: "emit_ptokens le lbw (t # ts) = emit_ptokens le (emit_ptoken le lbw t) ts"
  by (simp add: emit_ptokens_def)

lemma encode_ptokens_Nil: "encode_ptokens le [] = []"
  by (simp add: encode_ptokens_def emit_ptokens_def lbw_finalize.simps lbw_init_def)

lemma leparse_emit_tokens:
  assumes "\<forall>i. 1 \<le> i \<and> i < n \<longrightarrow> le_node_ok inp n w i" "w (le_cost n n) = 0"
    "n = length inp" "n < 2 ^ 64" "1 \<le> i" "i \<le> n"
  shows "\<exists>ts. leparse_emit inp n w lbw i = Some (emit_ptokens True lbw ts) \<and> ptokens_ok inp i ts
     \<and> sum_list (map ptoken_cost ts) = w (le_cost n i)"
  using assms(5,6)
proof (induction "n - i" arbitrary: i lbw rule: less_induct)
  case less
  show ?case
  proof (cases "i < n")
    case False
    with less.prems have "i = n" by simp
    then have "leparse_emit inp n w lbw i = Some (emit_ptokens True lbw [])"
      by (subst leparse_emit.simps) (simp add: emit_ptokens_def)
    with \<open>i = n\<close> assms(2,3) show ?thesis by (intro exI [of _ "[]"]) simp
  next
    case True
    define L where "L = w (le_mlen n i)"
    define p where "p = w (le_mpos n i)"
    have node: "le_node_ok inp n w i" using assms(1) less.prems True by simp
    then have iL: "i + L \<le> n" and c: "w (le_cost n i) = ptoken_cost (le_tok inp n w i) + w (le_cost n (i + L))"
      and m: "L = 1 \<or> le_match_ok inp n i p L"
      by (simp_all add: le_node_ok_def L_def p_def)
    show ?thesis
    proof (cases "L = 1")
      case L1: True
      have e: "leparse_emit inp n w lbw i = leparse_emit inp n w (emit_literal lbw (inp ! i)) (i + 1)"
        using True L1 by (subst leparse_emit.simps) (simp add: L_def)
      have "n - (i + 1) < n - i" "1 \<le> i + 1" "i + 1 \<le> n" using True by simp_all
      from less.hyps [OF this, of "emit_literal lbw (inp ! i)"]
      obtain ts where ts: "leparse_emit inp n w (emit_literal lbw (inp ! i)) (i + 1)
            = Some (emit_ptokens True (emit_literal lbw (inp ! i)) ts)"
        "ptokens_ok inp (i + 1) ts" "sum_list (map ptoken_cost ts) = w (le_cost n (i + 1))"
        by auto
      have "le_tok inp n w i = PLit (inp ! i)" using L1 by (simp add: le_tok_def L_def)
      with c L1 have c': "w (le_cost n i) = 9 + w (le_cost n (i + 1))" by simp
      show ?thesis
        using ts True assms(3) c' unfolding e
        by (intro exI [of _ "PLit (inp ! i) # ts"]) (simp add: emit_ptokens_Cons)
    next
      case Ln: False
      with m have mo: "le_match_ok inp n i p L" by simp
      then have h: "MIN_MATCH \<le> L" "L \<le> MAX_MATCH" "p < i" "i - p \<le> W_SIZE"
        "\<And>k. k < L \<Longrightarrow> inp ! (p + k) = inp ! (i + k)" by (simp_all add: le_match_ok_def)
      have "i < 2 ^ 64" using True assms(4) by simp
      then have u: "ulong_sub (ulong_sub i p) 1 = i - p - 1" using h(3) by (simp add: ulong_sub_simp)
      have e: "leparse_emit inp n w lbw i
            = leparse_emit inp n w (leparse_emit_match lbw (i - p - 1) L) (i + L)"
        using True Ln by (subst leparse_emit.simps) (simp only: Let_def L_def [symmetric] p_def [symmetric] u if_True if_False)
      have "n - (i + L) < n - i" using True h(1) by (simp add: MIN_MATCH_def)
      from less.hyps [OF this _ iL, of "leparse_emit_match lbw (i - p - 1) L"] less.prems(1)
      obtain ts where ts: "leparse_emit inp n w (leparse_emit_match lbw (i - p - 1) L) (i + L)
            = Some (emit_ptokens True (leparse_emit_match lbw (i - p - 1) L) ts)"
        "ptokens_ok inp (i + L) ts" "sum_list (map ptoken_cost ts) = w (le_cost n (i + L))"
        by auto
      have "le_tok inp n w i = PMatch L (i - p)" using Ln by (simp add: le_tok_def L_def p_def)
      with c have c': "w (le_cost n i) = crush_match_cost (i - p - 1) L + w (le_cost n (i + L))" by simp
      have d: "inp ! (i + k) = inp ! (i + k - (i - p))" if "k < L" for k
      proof -
        have "i + k - (i - p) = p + k" using h(3) by simp
        with h(5) [OF that] show ?thesis by simp
      qed
      have ok: "ptokens_ok inp i (PMatch L (i - p) # ts)"
        using h(1-4) iL assms(3) d ts(2) by simp
      show ?thesis
        using ts(1,3) c' ok unfolding e
        by (intro exI [of _ "PMatch L (i - p) # ts"]) (simp add: emit_ptokens_Cons)
    qed
  qed
qed

lemma literals_loop_tokens:
  assumes "n = length inp" "i \<le> n"
  shows "literals_loop inp lbw i n = emit_ptokens le lbw (map PLit (drop i inp))
    \<and> ptokens_ok inp i (map PLit (drop i inp))
    \<and> sum_list (map ptoken_cost (map PLit (drop i inp))) = 9 * (n - i)"
  using assms(2)
proof (induction "n - i" arbitrary: i lbw rule: less_induct)
  case less
  show ?case
  proof (cases "i < n")
    case False
    with less.prems assms(1) show ?thesis
      by (subst literals_loop.simps) (simp add: emit_ptokens_def)
  next
    case True
    then have d: "drop i inp = inp ! i # drop (i + 1) inp"
      using assms(1) by (simp add: Cons_nth_drop_Suc)
    have e: "literals_loop inp lbw i n = literals_loop inp (emit_literal lbw (inp ! i)) (i + 1) n"
      using True by (subst literals_loop.simps) simp
    have "n - (i + 1) < n - i" "i + 1 \<le> n" using True by simp_all
    from less.hyps [OF this, of "emit_literal lbw (inp ! i)"]
    have ih: "literals_loop inp (emit_literal lbw (inp ! i)) (i + 1) n
        = emit_ptokens le (emit_literal lbw (inp ! i)) (map PLit (drop (i + 1) inp))"
      "ptokens_ok inp (i + 1) (map PLit (drop (i + 1) inp))"
      "sum_list (map ptoken_cost (map PLit (drop (i + 1) inp))) = 9 * (n - (i + 1))"
      by simp_all
    show ?thesis unfolding e d using ih True assms(1)
      by (simp add: emit_ptokens_Cons)
  qed
qed


lemma leparse_bits_le:
  assumes "0 < n" "n \<le> BLOCK_SIZE"
  shows "leparse_bits n \<le> 32"
proof -
  have "n < 2 ^ 27" using assms(2) by (simp add: BLOCK_SIZE_def)
  from crush_log2_less [OF assms(1) this] show ?thesis
    by (simp add: leparse_bits_def CRUSH_HASH_BITS_def)
qed

lemma leparse_start_inv:
  assumes "\<forall>j\<le>n - 3. prev_ok n w j" "4 \<le> n"
  shows "le_inv inp n (w(le_mlen n (n - 2) := 1, le_mlen n (n - 1) := 1, le_cost n (n - 2) := 18,
            le_cost n (n - 1) := 9, le_cost n n := 0)) (n - 3 + 1) (n - 3 + 1)"
proof -
  define w' where "w' = w(le_mlen n (n - 2) := 1, le_mlen n (n - 1) := 1, le_cost n (n - 2) := 18,
            le_cost n (n - 1) := 9, le_cost n n := 0)"
  have r: "w' (le_mlen n (n - 2)) = 1" "w' (le_mlen n (n - 1)) = 1" "w' (le_cost n (n - 2)) = 18"
    "w' (le_cost n (n - 1)) = 9" "w' (le_cost n n) = 0"
    "\<And>j. j \<le> n - 3 \<Longrightarrow> w' (le_prev n j) = w (le_prev n j)"
    using assms(2) by (auto simp add: w'_def le_layout)
  have "le_node_ok inp n w' i" if "n - 3 + 1 \<le> i" "i < n" for i
  proof -
    from that assms(2) consider "i = n - 2" | "i = n - 1" by linarith
    then show ?thesis
    proof cases
      case 1
      then have "i + 1 = n - 1" using assms(2) by simp
      with 1 r assms(2) show ?thesis by (simp add: le_node_ok_def le_tok_def)
    next
      case 2
      then have "i + 1 = n" using assms(2) by simp
      with 2 r assms(2) show ?thesis by (simp add: le_node_ok_def le_tok_def)
    qed
  qed
  moreover have "prev_ok n w' j" if "j < n - 3 + 1" for j
    using that assms(1) r(6) [of j] by (simp add: prev_ok_def)
  ultimately show ?thesis unfolding w'_def [symmetric] using r(5) by (simp add: le_inv_def)
qed

lemma crush_pack_leparse_tokens:
  assumes "length inp \<le> BLOCK_SIZE"
  shows "\<exists>ts. crush_pack_leparse inp w0 md al = Some (encode_ptokens True ts) \<and> ptokens_ok inp 0 ts
     \<and> sum_list (map ptoken_cost ts) \<le> 9 * length inp"
proof -
  define n where "n = length inp"
  consider "n = 0" | "0 < n" "n < 4" | "4 \<le> n" by linarith
  then show ?thesis
  proof cases
    case 1
    then show ?thesis
      by (intro exI [of _ "[]"]) (simp add: crush_pack_leparse_def n_def encode_ptokens_Nil)
  next
    case 2
    from literals_loop_tokens [of n inp 0 lbw_init True] 2
    show ?thesis
      by (intro exI [of _ "map PLit inp"])
         (simp add: crush_pack_leparse_def n_def [symmetric] Let_def encode_ptokens_def)
  next
    case 3
    define bits where "bits = leparse_bits n"
    define w1 where "w1 = fill w0 (le_lookup n 0) 0 (2 ^ bits) NO_MATCH_POS"
    define w2 where "w2 = leparse_build inp bits n (n - 3) w1 0"
    define w7 where "w7 = w2(le_mlen n (n - 2) := 1, le_mlen n (n - 1) := 1, le_cost n (n - 2) := 18,
            le_cost n (n - 1) := 9, le_cost n n := 0)"
    define w8 where "w8 = leparse_parse inp n md al w7 (n - 3)"
    define w10 where "w10 = w8(le_mpos n 0 := 0, le_mlen n 0 := 1)"
    have lm: "3 < n" "n \<noteq> 0" "\<not> n < 4" "0 < n - 3" using 3 by simp_all
    have e: "crush_pack_leparse inp w0 md al = map_option lbw_finalize (leparse_emit inp n w10 lbw_init 0)"
      unfolding crush_pack_leparse_def Let_def n_def [symmetric] w10_def w8_def w7_def w2_def w1_def bits_def
      by (simp only: lm if_True if_False)
    have nB: "n \<le> BLOCK_SIZE" using assms by (simp add: n_def)
    have b32: "bits \<le> 32" unfolding bits_def using 3 nB by (intro leparse_bits_le) simp_all
    have l1: "\<forall>h<2 ^ bits. w1 (le_lookup n h) = NO_MATCH_POS \<or> w1 (le_lookup n h) < 0"
      by (simp add: w1_def fill_closed le_layout)
    have "\<forall>j\<le>n - 3. prev_ok n w2 j"
      unfolding w2_def using 3 by (intro leparse_build_props l1 b32) simp_all
    from leparse_start_inv [OF this 3]
    have i7: "le_inv inp n w7 (n - 3 + 1) (n - 3 + 1)" by (simp only: w7_def)
    have i8: "le_inv inp n w8 1 1"
      unfolding w8_def using 3 nB by (intro leparse_parse_inv [OF i7]) simp_all
    have r: "w10 (le_mlen n 0) = 1" "w10 (le_cost n n) = 0"
      "\<And>j. 1 \<le> j \<Longrightarrow> j < n \<Longrightarrow> w10 (le_mlen n j) = w8 (le_mlen n j)"
      "\<And>j. 1 \<le> j \<Longrightarrow> j < n \<Longrightarrow> w10 (le_mpos n j) = w8 (le_mpos n j)"
      "\<And>j. j \<le> n \<Longrightarrow> w10 (le_cost n j) = w8 (le_cost n j)"
      using 3 i8 by (auto simp add: w10_def le_layout le_inv_def)
    have nodes: "\<forall>i. 1 \<le> i \<and> i < n \<longrightarrow> le_node_ok inp n w10 i"
    proof (intro allI impI)
      fix i assume i: "1 \<le> i \<and> i < n"
      then have "le_node_ok inp n w8 i" using i8 by (simp add: le_inv_def)
      then show "le_node_ok inp n w10 i" by (rule le_node_ok_cong) (use i in \<open>simp_all add: r\<close>)
    qed
    have n64: "n < 2 ^ 64" using nB by (simp add: BLOCK_SIZE_def)
    from leparse_emit_tokens [OF nodes r(2) n_def n64, of 1 "emit_literal lbw_init (inp ! 0)"] 3
    obtain ts where ts: "leparse_emit inp n w10 (emit_literal lbw_init (inp ! 0)) 1
          = Some (emit_ptokens True (emit_literal lbw_init (inp ! 0)) ts)"
      "ptokens_ok inp 1 ts" "sum_list (map ptoken_cost ts) = w10 (le_cost n 1)"
      by auto
    have "leparse_emit inp n w10 lbw_init 0 = leparse_emit inp n w10 (emit_literal lbw_init (inp ! 0)) 1"
      using 3 r(1) by (subst leparse_emit.simps) simp
    with ts(1) have e2: "crush_pack_leparse inp w0 md al = Some (encode_ptokens True (PLit (inp ! 0) # ts))"
      by (simp add: e encode_ptokens_def emit_ptokens_Cons)
    have "w8 (le_cost n 1) \<le> 9 * (n - 1)" using 3 by (intro le_inv_bound [OF i8]) simp_all
    then have c: "sum_list (map ptoken_cost (PLit (inp ! 0) # ts)) \<le> 9 * n"
      using ts(3) r(5) [of 1] 3 by simp
    have ok: "ptokens_ok inp 0 (PLit (inp ! 0) # ts)" using ts(2) 3 by (auto simp add: n_def)
    show ?thesis using e2 c ok unfolding n_def by blast
  qed
qed


section \<open>The parse of crush_btparse.h is a parse of the source\<close>

text \<open>
  What the forwards parse of crush_btparse.h keeps in \<open>workmem\<close>. \<open>bt_arr_ok inp n w j\<close>: the
  token stored for the arrival at position \<open>j\<close>, \<open>mlen[j]\<close> and \<open>mpos[j]\<close>, is a literal or a match
  that the source has before \<open>j\<close>, and \<open>cost[j]\<close> is its cost plus the cost stored where it
  starts. \<open>bt_dp inp n w c r\<close>: \<open>cost[0]\<close> is 0, the positions up to \<open>r\<close> cost at most 9 bits per
  byte, and every position either has not been reached (cost \<open>UINT32_MAX\<close>, beyond \<open>r\<close>) or
  holds such a token that starts at or before \<open>c\<close>.
\<close>

definition bt_tok :: "byte list \<Rightarrow> nat \<Rightarrow> workmem \<Rightarrow> nat \<Rightarrow> ptoken" where
  "bt_tok inp n w j = (if w (bt_mlen n j) = 1 then PLit (inp ! (j - 1))
      else PMatch (w (bt_mlen n j)) (w (bt_mpos n j) + 1))"

definition bt_match_ok :: "byte list \<Rightarrow> nat \<Rightarrow> nat \<Rightarrow> nat \<Rightarrow> bool" where
  "bt_match_ok inp j L offs \<longleftrightarrow> MIN_MATCH \<le> L \<and> L \<le> MAX_MATCH \<and> L \<le> j \<and> 1 \<le> offs
      \<and> offs \<le> W_SIZE \<and> offs \<le> j - L \<and> (\<forall>k<L. inp ! (j - L + k) = inp ! (j - L + k - offs))"

definition bt_arr_ok :: "byte list \<Rightarrow> nat \<Rightarrow> workmem \<Rightarrow> nat \<Rightarrow> bool" where
  "bt_arr_ok inp n w j \<longleftrightarrow>
     (w (bt_mlen n j) = 1 \<or> bt_match_ok inp j (w (bt_mlen n j)) (w (bt_mpos n j) + 1))
     \<and> w (bt_mlen n j) \<le> j
     \<and> w (bt_cost n j) = w (bt_cost n (j - w (bt_mlen n j))) + ptoken_cost (bt_tok inp n w j)"

definition bt_dp :: "byte list \<Rightarrow> nat \<Rightarrow> workmem \<Rightarrow> nat \<Rightarrow> nat \<Rightarrow> bool" where
  "bt_dp inp n w c r \<longleftrightarrow> w (bt_cost n 0) = 0 \<and> (\<forall>j\<le>r. w (bt_cost n j) \<le> 9 * j)
     \<and> (\<forall>j. 1 \<le> j \<and> j \<le> n \<longrightarrow>
           (w (bt_cost n j) = UINT32_MAX \<and> w (bt_mlen n j) = 1 \<and> r < j)
         \<or> (bt_arr_ok inp n w j \<and> j - w (bt_mlen n j) \<le> c))"

definition same_dp :: "nat \<Rightarrow> workmem \<Rightarrow> workmem \<Rightarrow> bool" where
  "same_dp n w w' \<longleftrightarrow> (\<forall>j\<le>n. w' (bt_cost n j) = w (bt_cost n j) \<and> w' (bt_mpos n j) = w (bt_mpos n j)
      \<and> w' (bt_mlen n j) = w (bt_mlen n j))"

definition same_nodes :: "nat \<Rightarrow> workmem \<Rightarrow> workmem \<Rightarrow> bool" where
  "same_nodes n w w' \<longleftrightarrow> (\<forall>k<2 * n. w' (bt_nodes n k) = w (bt_nodes n k))
      \<and> (\<forall>h<LOOKUP_SIZE. w' (bt_lookup n h) = w (bt_lookup n h))"

lemma same_dp_refl [simp]: "same_dp n w w"
  by (simp add: same_dp_def)

lemma same_nodes_refl [simp]: "same_nodes n w w"
  by (simp add: same_nodes_def)

lemma same_dp_trans: "same_dp n w w' \<Longrightarrow> same_dp n w' w'' \<Longrightarrow> same_dp n w w''"
  by (simp add: same_dp_def)

lemma same_nodes_trans: "same_nodes n w w' \<Longrightarrow> same_nodes n w' w'' \<Longrightarrow> same_nodes n w w''"
  by (simp add: same_nodes_def)

lemma bt_arr_ok_cong:
  assumes "same_dp n w w'" "j \<le> n"
  shows "bt_arr_ok inp n w' j = bt_arr_ok inp n w j"
proof -
  have "j - x \<le> n" for x using assms(2) by simp
  with assms show ?thesis by (simp add: bt_arr_ok_def bt_tok_def same_dp_def)
qed

lemma bt_dp_cong:
  assumes "same_dp n w w'" "r \<le> n"
  shows "bt_dp inp n w' c r = bt_dp inp n w c r"
proof -
  have a: "w' (bt_cost n j) = w (bt_cost n j)" "w' (bt_mlen n j) = w (bt_mlen n j)" if "j \<le> n" for j
    using assms(1) that by (simp_all add: same_dp_def)
  have b: "(\<forall>j\<le>r. w' (bt_cost n j) \<le> 9 * j) = (\<forall>j\<le>r. w (bt_cost n j) \<le> 9 * j)"
    using a(1) assms(2) by (metis le_trans)
  show ?thesis unfolding bt_dp_def b
    using a bt_arr_ok_cong [OF assms(1)] by (simp cong: conj_cong imp_cong)
qed

lemma same_dp_nodes_upd: "k < 2 * n \<Longrightarrow> same_dp n w (w(bt_nodes n k := v))"
  by (simp add: same_dp_def bt_layout)

lemma same_dp_lookup_upd: "same_dp n w (w(bt_lookup n h := v))"
  by (simp add: same_dp_def bt_layout)

lemma same_nodes_dp_upd:
  "j \<le> n \<Longrightarrow> same_nodes n w (w(bt_cost n j := a, bt_mpos n j := b, bt_mlen n j := c))"
  "j \<le> n \<Longrightarrow> same_nodes n w (w(bt_cost n j := a, bt_mlen n j := c))"
  by (simp_all add: same_nodes_def bt_layout)


lemma bt_arr_ok_frame:
  assumes "bt_arr_ok inp n w j" "w' (bt_mlen n j) = w (bt_mlen n j)" "w' (bt_mpos n j) = w (bt_mpos n j)"
    "w' (bt_cost n j) = w (bt_cost n j)"
    "w' (bt_cost n (j - w (bt_mlen n j))) = w (bt_cost n (j - w (bt_mlen n j)))"
  shows "bt_arr_ok inp n w' j"
  using assms by (simp add: bt_arr_ok_def bt_tok_def)

lemma bt_dp_store:
  assumes dp: "bt_dp inp n w c r" and t: "c < t" "t \<le> n" "r \<le> n"
    and fr: "\<And>j. j \<le> n \<Longrightarrow> j \<noteq> t \<Longrightarrow> w' (bt_cost n j) = w (bt_cost n j)
        \<and> w' (bt_mpos n j) = w (bt_mpos n j) \<and> w' (bt_mlen n j) = w (bt_mlen n j)"
    and new: "bt_arr_ok inp n w' t" "t - w' (bt_mlen n t) \<le> c" "t \<le> r \<longrightarrow> w' (bt_cost n t) \<le> 9 * t"
  shows "bt_dp inp n w' c r"
proof -
  have c0: "w' (bt_cost n 0) = 0" using dp t fr [of 0] by (simp add: bt_dp_def)
  have b: "w' (bt_cost n j) \<le> 9 * j" if "j \<le> r" for j
  proof (cases "j = t")
    case True
    with new(3) that show ?thesis by simp
  next
    case False
    have "w (bt_cost n j) \<le> 9 * j" using dp that by (simp add: bt_dp_def)
    moreover have "w' (bt_cost n j) = w (bt_cost n j)" using fr [of j] False that t(3) by simp
    ultimately show ?thesis by simp
  qed
  have nd: "(w' (bt_cost n j) = UINT32_MAX \<and> w' (bt_mlen n j) = 1 \<and> r < j)
         \<or> (bt_arr_ok inp n w' j \<and> j - w' (bt_mlen n j) \<le> c)" if j: "1 \<le> j" "j \<le> n" for j
  proof (cases "j = t")
    case True
    with new(1,2) show ?thesis by simp
  next
    case False
    note f = fr [OF j(2) False]
    from dp j consider "w (bt_cost n j) = UINT32_MAX \<and> w (bt_mlen n j) = 1 \<and> r < j"
      | "bt_arr_ok inp n w j \<and> j - w (bt_mlen n j) \<le> c" by (auto simp: bt_dp_def)
    then show ?thesis
    proof cases
      case 1
      with f show ?thesis by simp
    next
      case 2
      then have "j - w (bt_mlen n j) \<noteq> t" "j - w (bt_mlen n j) \<le> n" using t(1) j(2) by simp_all
      from fr [OF this(2,1)] have "bt_arr_ok inp n w' j"
        using f by (intro bt_arr_ok_frame [OF 2 [THEN conjunct1]]) simp_all
      with 2 f show ?thesis by simp
    qed
  qed
  show ?thesis unfolding bt_dp_def using c0 b nd by blast
qed

lemma bt_dp_bound: "bt_dp inp n w c r \<Longrightarrow> j \<le> r \<Longrightarrow> w (bt_cost n j) \<le> 9 * j"
  by (simp add: bt_dp_def)

lemma bt_dp_node:
  "bt_dp inp n w c r \<Longrightarrow> 1 \<le> j \<Longrightarrow> j \<le> n \<Longrightarrow>
     (w (bt_cost n j) = UINT32_MAX \<and> w (bt_mlen n j) = 1 \<and> r < j)
     \<or> (bt_arr_ok inp n w j \<and> j - w (bt_mlen n j) \<le> c)"
  by (simp add: bt_dp_def)

lemma bt_dp_weaken: "bt_dp inp n w c r \<Longrightarrow> c \<le> c' \<Longrightarrow> bt_dp inp n w c' r"
  unfolding bt_dp_def by (meson le_trans)

lemma btparse_literal_dp:
  assumes dp: "bt_dp inp n w cur cur" and c: "cur < n" and n: "n \<le> BLOCK_SIZE"
  shows "bt_dp inp n (btparse_literal n w cur) cur (cur + 1)"
    and "same_nodes n w (btparse_literal n w cur)"
proof -
  define x where "x = w (bt_cost n cur) + 9"
  have cb: "w (bt_cost n cur) \<le> 9 * cur" by (rule bt_dp_bound [OF dp]) simp
  then have xm: "x mod 2 ^ 32 = x" "x \<le> 9 * Suc cur" "x < UINT32_MAX"
    using c n by (simp_all add: x_def BLOCK_SIZE_def UINT32_MAX_def)
  define w' where "w' = btparse_literal n w cur"
  show "same_nodes n w (btparse_literal n w cur)"
    using c by (simp add: btparse_literal_def same_nodes_dp_upd)
  have r1: "bt_dp inp n w' cur cur \<and> bt_arr_ok inp n w' (Suc cur) \<and> Suc cur - w' (bt_mlen n (Suc cur)) \<le> cur
      \<and> w' (bt_cost n (Suc cur)) \<le> 9 * (Suc cur)"
  proof (cases "w (bt_cost n (Suc cur)) > x")
    case True
    then have w': "w' = w(bt_cost n (Suc cur) := x, bt_mlen n (Suc cur) := 1)"
      unfolding w'_def btparse_literal_def x_def [symmetric] xm(1) by simp
    have rd: "w' (bt_cost n (Suc cur)) = x" "w' (bt_mlen n (Suc cur)) = 1"
      "w' (bt_cost n cur) = w (bt_cost n cur)"
      using c by (simp_all add: w' bt_layout)
    have fr: "w' (bt_cost n j) = w (bt_cost n j) \<and> w' (bt_mpos n j) = w (bt_mpos n j)
        \<and> w' (bt_mlen n j) = w (bt_mlen n j)" if "j \<le> n" "j \<noteq> Suc cur" for j
      using that c by (auto simp add: w' bt_layout)
    have ok: "bt_arr_ok inp n w' (Suc cur)"
      unfolding bt_arr_ok_def bt_tok_def rd(1,2) by (simp add: x_def rd(3))
    have "bt_dp inp n w' cur cur"
      using c by (intro bt_dp_store [OF dp _ _ _ fr ok]) (simp_all add: rd)
    with ok rd xm show ?thesis by simp
  next
    case False
    then have w': "w' = w" unfolding w'_def btparse_literal_def x_def [symmetric] xm(1) by simp
    from False xm have lt: "w (bt_cost n (Suc cur)) \<noteq> UINT32_MAX" "w (bt_cost n (Suc cur)) \<le> 9 * (Suc cur)"
      by simp_all
    from bt_dp_node [OF dp, of "Suc cur"] c lt(1)
    have "bt_arr_ok inp n w (Suc cur) \<and> Suc cur - w (bt_mlen n (Suc cur)) \<le> cur" by simp
    with dp lt(2) show ?thesis by (simp add: w')
  qed
  have "bt_dp inp n w' cur (Suc cur)"
    unfolding bt_dp_def
  proof (intro conjI allI impI)
    show "w' (bt_cost n 0) = 0" using r1 by (simp add: bt_dp_def)
    show "w' (bt_cost n j) \<le> 9 * j" if "j \<le> Suc cur" for j
      using that r1 by (cases "j = Suc cur") (simp_all add: bt_dp_def)
    show "(w' (bt_cost n j) = UINT32_MAX \<and> w' (bt_mlen n j) = 1 \<and> Suc cur < j)
        \<or> (bt_arr_ok inp n w' j \<and> j - w' (bt_mlen n j) \<le> cur)" if "1 \<le> j \<and> j \<le> n" for j
    proof (cases "j = Suc cur")
      case True
      with r1 show ?thesis by simp
    next
      case False
      from r1 that have "(w' (bt_cost n j) = UINT32_MAX \<and> w' (bt_mlen n j) = 1 \<and> cur < j)
        \<or> (bt_arr_ok inp n w' j \<and> j - w' (bt_mlen n j) \<le> cur)" by (simp add: bt_dp_def)
      with False show ?thesis by auto
    qed
  qed
  then show "bt_dp inp n (btparse_literal n w cur) cur (cur + 1)" by (simp add: w'_def)
qed

lemma btparse_costs_dp:
  assumes "bt_dp inp n w cur (Suc cur)" "pos < cur" "cur - pos \<le> W_SIZE" "MIN_MATCH \<le> i"
    "len \<le> MAX_MATCH" "cur + len \<le> n" "\<forall>k<len. inp ! (pos + k) = inp ! (cur + k)"
    "n \<le> BLOCK_SIZE"
  shows "bt_dp inp n (btparse_costs n w cur pos len i) cur (Suc cur)
     \<and> same_nodes n w (btparse_costs n w cur pos len i)"
  using assms
proof (induction n w cur pos len i rule: btparse_costs.induct)
  case (1 n w cur pos len i)
  show ?case
  proof (cases "i \<le> len")
    case False
    then have "btparse_costs n w cur pos len i = w" by (subst btparse_costs.simps) simp
    with "1.prems"(1) show ?thesis by simp
  next
    case True
    have c64: "cur < 2 ^ 64" using "1.prems"(6,8) by (simp add: BLOCK_SIZE_def)
    have u: "ulong_sub (ulong_sub cur pos) 1 = cur - pos - 1"
      using "1.prems"(2) c64 by (simp add: ulong_sub_simp)
    define mc where "mc = crush_match_cost (cur - pos - 1) i"
    define ct where "ct = w (bt_cost n cur) + mc"
    have mcb: "mc \<le> 39" unfolding mc_def using "1.prems"(2,3) by (intro crush_match_cost_le) simp
    have cb: "w (bt_cost n cur) \<le> 9 * cur" by (rule bt_dp_bound [OF "1.prems"(1)]) simp
    have m: "ct mod 2 ^ 32 = ct" "(cur - pos - 1) mod 2 ^ 32 = cur - pos - 1" "i mod 2 ^ 32 = i"
      using cb mcb "1.prems"(6,8) True by (simp_all add: ct_def BLOCK_SIZE_def)
    define w' where "w' = w(bt_cost n (cur + i) := ct, bt_mpos n (cur + i) := cur - pos - 1,
        bt_mlen n (cur + i) := i)"
    have i3: "3 \<le> i" using "1.prems"(4) by (simp add: MIN_MATCH_def)
    have t: "cur + i \<le> n" using True "1.prems"(6) by simp
    have nx: "Suc len - (i + 1) < Suc len - i" using True by simp
    show ?thesis
    proof (cases "ct < w (bt_cost n (cur + i))")
      case False
      then have e: "btparse_costs n w cur pos len i = btparse_costs n w cur pos len (i + 1)"
        using True by (subst btparse_costs.simps) (simp only: Let_def u mc_def [symmetric] ct_def [symmetric] if_True if_False)
      have i1: "MIN_MATCH \<le> i + 1" using "1.prems"(4) by simp
      note ih = "1.IH"(2) [OF True refl refl, unfolded u, folded mc_def, folded ct_def]
      from ih [OF False "1.prems"(1-3) i1 "1.prems"(5-8)]
      show ?thesis unfolding e .
    next
      case lt: True
      then have e: "btparse_costs n w cur pos len i = btparse_costs n w' cur pos len (i + 1)"
        using True by (subst btparse_costs.simps)
          (simp only: Let_def u mc_def [symmetric] ct_def [symmetric] if_True m w'_def)
      have rd: "w' (bt_cost n (cur + i)) = ct" "w' (bt_mpos n (cur + i)) = cur - pos - 1"
        "w' (bt_mlen n (cur + i)) = i" "w' (bt_cost n cur) = w (bt_cost n cur)"
        using t i3 by (simp_all add: w'_def bt_layout)
      have fr: "w' (bt_cost n j) = w (bt_cost n j) \<and> w' (bt_mpos n j) = w (bt_mpos n j)
        \<and> w' (bt_mlen n j) = w (bt_mlen n j)" if "j \<le> n" "j \<noteq> cur + i" for j
        using that t by (auto simp add: w'_def bt_layout)
      have o1: "cur - pos - 1 + 1 = cur - pos" using "1.prems"(2) by simp
      have d: "inp ! (cur + i - i + k) = inp ! (cur + i - i + k - (cur - pos))" if "k < i" for k
      proof -
        have "cur + i - i + k - (cur - pos) = pos + k" using "1.prems"(2) by simp
        moreover have "inp ! (pos + k) = inp ! (cur + k)" using "1.prems"(7) that True by simp
        ultimately show ?thesis by simp
      qed
      have mo: "bt_match_ok inp (cur + i) i (cur - pos - 1 + 1)"
        unfolding bt_match_ok_def o1 using "1.prems"(2-5) True d by simp
      have ok: "bt_arr_ok inp n w' (cur + i)"
        unfolding bt_arr_ok_def bt_tok_def rd(1-3) using mo i3 by (simp add: rd(4) ct_def mc_def)
      have dp': "bt_dp inp n w' cur (Suc cur)"
        using t i3 "1.prems"(6) by (intro bt_dp_store [OF "1.prems"(1) _ _ _ fr ok]) (simp_all add: rd)
      have sn: "same_nodes n w w'" unfolding w'_def by (rule same_nodes_dp_upd(1) [OF t])
      have i1: "MIN_MATCH \<le> i + 1" using "1.prems"(4) by simp
      note ih = "1.IH"(1) [OF True refl refl, unfolded u, folded mc_def, folded ct_def, unfolded m,
          folded w'_def]
      from ih [OF lt dp' "1.prems"(2,3) i1 "1.prems"(5-8)]
      have "bt_dp inp n (btparse_costs n w' cur pos len (i + 1)) cur (Suc cur)
        \<and> same_nodes n w' (btparse_costs n w' cur pos len (i + 1))" .
      with sn show ?thesis unfolding e by (auto intro: same_nodes_trans)
    qed
  qed
qed

text \<open>
  The order the binary trees keep. \<open>agree inp x p k\<close>: the strings at \<open>x\<close> and \<open>p\<close> have the same
  first \<open>k\<close> bytes; \<open>lex_lt inp h x p\<close>: they differ within the first \<open>h\<close> bytes and the string at
  \<open>x\<close> is the smaller one there; \<open>lex_le\<close> and \<open>lex_ge\<close> compare the prefixes of \<open>h\<close> bytes.
\<close>

definition agree :: "byte list \<Rightarrow> nat \<Rightarrow> nat \<Rightarrow> nat \<Rightarrow> bool" where
  "agree inp x p k \<longleftrightarrow> (\<forall>j<k. inp ! (x + j) = inp ! (p + j))"

definition lex_lt :: "byte list \<Rightarrow> nat \<Rightarrow> nat \<Rightarrow> nat \<Rightarrow> bool" where
  "lex_lt inp h x p \<longleftrightarrow> (\<exists>k<h. agree inp x p k \<and> unat (inp ! (x + k)) < unat (inp ! (p + k)))"

definition lex_le :: "byte list \<Rightarrow> nat \<Rightarrow> nat \<Rightarrow> nat \<Rightarrow> bool" where
  "lex_le inp h x p \<longleftrightarrow> agree inp x p h \<or> lex_lt inp h x p"

definition lex_ge :: "byte list \<Rightarrow> nat \<Rightarrow> nat \<Rightarrow> nat \<Rightarrow> bool" where
  "lex_ge inp h x p \<longleftrightarrow> agree inp x p h \<or> lex_lt inp h p x"

lemma agree_sym: "agree inp x p k \<Longrightarrow> agree inp p x k"
  by (simp add: agree_def)

lemma agree_trans: "agree inp x p k \<Longrightarrow> agree inp p c k \<Longrightarrow> agree inp x c k"
  by (simp add: agree_def)

lemma agree_mono: "agree inp x p k \<Longrightarrow> k' \<le> k \<Longrightarrow> agree inp x p k'"
  by (simp add: agree_def)

lemma agree_nth: "agree inp x p k \<Longrightarrow> j < k \<Longrightarrow> inp ! (x + j) = inp ! (p + j)"
  by (simp add: agree_def)

lemma lex_lt_mono_agree:
  assumes "lex_lt inp h x p" "h' \<le> h"
  shows "agree inp x p h' \<or> lex_lt inp h' x p"
proof -
  from assms(1) obtain k where k: "k < h" "agree inp x p k" "unat (inp ! (x + k)) < unat (inp ! (p + k))"
    by (auto simp: lex_lt_def)
  show ?thesis
  proof (cases "k < h'")
    case True
    with k show ?thesis by (auto simp: lex_lt_def)
  next
    case False
    with k(2) show ?thesis by (auto simp: agree_def)
  qed
qed

lemma lex_le_mono: "lex_le inp h x p \<Longrightarrow> h' \<le> h \<Longrightarrow> lex_le inp h' x p"
  unfolding lex_le_def using lex_lt_mono_agree agree_mono by blast

lemma lex_ge_mono: "lex_ge inp h x p \<Longrightarrow> h' \<le> h \<Longrightarrow> lex_ge inp h' x p"
  unfolding lex_ge_def using lex_lt_mono_agree agree_mono agree_sym by blast

lemma lex_lt_agree_right:
  assumes "lex_lt inp h x p" "agree inp p c h"
  shows "lex_lt inp h x c"
proof -
  from assms(1) obtain k where k: "k < h" "agree inp x p k" "unat (inp ! (x + k)) < unat (inp ! (p + k))"
    by (auto simp: lex_lt_def)
  have "agree inp x c k" using k(1,2) assms(2) by (auto simp: agree_def)
  moreover have "inp ! (p + k) = inp ! (c + k)" using assms(2) k(1) by (rule agree_nth)
  ultimately show ?thesis using k by (auto simp: lex_lt_def)
qed

lemma lex_lt_agree_left:
  assumes "lex_lt inp h p x" "agree inp p c h"
  shows "lex_lt inp h c x"
proof -
  from assms(1) obtain k where k: "k < h" "agree inp p x k" "unat (inp ! (p + k)) < unat (inp ! (x + k))"
    by (auto simp: lex_lt_def)
  have "agree inp c x k" using k(1,2) assms(2) by (auto simp: agree_def)
  moreover have "inp ! (p + k) = inp ! (c + k)" using assms(2) k(1) by (rule agree_nth)
  ultimately show ?thesis using k by (auto simp: lex_lt_def)
qed

lemma lex_le_agree: "lex_le inp h x p \<Longrightarrow> agree inp p c h \<Longrightarrow> lex_le inp h x c"
  unfolding lex_le_def using lex_lt_agree_right agree_trans by blast

lemma lex_ge_agree: "lex_ge inp h x p \<Longrightarrow> agree inp p c h \<Longrightarrow> lex_ge inp h x c"
  unfolding lex_ge_def using lex_lt_agree_left agree_trans by blast

text \<open>\<open>y \<le> x\<close> up to \<open>h\<close> and \<open>x < c\<close> at index \<open>l\<close>: then \<open>y < c\<close> at an index up to \<open>l\<close>.\<close>

lemma lex_le_lt:
  assumes "lex_le inp h y x" "agree inp x c l" "unat (inp ! (x + l)) < unat (inp ! (c + l))"
    "l < h" "l < h'"
  shows "lex_lt inp h' y c"
proof -
  from assms(1) consider "agree inp y x h"
    | k where "k < h" "agree inp y x k" "unat (inp ! (y + k)) < unat (inp ! (x + k))"
    by (auto simp: lex_le_def lex_lt_def)
  then show ?thesis
  proof cases
    case 1
    then have "agree inp y c l" "inp ! (y + l) = inp ! (x + l)"
      using assms(2,4) by (auto simp: agree_def)
    with assms(3,5) show ?thesis by (auto simp: lex_lt_def)
  next
    case 2
    consider "k < l" | "k = l" | "l < k" by linarith
    then show ?thesis
    proof cases
      case 1
      then have "agree inp y c k" "inp ! (x + k) = inp ! (c + k)"
        using 2(2) assms(2) by (auto simp: agree_def)
      with 2(3) 1 assms(5) show ?thesis unfolding lex_lt_def by (intro exI [of _ k]) simp
    next
      case 2
      with \<open>agree inp y x k\<close> assms(2) have "agree inp y c l" by (auto simp: agree_def)
      with \<open>unat (inp ! (y + k)) < unat (inp ! (x + k))\<close> 2 assms(3,5) show ?thesis
        unfolding lex_lt_def by (intro exI [of _ l]) simp
    next
      case 3
      then have "agree inp y c l" "inp ! (y + l) = inp ! (x + l)"
        using 2(2) assms(2) by (auto simp: agree_def)
      with assms(3,5) show ?thesis by (auto simp: lex_lt_def)
    qed
  qed
qed

lemma lex_ge_gt:
  assumes "lex_ge inp h y x" "agree inp x c l" "unat (inp ! (c + l)) < unat (inp ! (x + l))"
    "l < h" "l < h'"
  shows "lex_lt inp h' c y"
proof -
  from assms(1) consider "agree inp y x h"
    | k where "k < h" "agree inp x y k" "unat (inp ! (x + k)) < unat (inp ! (y + k))"
    by (auto simp: lex_ge_def lex_lt_def)
  then show ?thesis
  proof cases
    case 1
    then have "agree inp c y l" "inp ! (y + l) = inp ! (x + l)"
      using assms(2,4) by (auto simp: agree_def)
    with assms(3,5) show ?thesis by (auto simp: lex_lt_def)
  next
    case 2
    consider "k < l" | "k = l" | "l < k" by linarith
    then show ?thesis
    proof cases
      case 1
      then have "agree inp c y k" "inp ! (x + k) = inp ! (c + k)"
        using 2(2) assms(2) by (auto simp: agree_def)
      with 2(3) 1 assms(5) show ?thesis unfolding lex_lt_def by (intro exI [of _ k]) simp
    next
      case 2
      with \<open>agree inp x y k\<close> assms(2) have "agree inp c y l" by (auto simp: agree_def)
      with \<open>unat (inp ! (x + k)) < unat (inp ! (y + k))\<close> 2 assms(3,5) show ?thesis
        unfolding lex_lt_def by (intro exI [of _ l]) simp
    next
      case 3
      then have "agree inp c y l" "inp ! (x + l) = inp ! (y + l)"
        using 2(2) assms(2) by (auto simp: agree_def)
      with assms(3,5) show ?thesis by (auto simp: lex_lt_def)
    qed
  qed
qed

text \<open>The bounds of the walk after a step to the right of \<open>x\<close>, and to the left.\<close>

lemma walk_bound_right:
  assumes "lex_ge inp h y x" "agree inp x c l" "unat (inp ! (x + l)) < unat (inp ! (c + l))"
    "l < h" "l < h'"
  shows "agree inp y c l \<or> lex_lt inp h' c y"
proof -
  from assms(1) consider "agree inp y x h"
    | k where "k < h" "agree inp x y k" "unat (inp ! (x + k)) < unat (inp ! (y + k))"
    by (auto simp: lex_ge_def lex_lt_def)
  then show ?thesis
  proof cases
    case 1
    with assms(2,4) show ?thesis by (auto simp: agree_def)
  next
    case 2
    show ?thesis
    proof (cases "k < l")
      case True
      then have "agree inp c y k" "inp ! (x + k) = inp ! (c + k)"
        using 2(2) assms(2) by (auto simp: agree_def)
      with 2(3) True assms(5) have "lex_lt inp h' c y" unfolding lex_lt_def by (intro exI [of _ k]) simp
      then show ?thesis ..
    next
      case False
      with 2(2) assms(2) show ?thesis by (auto simp: agree_def)
    qed
  qed
qed

lemma walk_bound_left:
  assumes "lex_le inp h y x" "agree inp x c l" "unat (inp ! (c + l)) < unat (inp ! (x + l))"
    "l < h" "l < h'"
  shows "agree inp y c l \<or> lex_lt inp h' y c"
proof -
  from assms(1) consider "agree inp y x h"
    | k where "k < h" "agree inp y x k" "unat (inp ! (y + k)) < unat (inp ! (x + k))"
    by (auto simp: lex_le_def lex_lt_def)
  then show ?thesis
  proof cases
    case 1
    with assms(2,4) show ?thesis by (auto simp: agree_def)
  next
    case 2
    show ?thesis
    proof (cases "k < l")
      case True
      then have "agree inp y c k" "inp ! (x + k) = inp ! (c + k)"
        using 2(2) assms(2) by (auto simp: agree_def)
      with 2(3) True assms(5) have "lex_lt inp h' y c" unfolding lex_lt_def by (intro exI [of _ k]) simp
      then show ?thesis ..
    next
      case False
      with 2(2) assms(2) show ?thesis by (auto simp: agree_def)
    qed
  qed
qed

lemma lex_lt_asym: "lex_lt inp h x p \<Longrightarrow> lex_lt inp h p x \<Longrightarrow> False"
proof -
  assume "lex_lt inp h x p" "lex_lt inp h p x"
  then obtain k k' where k: "agree inp x p k" "unat (inp ! (x + k)) < unat (inp ! (p + k))"
    and k': "agree inp p x k'" "unat (inp ! (p + k')) < unat (inp ! (x + k'))"
    by (auto simp: lex_lt_def)
  consider "k < k'" | "k = k'" | "k' < k" by linarith
  then show False
  proof cases
    case 1
    from agree_nth [OF k'(1) 1] k(2) show False by simp
  next
    case 2
    with k(2) k'(2) show False by simp
  next
    case 3
    from agree_nth [OF k(1) 3] k'(2) show False by simp
  qed
qed

lemma walk_sandwich:
  assumes "agree inp y c a \<or> lex_lt inp h c y" "agree inp y c b \<or> lex_lt inp h y c"
  shows "agree inp y c (min a b)"
  using assms lex_lt_asym [of inp h c y] by (auto simp: agree_def)

text \<open>
  \<open>bt_reach n w v y\<close>: node \<open>y\<close> is in the tree below \<open>v\<close>, following the two words
  \<open>nodes[2 * v]\<close> and \<open>nodes[2 * v + 1]\<close> of every node. \<open>bt_heap\<close>: the children of a node are
  older positions or \<open>NO_MATCH_POS\<close>. \<open>bt_tree\<close>: below the left word of a node \<open>p\<close> are strings
  not greater than that at \<open>p\<close>, below the right word strings not smaller, compared up to
  \<open>horizon n al p\<close>, the length to which the search at \<open>p\<close> compared at least. \<open>bt_shrink\<close>: every
  word of the nodes holds a node that was below it before.
\<close>

inductive bt_reach :: "nat \<Rightarrow> workmem \<Rightarrow> nat \<Rightarrow> nat \<Rightarrow> bool" for n w where
  self: "v < n \<Longrightarrow> bt_reach n w v v"
| left: "v < n \<Longrightarrow> bt_reach n w (w (bt_nodes n (2 * v))) y \<Longrightarrow> bt_reach n w v y"
| right: "v < n \<Longrightarrow> bt_reach n w (w (bt_nodes n (2 * v + 1))) y \<Longrightarrow> bt_reach n w v y"

definition bt_slot_ok :: "nat \<Rightarrow> workmem \<Rightarrow> nat \<Rightarrow> bool" where
  "bt_slot_ok n w k \<longleftrightarrow> w (bt_nodes n k) = NO_MATCH_POS \<or> w (bt_nodes n k) < k div 2"

definition bt_heap :: "nat \<Rightarrow> workmem \<Rightarrow> nat \<Rightarrow> bool" where
  "bt_heap n w m \<longleftrightarrow> (\<forall>k<2 * m. bt_slot_ok n w k)"

definition horizon :: "nat \<Rightarrow> nat \<Rightarrow> nat \<Rightarrow> nat" where
  "horizon n al p = min al (min MAX_MATCH (n - p))"

definition bt_tree :: "byte list \<Rightarrow> nat \<Rightarrow> nat \<Rightarrow> workmem \<Rightarrow> nat \<Rightarrow> bool" where
  "bt_tree inp n al w m \<longleftrightarrow> (\<forall>p<m.
      (\<forall>y. bt_reach n w (w (bt_nodes n (2 * p))) y \<longrightarrow> lex_le inp (horizon n al p) y p)
    \<and> (\<forall>y. bt_reach n w (w (bt_nodes n (2 * p + 1))) y \<longrightarrow> lex_ge inp (horizon n al p) y p))"

definition bt_shrink :: "nat \<Rightarrow> workmem \<Rightarrow> workmem \<Rightarrow> nat \<Rightarrow> bool" where
  "bt_shrink n w w' m \<longleftrightarrow>
     (\<forall>k<2 * m. w' (bt_nodes n k) < n \<longrightarrow> bt_reach n w (w (bt_nodes n k)) (w' (bt_nodes n k)))"

lemma bt_reach_less: "bt_reach n w v y \<Longrightarrow> v < n \<and> y < n"
  by (induction rule: bt_reach.induct) auto

lemma bt_reach_trans: "bt_reach n w a b \<Longrightarrow> bt_reach n w b c \<Longrightarrow> bt_reach n w a c"
  by (induction rule: bt_reach.induct) (auto intro: bt_reach.intros)

lemma bt_reach_cong:
  assumes "same_nodes n w w'" "bt_reach n w v y"
  shows "bt_reach n w' v y"
  using assms(2)
proof (induction rule: bt_reach.induct)
  case (self v)
  then show ?case by (rule bt_reach.self)
next
  case (left v y)
  have "w' (bt_nodes n (2 * v)) = w (bt_nodes n (2 * v))" using assms(1) left(1) by (simp add: same_nodes_def)
  with left show ?case by (auto intro: bt_reach.left)
next
  case (right v y)
  have "w' (bt_nodes n (2 * v + 1)) = w (bt_nodes n (2 * v + 1))"
    using assms(1) right(1) by (simp add: same_nodes_def)
  with right show ?case by (auto intro: bt_reach.right)
qed

lemma same_nodes_sym: "same_nodes n w w' \<Longrightarrow> same_nodes n w' w"
  by (simp add: same_nodes_def)

lemma bt_reach_cong_eq: "same_nodes n w w' \<Longrightarrow> bt_reach n w' v y = bt_reach n w v y"
  using bt_reach_cong same_nodes_sym by blast

lemma bt_reach_le:
  assumes "bt_heap n w m" "n \<le> NO_MATCH_POS" "bt_reach n w v y" "v < m"
  shows "y \<le> v"
  using assms(3,4)
proof (induction rule: bt_reach.induct)
  case (self v)
  show ?case by simp
next
  case (left v y)
  define u where "u = w (bt_nodes n (2 * v))"
  have "u < n" using left(2) bt_reach_less by (simp add: u_def)
  moreover have "bt_slot_ok n w (2 * v)" using assms(1) left(4) by (simp add: bt_heap_def)
  ultimately have "u < v" using assms(2) by (auto simp: bt_slot_ok_def u_def)
  with left(3,4) show ?case by (simp add: u_def)
next
  case (right v y)
  define u where "u = w (bt_nodes n (2 * v + 1))"
  have "u < n" using right(2) bt_reach_less by (simp add: u_def)
  moreover have "bt_slot_ok n w (2 * v + 1)" using assms(1) right(4) by (simp add: bt_heap_def)
  ultimately have "u < v" using assms(2) by (auto simp: bt_slot_ok_def u_def)
  with right(3,4) show ?case by (simp add: u_def)
qed

lemma bt_reach_upd_target:
  assumes "bt_reach n w a t"
  shows "bt_reach n (w(s := t)) a t"
  using assms
proof (induction rule: bt_reach.induct)
  case (self v)
  then show ?case by (rule bt_reach.self)
next
  case (left v y)
  have "y < n" using left(2) bt_reach_less by blast
  then have t: "bt_reach n (w(s := y)) y y" by (rule bt_reach.self)
  show ?case
  proof (cases "bt_nodes n (2 * v) = s")
    case True
    then have e: "(w(s := y)) (bt_nodes n (2 * v)) = y" by simp
    show ?thesis by (rule bt_reach.left [OF left(1)], unfold e, rule t)
  next
    case False
    then have e: "(w(s := y)) (bt_nodes n (2 * v)) = w (bt_nodes n (2 * v))" by simp
    show ?thesis by (rule bt_reach.left [OF left(1)], unfold e, rule left(3))
  qed
next
  case (right v y)
  have "y < n" using right(2) bt_reach_less by blast
  then have t: "bt_reach n (w(s := y)) y y" by (rule bt_reach.self)
  show ?case
  proof (cases "bt_nodes n (2 * v + 1) = s")
    case True
    then have e: "(w(s := y)) (bt_nodes n (2 * v + 1)) = y" by simp
    show ?thesis by (rule bt_reach.right [OF right(1)], unfold e, rule t)
  next
    case False
    then have e: "(w(s := y)) (bt_nodes n (2 * v + 1)) = w (bt_nodes n (2 * v + 1))" by simp
    show ?thesis by (rule bt_reach.right [OF right(1)], unfold e, rule right(3))
  qed
qed

lemma bt_shrink_reach:
  assumes "bt_shrink n w w' m" "bt_heap n w' m" "n \<le> NO_MATCH_POS" "bt_reach n w' v y" "v < m"
  shows "bt_reach n w v y"
  using assms(4,5)
proof (induction rule: bt_reach.induct)
  case (self v)
  then show ?case by (auto intro: bt_reach.self)
next
  case (left v y)
  define u where "u = w' (bt_nodes n (2 * v))"
  have un: "u < n" using left(2) bt_reach_less by (simp add: u_def)
  moreover have "bt_slot_ok n w' (2 * v)" using assms(2) left(4) by (simp add: bt_heap_def)
  ultimately have "u < v" using assms(3) by (auto simp: bt_slot_ok_def u_def)
  with left(3,4) have a: "bt_reach n w u y" by (simp add: u_def)
  have b: "bt_reach n w (w (bt_nodes n (2 * v))) u"
    using assms(1) left(4) un by (simp add: bt_shrink_def u_def)
  show ?case by (rule bt_reach.left [OF left(1) bt_reach_trans [OF b a]])
next
  case (right v y)
  define u where "u = w' (bt_nodes n (2 * v + 1))"
  have un: "u < n" using right(2) bt_reach_less by (simp add: u_def)
  moreover have "bt_slot_ok n w' (2 * v + 1)" using assms(2) right(4) by (simp add: bt_heap_def)
  ultimately have "u < v" using assms(3) by (auto simp: bt_slot_ok_def u_def)
  with right(3,4) have a: "bt_reach n w u y" by (simp add: u_def)
  have b: "bt_reach n w (w (bt_nodes n (2 * v + 1))) u"
    using assms(1) right(4) un by (simp add: bt_shrink_def u_def)
  show ?case by (rule bt_reach.right [OF right(1) bt_reach_trans [OF b a]])
qed

lemma bt_shrink_slot_reach:
  assumes "bt_shrink n w w' m" "bt_heap n w' m" "n \<le> NO_MATCH_POS" "k < 2 * m"
    "bt_reach n w' (w' (bt_nodes n k)) y"
  shows "bt_reach n w (w (bt_nodes n k)) y"
proof -
  define u where "u = w' (bt_nodes n k)"
  have un: "u < n" using assms(5) bt_reach_less by (simp add: u_def)
  moreover have "bt_slot_ok n w' k" using assms(2,4) by (simp add: bt_heap_def)
  ultimately have "u < k div 2" using assms(3) by (auto simp: bt_slot_ok_def u_def)
  with assms(4) have "u < m" by simp
  from bt_shrink_reach [OF assms(1-3) _ this] assms(5) have "bt_reach n w u y" by (simp add: u_def)
  moreover have "bt_reach n w (w (bt_nodes n k)) u" using assms(1,4) un by (simp add: bt_shrink_def u_def)
  ultimately show ?thesis by (rule bt_reach_trans [rotated])
qed

lemma bt_tree_shrink:
  assumes "bt_tree inp n al w m" "bt_shrink n w w' m" "bt_heap n w' m" "n \<le> NO_MATCH_POS"
  shows "bt_tree inp n al w' m"
  unfolding bt_tree_def
proof (intro allI impI conjI)
  fix p y assume p: "p < m" and r: "bt_reach n w' (w' (bt_nodes n (2 * p))) y"
  from bt_shrink_slot_reach [OF assms(2-4) _ r] p
  have "bt_reach n w (w (bt_nodes n (2 * p))) y" by simp
  with assms(1) p show "lex_le inp (horizon n al p) y p" by (simp add: bt_tree_def)
next
  fix p y assume p: "p < m" and r: "bt_reach n w' (w' (bt_nodes n (2 * p + 1))) y"
  from bt_shrink_slot_reach [OF assms(2-4) _ r] p
  have "bt_reach n w (w (bt_nodes n (2 * p + 1))) y" by simp
  with assms(1) p show "lex_ge inp (horizon n al p) y p" by (simp add: bt_tree_def)
qed

lemma bt_shrink_trans:
  assumes "bt_shrink n w w1 m" "bt_shrink n w1 w2 m" "bt_heap n w1 m" "n \<le> NO_MATCH_POS"
  shows "bt_shrink n w w2 m"
  unfolding bt_shrink_def
proof (intro allI impI)
  fix k assume k: "k < 2 * m" and v: "w2 (bt_nodes n k) < n"
  from assms(2) k v have "bt_reach n w1 (w1 (bt_nodes n k)) (w2 (bt_nodes n k))" by (simp add: bt_shrink_def)
  from bt_shrink_slot_reach [OF assms(1,3,4) k this]
  show "bt_reach n w (w (bt_nodes n k)) (w2 (bt_nodes n k))" .
qed

lemma bt_shrink_same: "same_nodes n w w' \<Longrightarrow> m \<le> n \<Longrightarrow> bt_shrink n w w' m"
  by (auto simp: bt_shrink_def same_nodes_def intro: bt_reach.self)

lemma bt_shrink_upd:
  assumes "kl < 2 * m \<Longrightarrow> t < n \<Longrightarrow> bt_reach n w (w (bt_nodes n kl)) t"
  shows "bt_shrink n w (w(bt_nodes n kl := t)) m"
  unfolding bt_shrink_def
proof (intro allI impI)
  fix k assume k: "k < 2 * m" and v: "(w(bt_nodes n kl := t)) (bt_nodes n k) < n"
  show "bt_reach n w (w (bt_nodes n k)) ((w(bt_nodes n kl := t)) (bt_nodes n k))"
  proof (cases "k = kl")
    case True
    with k v assms show ?thesis by simp
  next
    case False
    then have "bt_nodes n k \<noteq> bt_nodes n kl" by (simp add: bt_layout)
    with v show ?thesis by (auto intro: bt_reach.self)
  qed
qed

lemma bt_heap_cong: "same_nodes n w w' \<Longrightarrow> m \<le> n \<Longrightarrow> bt_heap n w m \<Longrightarrow> bt_heap n w' m"
  by (simp add: bt_heap_def bt_slot_ok_def same_nodes_def)

lemma bt_tree_cong:
  assumes "same_nodes n w w'" "m \<le> n" "bt_tree inp n al w m"
  shows "bt_tree inp n al w' m"
proof -
  have "w' (bt_nodes n (2 * p)) = w (bt_nodes n (2 * p))"
    "w' (bt_nodes n (2 * p + 1)) = w (bt_nodes n (2 * p + 1))" if "p < m" for p
    using assms(1,2) that by (simp_all add: same_nodes_def)
  with assms(3) show ?thesis
    unfolding bt_tree_def by (simp add: bt_reach_cong_eq [OF assms(1)])
qed

text \<open>
  The loop "Check matches" at position \<open>cur\<close>: \<open>bt_walk_t\<close> is what holds at its head, where
  \<open>kl\<close> and \<open>kg\<close> are the words of \<open>nodes\<close> that \<open>lt_node\<close> and \<open>gt_node\<close> address, and \<open>bt_post_t\<close>
  what holds of the workmem \<open>w'\<close> it ends with.
\<close>

definition bt_walk_t ::
  "byte list \<Rightarrow> nat \<Rightarrow> nat \<Rightarrow> nat \<Rightarrow> workmem \<Rightarrow> nat \<Rightarrow> nat \<Rightarrow> nat \<Rightarrow> nat \<Rightarrow> nat \<Rightarrow> bool" where
  "bt_walk_t inp n al cur w pos kl kg ltl gtl \<longleftrightarrow>
     bt_heap n w cur \<and> bt_tree inp n al w cur
   \<and> kl \<noteq> kg \<and> (kl = 2 * cur \<or> kl < 2 * cur) \<and> (kg = 2 * cur + 1 \<or> kg < 2 * cur)
   \<and> (kl = 2 * cur \<or> bt_slot_ok n w (2 * cur)) \<and> (kg = 2 * cur + 1 \<or> bt_slot_ok n w (2 * cur + 1))
   \<and> (pos = NO_MATCH_POS \<or> (pos < kl div 2 \<and> pos < kg div 2))
   \<and> (pos < n \<longrightarrow> kl < 2 * cur \<longrightarrow> bt_reach n w (w (bt_nodes n kl)) pos)
   \<and> (pos < n \<longrightarrow> kg < 2 * cur \<longrightarrow> bt_reach n w (w (bt_nodes n kg)) pos)
   \<and> (\<forall>y. bt_reach n w pos y \<longrightarrow>
          (agree inp y cur ltl \<or> lex_lt inp (horizon n al cur) cur y)
        \<and> (agree inp y cur gtl \<or> lex_lt inp (horizon n al cur) y cur))"

definition bt_post_t ::
  "byte list \<Rightarrow> nat \<Rightarrow> nat \<Rightarrow> nat \<Rightarrow> workmem \<Rightarrow> nat \<Rightarrow> nat \<Rightarrow> nat \<Rightarrow> workmem \<Rightarrow> bool" where
  "bt_post_t inp n al cur w pos kl kg w' \<longleftrightarrow>
     bt_heap n w' (Suc cur)
   \<and> (\<forall>k<2 * n. k \<noteq> kl \<longrightarrow> k \<noteq> kg \<longrightarrow> (pos < cur \<longrightarrow> pos < k div 2)
         \<longrightarrow> w' (bt_nodes n k) = w (bt_nodes n k))
   \<and> (\<forall>h<LOOKUP_SIZE. w' (bt_lookup n h) = w (bt_lookup n h))
   \<and> bt_shrink n w w' cur
   \<and> (\<forall>y. bt_reach n w' (w' (bt_nodes n kl)) y \<longrightarrow> lex_le inp (horizon n al cur) y cur)
   \<and> (\<forall>y. bt_reach n w' (w' (bt_nodes n kg)) y \<longrightarrow> lex_ge inp (horizon n al cur) y cur)"

lemma bt_nodes_inj [simp]: "bt_nodes n k = bt_nodes n k' \<longleftrightarrow> k = k'"
  by (simp add: bt_layout)

lemma bt_nodes_lookup [simp]: "k < 2 * n \<Longrightarrow> bt_nodes n k \<noteq> bt_lookup n h"
  by (simp add: bt_layout)

lemma bt_heap_mono: "bt_heap n w m \<Longrightarrow> m' \<le> m \<Longrightarrow> bt_heap n w m'"
  by (simp add: bt_heap_def)

lemma bt_heap_slot: "bt_heap n w m \<Longrightarrow> k < 2 * m \<Longrightarrow> bt_slot_ok n w k"
  by (simp add: bt_heap_def)

lemma bt_reach_NO: "n \<le> NO_MATCH_POS \<Longrightarrow> \<not> bt_reach n w NO_MATCH_POS y"
  using bt_reach_less [of n w NO_MATCH_POS y] by auto

lemma bt_heap_holes:
  assumes h: "bt_heap n w cur"
    and k: "kl = 2 * cur \<or> kl < 2 * cur" "kg = 2 * cur + 1 \<or> kg < 2 * cur"
    and c: "kl = 2 * cur \<or> bt_slot_ok n w (2 * cur)" "kg = 2 * cur + 1 \<or> bt_slot_ok n w (2 * cur + 1)"
    and a: "a = NO_MATCH_POS \<or> a < kl div 2" and b: "b = NO_MATCH_POS \<or> b < kg div 2"
    and d: "kl \<noteq> kg"
  shows "bt_heap n (w(bt_nodes n kl := a, bt_nodes n kg := b)) (Suc cur)"
  unfolding bt_heap_def
proof (intro allI impI)
  fix k assume kk: "k < 2 * Suc cur"
  consider "k = kg" | "k = kl" "k \<noteq> kg" | "k \<noteq> kl" "k \<noteq> kg" by blast
  then show "bt_slot_ok n (w(bt_nodes n kl := a, bt_nodes n kg := b)) k"
  proof cases
    case 1
    with b show ?thesis by (simp add: bt_slot_ok_def)
  next
    case 2
    with a show ?thesis by (simp add: bt_slot_ok_def)
  next
    case 3
    note nk = 3
    then have e: "(w(bt_nodes n kl := a, bt_nodes n kg := b)) (bt_nodes n k) = w (bt_nodes n k)" by simp
    from kk have "k < 2 * cur \<or> k = 2 * cur \<or> k = 2 * cur + 1" by auto
    then consider "k < 2 * cur" | "k = 2 * cur" | "k = 2 * cur + 1" by blast
    then have "bt_slot_ok n w k"
    proof cases
      case 1
      with h show ?thesis by (simp add: bt_heap_def)
    next
      case 2
      with c(1) nk show ?thesis by simp
    next
      case 3
      with c(2) nk show ?thesis by simp
    qed
    then show ?thesis unfolding bt_slot_ok_def e .
  qed
qed


lemma bt_fill_holes:
  assumes wk: "bt_walk_t inp n al cur w pos kl kg ltl gtl" and n: "n \<le> NO_MATCH_POS" "cur < n"
    and a: "a = NO_MATCH_POS \<or> a < kl div 2" and b: "b = NO_MATCH_POS \<or> b < kg div 2"
    and ra: "kl < 2 * cur \<Longrightarrow> a < n \<Longrightarrow> bt_reach n w (w (bt_nodes n kl)) a"
    and rb: "kg < 2 * cur \<Longrightarrow> b < n \<Longrightarrow> bt_reach n w (w (bt_nodes n kg)) b"
    and la: "\<And>y. bt_reach n w a y \<Longrightarrow> lex_le inp (horizon n al cur) y cur"
    and lb: "\<And>y. bt_reach n w b y \<Longrightarrow> lex_ge inp (horizon n al cur) y cur"
  shows "bt_post_t inp n al cur w pos kl kg (w(bt_nodes n kl := a, bt_nodes n kg := b))"
proof -
  define w' where "w' = w(bt_nodes n kl := a, bt_nodes n kg := b)"
  from wk have h: "bt_heap n w cur" and d: "kl \<noteq> kg"
    and k: "kl = 2 * cur \<or> kl < 2 * cur" "kg = 2 * cur + 1 \<or> kg < 2 * cur"
    and c: "kl = 2 * cur \<or> bt_slot_ok n w (2 * cur)" "kg = 2 * cur + 1 \<or> bt_slot_ok n w (2 * cur + 1)"
    by (simp_all add: bt_walk_t_def)
  have rd: "w' (bt_nodes n kl) = a" "w' (bt_nodes n kg) = b"
    "\<And>k. k \<noteq> kl \<Longrightarrow> k \<noteq> kg \<Longrightarrow> w' (bt_nodes n k) = w (bt_nodes n k)"
    using d by (simp_all add: w'_def)
  have kn: "kl < 2 * n" "kg < 2 * n" using k n(2) by auto
  have hp: "bt_heap n w' (Suc cur)" unfolding w'_def by (rule bt_heap_holes [OF h k c a b d])
  have lk: "w' (bt_lookup n h) = w (bt_lookup n h)" for h
    using bt_nodes_lookup [OF kn(1), of h] bt_nodes_lookup [OF kn(2), of h] by (auto simp add: w'_def)
  have sh: "bt_shrink n w w' cur"
    unfolding bt_shrink_def
  proof (intro allI impI)
    fix k assume kk: "k < 2 * cur" and v: "w' (bt_nodes n k) < n"
    consider "k = kg" | "k = kl" "k \<noteq> kg" | "k \<noteq> kl" "k \<noteq> kg" by blast
    then show "bt_reach n w (w (bt_nodes n k)) (w' (bt_nodes n k))"
    proof cases
      case 1
      with rb kk v rd(2) show ?thesis by simp
    next
      case 2
      with ra kk v rd(1) show ?thesis by simp
    next
      case 3
      with v rd(3) show ?thesis by (auto intro: bt_reach.self)
    qed
  qed
  have hc: "bt_heap n w' cur" by (rule bt_heap_mono [OF hp]) simp
  have pa: "lex_le inp (horizon n al cur) y cur" if r: "bt_reach n w' (w' (bt_nodes n kl)) y" for y
  proof -
    from r have r': "bt_reach n w' a y" by (simp add: rd)
    then have "a < n" using bt_reach_less by blast
    with a n(1) k(1) have "a < cur" by auto
    from bt_shrink_reach [OF sh hc n(1) r' this] show ?thesis by (rule la)
  qed
  have pb: "lex_ge inp (horizon n al cur) y cur" if r: "bt_reach n w' (w' (bt_nodes n kg)) y" for y
  proof -
    from r have r': "bt_reach n w' b y" by (simp add: rd)
    then have "b < n" using bt_reach_less by blast
    with b n(1) k(2) have "b < cur" by auto
    from bt_shrink_reach [OF sh hc n(1) r' this] show ?thesis by (rule lb)
  qed
  show ?thesis unfolding w'_def [symmetric] bt_post_t_def
    using hp rd(3) lk sh pa pb by blast
qed

lemma bt_walk_exit:
  assumes "bt_walk_t inp n al cur w pos kl kg ltl gtl" "n \<le> NO_MATCH_POS" "cur < n"
  shows "bt_post_t inp n al cur w pos kl kg (w(bt_nodes n kl := NO_MATCH_POS, bt_nodes n kg := NO_MATCH_POS))"
  using assms(2) by (intro bt_fill_holes [OF assms]) (auto dest: bt_reach_NO)

lemma bt_horizon_mono: "p \<le> c \<Longrightarrow> horizon n al c \<le> horizon n al p"
  unfolding horizon_def by (intro min.mono order_refl diff_le_mono2)

lemma bt_walk_graft:
  assumes wk: "bt_walk_t inp n al cur w pos kl kg ltl gtl" and n: "n \<le> NO_MATCH_POS" "cur < n"
    and p: "pos < cur" and ag: "agree inp pos cur (horizon n al cur)"
  shows "bt_post_t inp n al cur w pos kl kg
           (w(bt_nodes n kl := w (bt_nodes n (2 * pos)), bt_nodes n kg := w (bt_nodes n (2 * pos + 1))))"
proof -
  define a where "a = w (bt_nodes n (2 * pos))"
  define b where "b = w (bt_nodes n (2 * pos + 1))"
  from wk have h: "bt_heap n w cur" and t: "bt_tree inp n al w cur"
    and pk: "pos = NO_MATCH_POS \<or> (pos < kl div 2 \<and> pos < kg div 2)"
    and rl: "pos < n \<longrightarrow> kl < 2 * cur \<longrightarrow> bt_reach n w (w (bt_nodes n kl)) pos"
    and rg: "pos < n \<longrightarrow> kg < 2 * cur \<longrightarrow> bt_reach n w (w (bt_nodes n kg)) pos"
    by (simp_all add: bt_walk_t_def)
  have pn: "pos < n" "pos \<noteq> NO_MATCH_POS" using p n by simp_all
  with pk have pk': "pos < kl div 2" "pos < kg div 2" by simp_all
  have "bt_slot_ok n w (2 * pos)" "bt_slot_ok n w (2 * pos + 1)"
    using p by (auto intro: bt_heap_slot [OF h])
  then have ab: "a = NO_MATCH_POS \<or> a < pos" "b = NO_MATCH_POS \<or> b < pos"
    by (simp_all add: bt_slot_ok_def a_def b_def)
  have hm: "horizon n al cur \<le> horizon n al pos" using p by (intro bt_horizon_mono) simp
  show ?thesis unfolding a_def [symmetric] b_def [symmetric]
  proof (rule bt_fill_holes [OF wk n])
    show "a = NO_MATCH_POS \<or> a < kl div 2" using ab(1) pk'(1) by auto
    show "b = NO_MATCH_POS \<or> b < kg div 2" using ab(2) pk'(2) by auto
    show "bt_reach n w (w (bt_nodes n kl)) a" if "kl < 2 * cur" "a < n"
    proof -
      have "bt_reach n w pos a" unfolding a_def
        by (rule bt_reach.left [OF pn(1)], fold a_def, rule bt_reach.self [OF that(2)])
      with rl pn(1) that(1) show ?thesis by (auto intro: bt_reach_trans)
    qed
    show "bt_reach n w (w (bt_nodes n kg)) b" if "kg < 2 * cur" "b < n"
    proof -
      have "bt_reach n w pos b" unfolding b_def
        by (rule bt_reach.right [OF pn(1)], fold b_def, rule bt_reach.self [OF that(2)])
      with rg pn(1) that(1) show ?thesis by (auto intro: bt_reach_trans)
    qed
    show "lex_le inp (horizon n al cur) y cur" if "bt_reach n w a y" for y
    proof -
      from t p that have "lex_le inp (horizon n al pos) y pos" by (simp add: bt_tree_def a_def)
      from lex_le_agree [OF lex_le_mono [OF this hm] ag] show ?thesis .
    qed
    show "lex_ge inp (horizon n al cur) y cur" if "bt_reach n w b y" for y
    proof -
      from t p that have "lex_ge inp (horizon n al pos) y pos" by (simp add: bt_tree_def b_def)
      from lex_ge_agree [OF lex_ge_mono [OF this hm] ag] show ?thesis .
    qed
  qed
qed

lemma bt_walk_less:
  assumes wk: "bt_walk_t inp n al cur w pos kl kg ltl gtl" and n: "n \<le> NO_MATCH_POS" "cur < n"
    and p: "pos < cur" and ag: "agree inp pos cur len"
    and lt: "unat (inp ! (pos + len)) < unat (inp ! (cur + len))" and l: "len < horizon n al cur"
  shows "bt_walk_t inp n al cur (w(bt_nodes n kl := pos)) ((w(bt_nodes n kl := pos)) (bt_nodes n (2 * pos + 1)))
           (2 * pos + 1) kg len gtl"
proof -
  define w2 where "w2 = w(bt_nodes n kl := pos)"
  define pos' where "pos' = w2 (bt_nodes n (2 * pos + 1))"
  from wk have h: "bt_heap n w cur" and t: "bt_tree inp n al w cur" and d: "kl \<noteq> kg"
    and k: "kl = 2 * cur \<or> kl < 2 * cur" "kg = 2 * cur + 1 \<or> kg < 2 * cur"
    and c: "kl = 2 * cur \<or> bt_slot_ok n w (2 * cur)" "kg = 2 * cur + 1 \<or> bt_slot_ok n w (2 * cur + 1)"
    and pk: "pos = NO_MATCH_POS \<or> (pos < kl div 2 \<and> pos < kg div 2)"
    and rl: "pos < n \<longrightarrow> kl < 2 * cur \<longrightarrow> bt_reach n w (w (bt_nodes n kl)) pos"
    and rg: "pos < n \<longrightarrow> kg < 2 * cur \<longrightarrow> bt_reach n w (w (bt_nodes n kg)) pos"
    and bd: "\<And>y. bt_reach n w pos y \<Longrightarrow>
          (agree inp y cur ltl \<or> lex_lt inp (horizon n al cur) cur y)
        \<and> (agree inp y cur gtl \<or> lex_lt inp (horizon n al cur) y cur)"
    by (simp_all add: bt_walk_t_def)
  have pn: "pos < n" "pos \<noteq> NO_MATCH_POS" using p n by simp_all
  with pk have pk': "pos < kl div 2" "pos < kg div 2" by simp_all
  have ne: "2 * pos + 1 \<noteq> kl" "2 * pos \<noteq> kl" "2 * pos + 1 \<noteq> kg" using pk' by auto
  have rd: "w2 (bt_nodes n kl) = pos" "\<And>k. k \<noteq> kl \<Longrightarrow> w2 (bt_nodes n k) = w (bt_nodes n k)"
    by (simp_all add: w2_def)
  have p': "pos' = w (bt_nodes n (2 * pos + 1))" using ne(1) by (simp add: pos'_def rd)
  have "bt_slot_ok n w (2 * pos + 1)" using p by (auto intro: bt_heap_slot [OF h])
  then have pp: "pos' = NO_MATCH_POS \<or> pos' < pos" by (simp add: bt_slot_ok_def p')
  have h2: "bt_heap n w2 cur"
    unfolding bt_heap_def
  proof (intro allI impI)
    fix k assume kk: "k < 2 * cur"
    show "bt_slot_ok n w2 k"
    proof (cases "k = kl")
      case True
      with pk' show ?thesis by (simp add: bt_slot_ok_def rd)
    next
      case False
      with bt_heap_slot [OF h kk] show ?thesis by (simp add: bt_slot_ok_def rd)
    qed
  qed
  have sh: "bt_shrink n w w2 cur"
    unfolding w2_def using rl pn by (intro bt_shrink_upd) simp
  have t2: "bt_tree inp n al w2 cur" by (rule bt_tree_shrink [OF t sh h2 n(1)])
  have c1: "2 * pos + 1 = 2 * cur \<or> bt_slot_ok n w2 (2 * cur)"
  proof (cases "kl = 2 * cur")
    case True
    with p rd(1) show ?thesis by (simp add: bt_slot_ok_def)
  next
    case False
    with c(1) show ?thesis by (simp add: bt_slot_ok_def rd)
  qed
  have c2: "kg = 2 * cur + 1 \<or> bt_slot_ok n w2 (2 * cur + 1)"
  proof -
    have "2 * cur + 1 \<noteq> kl" using k(1) by auto
    with c(2) show ?thesis by (simp add: bt_slot_ok_def rd)
  qed
  have r1: "bt_reach n w2 (w2 (bt_nodes n (2 * pos + 1))) pos'" if "pos' < n"
    unfolding pos'_def [symmetric] using that by (rule bt_reach.self)
  have r2: "bt_reach n w2 (w2 (bt_nodes n kg)) pos'" if "pos' < n" "kg < 2 * cur"
  proof -
    have "bt_reach n w (w (bt_nodes n kg)) pos" using rg pn that by simp
    then have "bt_reach n w2 (w (bt_nodes n kg)) pos" unfolding w2_def by (rule bt_reach_upd_target)
    moreover have "bt_reach n w2 pos pos'" by (rule bt_reach.right [OF pn(1) r1 [OF that(1)]])
    ultimately show ?thesis using d by (simp add: rd bt_reach_trans)
  qed
  have hm: "horizon n al cur \<le> horizon n al pos" using p by (intro bt_horizon_mono) simp
  have b2: "(agree inp y cur len \<or> lex_lt inp (horizon n al cur) cur y)
        \<and> (agree inp y cur gtl \<or> lex_lt inp (horizon n al cur) y cur)" if r: "bt_reach n w2 pos' y" for y
  proof -
    from r have "pos' < n" using bt_reach_less by blast
    with pp n(1) p have "pos' < cur" by auto
    from bt_shrink_reach [OF sh h2 n(1) r this] have r': "bt_reach n w pos' y" .
    then have lg: "lex_ge inp (horizon n al pos) y pos" using t p by (simp add: bt_tree_def p')
    have lh: "len < horizon n al pos" using l hm by simp
    have "agree inp y cur len \<or> lex_lt inp (horizon n al cur) cur y"
      by (rule walk_bound_right [OF lg ag lt lh l])
    moreover have "bt_reach n w pos y" by (rule bt_reach.right [OF pn(1)]) (use r' p' in simp)
    ultimately show ?thesis using bd by blast
  qed
  have "bt_walk_t inp n al cur w2 pos' (2 * pos + 1) kg len gtl"
    unfolding bt_walk_t_def
    using h2 t2 ne(3) p k(2) c1 c2 pp pk'(2) r1 r2 b2 by auto
  then show ?thesis by (simp only: w2_def pos'_def)
qed


lemma bt_post_less:
  assumes wk: "bt_walk_t inp n al cur w pos kl kg ltl gtl" and n: "n \<le> NO_MATCH_POS" "cur < n"
    and p: "pos < cur" and ag: "agree inp pos cur len"
    and lt: "unat (inp ! (pos + len)) < unat (inp ! (cur + len))" and l: "len < horizon n al cur"
    and po: "bt_post_t inp n al cur (w(bt_nodes n kl := pos))
               ((w(bt_nodes n kl := pos)) (bt_nodes n (2 * pos + 1))) (2 * pos + 1) kg w'"
  shows "bt_post_t inp n al cur w pos kl kg w'"
proof -
  define w2 where "w2 = w(bt_nodes n kl := pos)"
  define pos' where "pos' = w2 (bt_nodes n (2 * pos + 1))"
  note po' = po [folded w2_def, folded pos'_def]
  note wk2 = bt_walk_less [OF wk n p ag lt l, folded w2_def, folded pos'_def]
  from wk have h: "bt_heap n w cur" and t: "bt_tree inp n al w cur" and d: "kl \<noteq> kg"
    and k: "kl = 2 * cur \<or> kl < 2 * cur" "kg = 2 * cur + 1 \<or> kg < 2 * cur"
    and pk: "pos = NO_MATCH_POS \<or> (pos < kl div 2 \<and> pos < kg div 2)"
    and rl: "pos < n \<longrightarrow> kl < 2 * cur \<longrightarrow> bt_reach n w (w (bt_nodes n kl)) pos"
    by (simp_all add: bt_walk_t_def)
  from wk2 have h2: "bt_heap n w2 cur" by (simp add: bt_walk_t_def)
  have pn: "pos < n" "pos \<noteq> NO_MATCH_POS" using p n by simp_all
  with pk have pk': "pos < kl div 2" "pos < kg div 2" by simp_all
  have ne: "2 * pos + 1 \<noteq> kl" "2 * pos \<noteq> kl" "2 * pos + 1 \<noteq> kg" "2 * pos \<noteq> kg" using pk' by auto
  have kn: "kl < 2 * n" using k(1) n(2) by auto
  have rd: "w2 (bt_nodes n kl) = pos" "\<And>k. k \<noteq> kl \<Longrightarrow> w2 (bt_nodes n k) = w (bt_nodes n k)"
    by (simp_all add: w2_def)
  have p': "pos' = w (bt_nodes n (2 * pos + 1))" using ne(1) by (simp add: pos'_def rd)
  have "bt_slot_ok n w (2 * pos + 1)" "bt_slot_ok n w (2 * pos)" using p by (auto intro: bt_heap_slot [OF h])
  then have pp: "pos' = NO_MATCH_POS \<or> pos' < pos"
    and aa: "w (bt_nodes n (2 * pos)) = NO_MATCH_POS \<or> w (bt_nodes n (2 * pos)) < pos"
    by (simp_all add: bt_slot_ok_def p')
  have pc: "pos' < cur \<Longrightarrow> pos' < pos" using pp p n by auto
  from po' have hp: "bt_heap n w' (Suc cur)"
    and fr: "\<And>k. k < 2 * n \<Longrightarrow> k \<noteq> 2 * pos + 1 \<Longrightarrow> k \<noteq> kg \<Longrightarrow> (pos' < cur \<longrightarrow> pos' < k div 2)
         \<Longrightarrow> w' (bt_nodes n k) = w2 (bt_nodes n k)"
    and lk: "\<And>h. h < LOOKUP_SIZE \<Longrightarrow> w' (bt_lookup n h) = w2 (bt_lookup n h)"
    and sh2: "bt_shrink n w2 w' cur"
    and pl: "\<And>y. bt_reach n w' (w' (bt_nodes n (2 * pos + 1))) y \<Longrightarrow> lex_le inp (horizon n al cur) y cur"
    and pg: "\<And>y. bt_reach n w' (w' (bt_nodes n kg)) y \<Longrightarrow> lex_ge inp (horizon n al cur) y cur"
    by (simp_all add: bt_post_t_def)
  have sh1: "bt_shrink n w w2 cur" unfolding w2_def using rl pn by (intro bt_shrink_upd) simp
  have sh: "bt_shrink n w w' cur" by (rule bt_shrink_trans [OF sh1 sh2 h2 n(1)])
  have hc: "bt_heap n w' cur" by (rule bt_heap_mono [OF hp]) simp
  have f1: "w' (bt_nodes n k) = w (bt_nodes n k)"
    if "k < 2 * n" "k \<noteq> kl" "k \<noteq> kg" "pos < cur \<longrightarrow> pos < k div 2" for k
  proof -
    have "pos < k div 2" using that(4) p by simp
    then have "w' (bt_nodes n k) = w2 (bt_nodes n k)"
      using that(1,3) pc by (intro fr) auto
    with that(2) show ?thesis by (simp add: rd)
  qed
  have f2: "w' (bt_lookup n h) = w (bt_lookup n h)" if "h < LOOKUP_SIZE" for h
    using lk [OF that] bt_nodes_lookup [OF kn, of h] by (simp add: w2_def)
  have e1: "w' (bt_nodes n kl) = pos"
  proof -
    have "w' (bt_nodes n kl) = w2 (bt_nodes n kl)"
      using kn ne(1) d pc pk'(1) by (intro fr) auto
    then show ?thesis by (simp add: rd)
  qed
  have e2: "w' (bt_nodes n (2 * pos)) = w (bt_nodes n (2 * pos))"
  proof -
    have "w' (bt_nodes n (2 * pos)) = w2 (bt_nodes n (2 * pos))"
      using pn(1) ne(4) pc by (intro fr) auto
    with ne(2) show ?thesis by (simp add: rd)
  qed
  have hm: "horizon n al cur \<le> horizon n al pos" using p by (intro bt_horizon_mono) simp
  have lh: "len < horizon n al pos" using l hm by simp
  have pa: "lex_le inp (horizon n al cur) y cur" if r: "bt_reach n w' (w' (bt_nodes n kl)) y" for y
  proof -
    from r have "bt_reach n w' pos y" by (simp add: e1)
    then show ?thesis
    proof (cases rule: bt_reach.cases)
      case self
      have "lex_lt inp (horizon n al cur) pos cur" unfolding lex_lt_def using ag lt l by blast
      with self show ?thesis by (simp add: lex_le_def)
    next
      case left
      define a where "a = w (bt_nodes n (2 * pos))"
      from left(2) have ra: "bt_reach n w' a y" by (simp add: e2 a_def)
      then have "a < n" using bt_reach_less by blast
      with aa n(1) p have "a < cur" by (auto simp: a_def)
      from bt_shrink_reach [OF sh hc n(1) ra this]
      have "lex_le inp (horizon n al pos) y pos" using t p by (simp add: bt_tree_def a_def)
      from lex_le_lt [OF this ag lt lh l] show ?thesis by (simp add: lex_le_def)
    next
      case right
      from pl [OF right(2)] show ?thesis .
    qed
  qed
  show ?thesis unfolding bt_post_t_def using hp f1 f2 sh pa pg by blast
qed

lemma bt_walk_greater:
  assumes wk: "bt_walk_t inp n al cur w pos kl kg ltl gtl" and n: "n \<le> NO_MATCH_POS" "cur < n"
    and p: "pos < cur" and ag: "agree inp pos cur len"
    and gt: "unat (inp ! (cur + len)) < unat (inp ! (pos + len))" and l: "len < horizon n al cur"
  shows "bt_walk_t inp n al cur (w(bt_nodes n kg := pos)) ((w(bt_nodes n kg := pos)) (bt_nodes n (2 * pos)))
           kl (2 * pos) ltl len"
proof -
  define w2 where "w2 = w(bt_nodes n kg := pos)"
  define pos' where "pos' = w2 (bt_nodes n (2 * pos))"
  from wk have h: "bt_heap n w cur" and t: "bt_tree inp n al w cur" and d: "kl \<noteq> kg"
    and k: "kl = 2 * cur \<or> kl < 2 * cur" "kg = 2 * cur + 1 \<or> kg < 2 * cur"
    and c: "kl = 2 * cur \<or> bt_slot_ok n w (2 * cur)" "kg = 2 * cur + 1 \<or> bt_slot_ok n w (2 * cur + 1)"
    and pk: "pos = NO_MATCH_POS \<or> (pos < kl div 2 \<and> pos < kg div 2)"
    and rl: "pos < n \<longrightarrow> kl < 2 * cur \<longrightarrow> bt_reach n w (w (bt_nodes n kl)) pos"
    and rg: "pos < n \<longrightarrow> kg < 2 * cur \<longrightarrow> bt_reach n w (w (bt_nodes n kg)) pos"
    and bd: "\<And>y. bt_reach n w pos y \<Longrightarrow>
          (agree inp y cur ltl \<or> lex_lt inp (horizon n al cur) cur y)
        \<and> (agree inp y cur gtl \<or> lex_lt inp (horizon n al cur) y cur)"
    by (simp_all add: bt_walk_t_def)
  have pn: "pos < n" "pos \<noteq> NO_MATCH_POS" using p n by simp_all
  with pk have pk': "pos < kl div 2" "pos < kg div 2" by simp_all
  have ne: "2 * pos \<noteq> kg" "2 * pos + 1 \<noteq> kg" "kl \<noteq> 2 * pos" using pk' by auto
  have rd: "w2 (bt_nodes n kg) = pos" "\<And>k. k \<noteq> kg \<Longrightarrow> w2 (bt_nodes n k) = w (bt_nodes n k)"
    by (simp_all add: w2_def)
  have p': "pos' = w (bt_nodes n (2 * pos))" using ne(1) by (simp add: pos'_def rd)
  have "bt_slot_ok n w (2 * pos)" using p by (auto intro: bt_heap_slot [OF h])
  then have pp: "pos' = NO_MATCH_POS \<or> pos' < pos" by (simp add: bt_slot_ok_def p')
  have h2: "bt_heap n w2 cur"
    unfolding bt_heap_def
  proof (intro allI impI)
    fix k assume kk: "k < 2 * cur"
    show "bt_slot_ok n w2 k"
    proof (cases "k = kg")
      case True
      with pk' show ?thesis by (simp add: bt_slot_ok_def rd)
    next
      case False
      with bt_heap_slot [OF h kk] show ?thesis by (simp add: bt_slot_ok_def rd)
    qed
  qed
  have sh: "bt_shrink n w w2 cur"
    unfolding w2_def using rg pn by (intro bt_shrink_upd) simp
  have t2: "bt_tree inp n al w2 cur" by (rule bt_tree_shrink [OF t sh h2 n(1)])
  have c2: "2 * pos = 2 * cur + 1 \<or> bt_slot_ok n w2 (2 * cur + 1)"
  proof (cases "kg = 2 * cur + 1")
    case True
    with p rd(1) show ?thesis by (simp add: bt_slot_ok_def)
  next
    case False
    with c(2) show ?thesis by (simp add: bt_slot_ok_def rd)
  qed
  have c1: "kl = 2 * cur \<or> bt_slot_ok n w2 (2 * cur)"
  proof -
    have "2 * cur \<noteq> kg" using k(2) by auto
    with c(1) show ?thesis by (simp add: bt_slot_ok_def rd)
  qed
  have r1: "bt_reach n w2 (w2 (bt_nodes n (2 * pos))) pos'" if "pos' < n"
    unfolding pos'_def [symmetric] using that by (rule bt_reach.self)
  have r2: "bt_reach n w2 (w2 (bt_nodes n kl)) pos'" if "pos' < n" "kl < 2 * cur"
  proof -
    have "bt_reach n w (w (bt_nodes n kl)) pos" using rl pn that by simp
    then have "bt_reach n w2 (w (bt_nodes n kl)) pos" unfolding w2_def by (rule bt_reach_upd_target)
    moreover have "bt_reach n w2 pos pos'" by (rule bt_reach.left [OF pn(1) r1 [OF that(1)]])
    ultimately show ?thesis using d by (simp add: rd bt_reach_trans)
  qed
  have hm: "horizon n al cur \<le> horizon n al pos" using p by (intro bt_horizon_mono) simp
  have b2: "(agree inp y cur ltl \<or> lex_lt inp (horizon n al cur) cur y)
        \<and> (agree inp y cur len \<or> lex_lt inp (horizon n al cur) y cur)" if r: "bt_reach n w2 pos' y" for y
  proof -
    from r have "pos' < n" using bt_reach_less by blast
    with pp n(1) p have "pos' < cur" by auto
    from bt_shrink_reach [OF sh h2 n(1) r this] have r': "bt_reach n w pos' y" .
    then have lg: "lex_le inp (horizon n al pos) y pos" using t p by (simp add: bt_tree_def p')
    have lh: "len < horizon n al pos" using l hm by simp
    have "agree inp y cur len \<or> lex_lt inp (horizon n al cur) y cur"
      by (rule walk_bound_left [OF lg ag gt lh l])
    moreover have "bt_reach n w pos y" by (rule bt_reach.left [OF pn(1)]) (use r' p' in simp)
    ultimately show ?thesis using bd by blast
  qed
  have "bt_walk_t inp n al cur w2 pos' kl (2 * pos) ltl len"
    unfolding bt_walk_t_def
    using h2 t2 ne(3) p k(1) c1 c2 pp pk'(1) r1 r2 b2 by auto
  then show ?thesis by (simp only: w2_def pos'_def)
qed

lemma bt_post_greater:
  assumes wk: "bt_walk_t inp n al cur w pos kl kg ltl gtl" and n: "n \<le> NO_MATCH_POS" "cur < n"
    and p: "pos < cur" and ag: "agree inp pos cur len"
    and gt: "unat (inp ! (cur + len)) < unat (inp ! (pos + len))" and l: "len < horizon n al cur"
    and po: "bt_post_t inp n al cur (w(bt_nodes n kg := pos))
               ((w(bt_nodes n kg := pos)) (bt_nodes n (2 * pos))) kl (2 * pos) w'"
  shows "bt_post_t inp n al cur w pos kl kg w'"
proof -
  define w2 where "w2 = w(bt_nodes n kg := pos)"
  define pos' where "pos' = w2 (bt_nodes n (2 * pos))"
  note po' = po [folded w2_def, folded pos'_def]
  note wk2 = bt_walk_greater [OF wk n p ag gt l, folded w2_def, folded pos'_def]
  from wk have h: "bt_heap n w cur" and t: "bt_tree inp n al w cur" and d: "kl \<noteq> kg"
    and k: "kl = 2 * cur \<or> kl < 2 * cur" "kg = 2 * cur + 1 \<or> kg < 2 * cur"
    and pk: "pos = NO_MATCH_POS \<or> (pos < kl div 2 \<and> pos < kg div 2)"
    and rg: "pos < n \<longrightarrow> kg < 2 * cur \<longrightarrow> bt_reach n w (w (bt_nodes n kg)) pos"
    by (simp_all add: bt_walk_t_def)
  from wk2 have h2: "bt_heap n w2 cur" by (simp add: bt_walk_t_def)
  have pn: "pos < n" "pos \<noteq> NO_MATCH_POS" using p n by simp_all
  with pk have pk': "pos < kl div 2" "pos < kg div 2" by simp_all
  have ne: "2 * pos \<noteq> kg" "2 * pos + 1 \<noteq> kg" "2 * pos \<noteq> kl" "2 * pos + 1 \<noteq> kl" using pk' by auto
  have kn: "kg < 2 * n" using k(2) n(2) by auto
  have rd: "w2 (bt_nodes n kg) = pos" "\<And>k. k \<noteq> kg \<Longrightarrow> w2 (bt_nodes n k) = w (bt_nodes n k)"
    by (simp_all add: w2_def)
  have p': "pos' = w (bt_nodes n (2 * pos))" using ne(1) by (simp add: pos'_def rd)
  have "bt_slot_ok n w (2 * pos + 1)" "bt_slot_ok n w (2 * pos)" using p by (auto intro: bt_heap_slot [OF h])
  then have pp: "pos' = NO_MATCH_POS \<or> pos' < pos"
    and aa: "w (bt_nodes n (2 * pos + 1)) = NO_MATCH_POS \<or> w (bt_nodes n (2 * pos + 1)) < pos"
    by (simp_all add: bt_slot_ok_def p')
  have pc: "pos' < cur \<Longrightarrow> pos' < pos" using pp p n by auto
  from po' have hp: "bt_heap n w' (Suc cur)"
    and fr: "\<And>k. k < 2 * n \<Longrightarrow> k \<noteq> kl \<Longrightarrow> k \<noteq> 2 * pos \<Longrightarrow> (pos' < cur \<longrightarrow> pos' < k div 2)
         \<Longrightarrow> w' (bt_nodes n k) = w2 (bt_nodes n k)"
    and lk: "\<And>h. h < LOOKUP_SIZE \<Longrightarrow> w' (bt_lookup n h) = w2 (bt_lookup n h)"
    and sh2: "bt_shrink n w2 w' cur"
    and pl: "\<And>y. bt_reach n w' (w' (bt_nodes n kl)) y \<Longrightarrow> lex_le inp (horizon n al cur) y cur"
    and pg: "\<And>y. bt_reach n w' (w' (bt_nodes n (2 * pos))) y \<Longrightarrow> lex_ge inp (horizon n al cur) y cur"
    by (simp_all add: bt_post_t_def)
  have sh1: "bt_shrink n w w2 cur" unfolding w2_def using rg pn by (intro bt_shrink_upd) simp
  have sh: "bt_shrink n w w' cur" by (rule bt_shrink_trans [OF sh1 sh2 h2 n(1)])
  have hc: "bt_heap n w' cur" by (rule bt_heap_mono [OF hp]) simp
  have f1: "w' (bt_nodes n k) = w (bt_nodes n k)"
    if "k < 2 * n" "k \<noteq> kl" "k \<noteq> kg" "pos < cur \<longrightarrow> pos < k div 2" for k
  proof -
    have "pos < k div 2" using that(4) p by simp
    then have "w' (bt_nodes n k) = w2 (bt_nodes n k)"
      using that(1,2) pc by (intro fr) auto
    with that(3) show ?thesis by (simp add: rd)
  qed
  have f2: "w' (bt_lookup n h) = w (bt_lookup n h)" if "h < LOOKUP_SIZE" for h
    using lk [OF that] bt_nodes_lookup [OF kn, of h] by (simp add: w2_def)
  have e1: "w' (bt_nodes n kg) = pos"
  proof -
    have "w' (bt_nodes n kg) = w2 (bt_nodes n kg)"
      using kn ne(1) d pc pk'(2) by (intro fr) auto
    then show ?thesis by (simp add: rd)
  qed
  have e2: "w' (bt_nodes n (2 * pos + 1)) = w (bt_nodes n (2 * pos + 1))"
  proof -
    have "w' (bt_nodes n (2 * pos + 1)) = w2 (bt_nodes n (2 * pos + 1))"
      using pn(1) ne(4) pc by (intro fr) auto
    with ne(2) show ?thesis by (simp add: rd)
  qed
  have hm: "horizon n al cur \<le> horizon n al pos" using p by (intro bt_horizon_mono) simp
  have lh: "len < horizon n al pos" using l hm by simp
  have pb: "lex_ge inp (horizon n al cur) y cur" if r: "bt_reach n w' (w' (bt_nodes n kg)) y" for y
  proof -
    from r have "bt_reach n w' pos y" by (simp add: e1)
    then show ?thesis
    proof (cases rule: bt_reach.cases)
      case self
      have "lex_lt inp (horizon n al cur) cur pos" unfolding lex_lt_def
        using agree_sym [OF ag] gt l by blast
      with self show ?thesis by (simp add: lex_ge_def)
    next
      case right
      define a where "a = w (bt_nodes n (2 * pos + 1))"
      from right(2) have ra: "bt_reach n w' a y" unfolding e2 a_def .
      then have "a < n" using bt_reach_less by blast
      with aa n(1) p have "a < cur" by (auto simp: a_def)
      from bt_shrink_reach [OF sh hc n(1) ra this]
      have "lex_ge inp (horizon n al pos) y pos" using t p by (simp add: bt_tree_def a_def)
      from lex_ge_gt [OF this ag gt lh l] show ?thesis by (simp add: lex_ge_def)
    next
      case left
      from pg [OF left(2)] show ?thesis .
    qed
  qed
  show ?thesis unfolding bt_post_t_def using hp f1 f2 sh pl pb by blast
qed

lemma bt_walk_t_cong:
  assumes "bt_walk_t inp n al cur w pos kl kg ltl gtl" "same_nodes n w w1" "cur < n"
  shows "bt_walk_t inp n al cur w1 pos kl kg ltl gtl"
proof -
  have e: "w1 (bt_nodes n k) = w (bt_nodes n k)" if "k < 2 * n" for k
    using assms(2) that by (simp add: same_nodes_def)
  have r: "bt_reach n w1 v y = bt_reach n w v y" for v y by (rule bt_reach_cong_eq [OF assms(2)])
  from assms(1) have k: "kl = 2 * cur \<or> kl < 2 * cur" "kg = 2 * cur + 1 \<or> kg < 2 * cur"
    by (simp_all add: bt_walk_t_def)
  then have kn: "kl < 2 * n" "kg < 2 * n" using assms(3) by auto
  have s: "bt_slot_ok n w1 (2 * cur) = bt_slot_ok n w (2 * cur)"
    "bt_slot_ok n w1 (2 * cur + 1) = bt_slot_ok n w (2 * cur + 1)"
    using assms(3) by (simp_all add: bt_slot_ok_def e)
  have h: "bt_heap n w1 cur" "bt_tree inp n al w1 cur"
    using assms by (auto intro: bt_heap_cong bt_tree_cong simp: bt_walk_t_def)
  show ?thesis
    using assms(1) h unfolding bt_walk_t_def r s e [OF kn(1)] e [OF kn(2)] by simp
qed

lemma bt_post_t_cong:
  assumes "bt_post_t inp n al cur w1 pos kl kg w'" "same_nodes n w w1" "cur < n"
  shows "bt_post_t inp n al cur w pos kl kg w'"
proof -
  have e: "w1 (bt_nodes n k) = w (bt_nodes n k)" if "k < 2 * n" for k
    using assms(2) that by (simp add: same_nodes_def)
  have l: "w1 (bt_lookup n h) = w (bt_lookup n h)" if "h < LOOKUP_SIZE" for h
    using assms(2) that by (simp add: same_nodes_def)
  have r: "bt_reach n w1 v y = bt_reach n w v y" for v y by (rule bt_reach_cong_eq [OF assms(2)])
  have "bt_shrink n w w' cur"
    using assms(1,3) unfolding bt_post_t_def bt_shrink_def r by (auto simp: e)
  with assms(1) show ?thesis unfolding bt_post_t_def by (auto simp: e l)
qed

lemma BLOCK_SIZE_NO: "n \<le> BLOCK_SIZE \<Longrightarrow> n \<le> NO_MATCH_POS"
  by (simp add: BLOCK_SIZE_def NO_MATCH_POS_def)

lemma bt_dp_nodes_upd:
  assumes "bt_dp inp n w c r" "r \<le> n" "k < 2 * n"
  shows "bt_dp inp n (w(bt_nodes n k := v)) c r"
  using bt_dp_cong [OF same_dp_nodes_upd [OF assms(3)] assms(2), of inp w v c] assms(1) by simp

lemma btparse_search_inv:
  assumes "bt_dp inp n w cur (Suc cur)" "bt_walk_t inp n al cur w pos kl kg ltl gtl"
    "n \<le> BLOCK_SIZE" "cur < n" "horizon n al cur \<le> ll" "ll \<le> MAX_MATCH" "ll \<le> n - cur"
    "ltl \<le> ll" "gtl \<le> ll" "MIN_MATCH - 1 \<le> max_len" "lt = bt_nodes n kl" "gt = bt_nodes n kg"
    "btparse_search inp n al ll cur w pos lt gt ltl gtl max_len nmc nc = (w', nmc')"
  shows "bt_dp inp n w' cur (Suc cur) \<and> bt_post_t inp n al cur w pos kl kg w'"
  using assms
proof (induction inp n al ll cur w pos lt gt ltl gtl max_len nmc nc arbitrary: kl kg
    rule: btparse_search.induct)
  case (1 inp n al ll cur w pos lt gt ltl gtl max_len nmc nc)
  note dp = "1.prems"(1) and wk = "1.prems"(2) and nB = "1.prems"(3) and cn = "1.prems"(4)
    and ll = "1.prems"(5-7) and lens = "1.prems"(8,9) and ml = "1.prems"(10)
    and lt = "1.prems"(11) and gt = "1.prems"(12) and res = "1.prems"(13)
  have nN: "n \<le> NO_MATCH_POS" by (rule BLOCK_SIZE_NO [OF nB])
  from wk have k: "kl = 2 * cur \<or> kl < 2 * cur" "kg = 2 * cur + 1 \<or> kg < 2 * cur"
    and pk: "pos = NO_MATCH_POS \<or> (pos < kl div 2 \<and> pos < kg div 2)"
    and bd: "\<And>y. bt_reach n w pos y \<Longrightarrow>
          (agree inp y cur ltl \<or> lex_lt inp (horizon n al cur) cur y)
        \<and> (agree inp y cur gtl \<or> lex_lt inp (horizon n al cur) y cur)"
    by (simp_all add: bt_walk_t_def)
  have kn: "kl < 2 * n" "kg < 2 * n" using k cn by auto
  have sc: "Suc cur \<le> n" using cn by simp
  show ?case
  proof (cases "pos = NO_MATCH_POS \<or> ulong_sub cur pos > W_SIZE \<or> nc = 0")
    case True
    then have e: "w' = w(bt_nodes n kl := NO_MATCH_POS, bt_nodes n kg := NO_MATCH_POS)"
      using res by (subst (asm) btparse_search.simps) (simp add: lt gt)
    have "bt_dp inp n w' cur (Suc cur)"
      unfolding e by (intro bt_dp_nodes_upd dp sc kn)
    moreover have "bt_post_t inp n al cur w pos kl kg w'"
      unfolding e by (rule bt_walk_exit [OF wk nN cn])
    ultimately show ?thesis ..
  next
    case nexit: False
    then have pN: "pos \<noteq> NO_MATCH_POS" by simp
    with pk k have p: "pos < cur" by auto
    have c64: "cur < 2 ^ 64" using cn nB by (simp add: BLOCK_SIZE_def)
    have u: "ulong_sub cur pos = cur - pos" using p c64 by (simp add: ulong_sub_simp)
    have far: "cur - pos \<le> W_SIZE" using nexit u by simp
    have pn: "pos < n" using p cn by simp
    define l0 where "l0 = (if ltl < gtl then ltl else gtl)"
    define len where "len = match_len inp pos cur ll (if ltl < gtl then ltl else gtl)"
    define scored where "scored = (cur = nmc \<and> len > max_len)"
    define w1 where "w1 = (if scored then btparse_costs n w cur pos len (max_len + 1) else w)"
    define max_len1 where "max_len1 = (if scored then len else max_len)"
    define next1 where "next1 = (if scored \<and> len \<ge> al then (cur + len) mod 2 ^ 64 else nmc)"
    have l0: "l0 = min ltl gtl" "l0 \<le> ll" using lens by (auto simp: l0_def)
    from match_len_props [OF l0(2), of inp pos cur]
    have lp: "l0 \<le> len" "len \<le> ll" "\<And>k. l0 \<le> k \<Longrightarrow> k < len \<Longrightarrow> inp ! (pos + k) = inp ! (cur + k)"
      "len < ll \<Longrightarrow> inp ! (pos + len) \<noteq> inp ! (cur + len)"
      by (simp_all add: len_def l0_def)
    have "bt_reach n w pos pos" by (rule bt_reach.self [OF pn])
    from bd [OF this] have "agree inp pos cur l0"
      unfolding l0(1) by (intro walk_sandwich [where h = "horizon n al cur"]) simp_all
    with lp(3) have ag: "agree inp pos cur len"
      unfolding agree_def by (metis not_le_imp_less)
    have w1: "bt_dp inp n w1 cur (Suc cur) \<and> same_nodes n w w1"
    proof (cases scored)
      case False
      with dp show ?thesis by (simp add: w1_def)
    next
      case True
      have "MIN_MATCH \<le> max_len + 1" using ml by (simp add: MIN_MATCH_def)
      moreover have "len \<le> MAX_MATCH" "cur + len \<le> n" using lp(2) ll cn by simp_all
      moreover have "\<forall>k<len. inp ! (pos + k) = inp ! (cur + k)" using ag by (simp add: agree_def)
      ultimately show ?thesis
        unfolding w1_def using True by (simp add: btparse_costs_dp [OF dp p far _ _ _ _ nB])
    qed
    then have dp1: "bt_dp inp n w1 cur (Suc cur)" and sn: "same_nodes n w w1" by simp_all
    have wk1: "bt_walk_t inp n al cur w1 pos kl kg ltl gtl" by (rule bt_walk_t_cong [OF wk sn cn])
    have ml1: "MIN_MATCH - 1 \<le> max_len1" using ml by (auto simp: max_len1_def scored_def)
    show ?thesis
    proof (cases "len \<ge> al \<or> len = ll")
      case graft: True
      define w2 where "w2 = w1(lt := w1 (bt_nodes n (2 * pos)))"
      define w3 where "w3 = w2(gt := w2 (bt_nodes n (2 * pos + 1)))"
      have e: "w' = w3"
        using res
        apply (subst (asm) btparse_search.simps)
        apply (simp only: Let_def len_def [symmetric])
        apply (simp only: scored_def [symmetric])
        apply (simp only: w1_def [symmetric] max_len1_def [symmetric] next1_def [symmetric])
        apply (simp only: nexit graft if_False if_True w2_def [symmetric])
        apply (simp only: w3_def [symmetric] prod.inject)
        done
      from pk pN have "2 * pos + 1 \<noteq> kl" by auto
      then have e3: "w3 = w1(bt_nodes n kl := w1 (bt_nodes n (2 * pos)),
          bt_nodes n kg := w1 (bt_nodes n (2 * pos + 1)))"
        by (simp add: w3_def w2_def lt gt)
      have hl: "horizon n al cur \<le> len"
        using graft ll(1) by (auto simp: horizon_def)
      have agH: "agree inp pos cur (horizon n al cur)" by (rule agree_mono [OF ag hl])
      have "bt_post_t inp n al cur w1 pos kl kg w3"
        unfolding e3 by (rule bt_walk_graft [OF wk1 nN cn p agH])
      then have "bt_post_t inp n al cur w pos kl kg w'"
        unfolding e by (rule bt_post_t_cong [OF _ sn cn])
      moreover have "bt_dp inp n w' cur (Suc cur)"
        unfolding e e3 by (intro bt_dp_nodes_upd dp1 sc kn)
      ultimately show ?thesis by simp
    next
      case ngraft: False
      then have "len < ll" using lp(2) by simp
      note ne = lp(4) [OF this]
      have lH: "len < horizon n al cur"
        using ngraft \<open>len < ll\<close> ll by (simp add: horizon_def)
      have pm: "pos mod 2 ^ 32 = pos" using pn nB by (simp add: BLOCK_SIZE_def)
      show ?thesis
      proof (cases "unat (inp ! (pos + len)) < unat (inp ! (cur + len))")
        case less: True
        define w2 where "w2 = w1(lt := pos mod 2 ^ 32)"
        have e: "btparse_search inp n al ll cur w2 (w2 (bt_nodes n (2 * pos + 1)))
                   (bt_nodes n (2 * pos + 1)) gt len gtl max_len1 next1 (nc - 1) = (w', nmc')"
          using res
          apply (subst (asm) btparse_search.simps)
          apply (simp only: Let_def len_def [symmetric])
          apply (simp only: scored_def [symmetric])
          apply (simp only: w1_def [symmetric] max_len1_def [symmetric] next1_def [symmetric])
          apply (simp only: nexit ngraft less if_False if_True w2_def [symmetric])
          done
        have w2: "w2 = w1(bt_nodes n kl := pos)" unfolding w2_def pm lt ..
        have dp2: "bt_dp inp n w2 cur (Suc cur)" unfolding w2 by (intro bt_dp_nodes_upd dp1 sc kn)
        note wk2 = bt_walk_less [OF wk1 nN cn p ag less lH, folded w2]
        note ih = "1.IH"(1) [OF nexit len_def scored_def w1_def max_len1_def next1_def ngraft less w2_def
            dp2 wk2 nB cn ll lp(2) lens(2) ml1 refl gt e]
        from ih have "bt_post_t inp n al cur w2 (w2 (bt_nodes n (2 * pos + 1))) (2 * pos + 1) kg w'"
          by simp
        from bt_post_less [OF wk1 nN cn p ag less lH this [unfolded w2]]
        have "bt_post_t inp n al cur w pos kl kg w'" by (rule bt_post_t_cong [OF _ sn cn])
        with ih show ?thesis by simp
      next
        case nless: False
        with ne have greater: "unat (inp ! (cur + len)) < unat (inp ! (pos + len))"
          by (metis linorder_neqE_nat word_unat_eq_iff)
        define w2 where "w2 = w1(gt := pos mod 2 ^ 32)"
        have e: "btparse_search inp n al ll cur w2 (w2 (bt_nodes n (2 * pos)))
                   lt (bt_nodes n (2 * pos)) ltl len max_len1 next1 (nc - 1) = (w', nmc')"
          using res
          apply (subst (asm) btparse_search.simps)
          apply (simp only: Let_def len_def [symmetric])
          apply (simp only: scored_def [symmetric])
          apply (simp only: w1_def [symmetric] max_len1_def [symmetric] next1_def [symmetric])
          apply (simp only: nexit ngraft nless if_False if_True w2_def [symmetric])
          done
        have w2: "w2 = w1(bt_nodes n kg := pos)" unfolding w2_def pm gt ..
        have dp2: "bt_dp inp n w2 cur (Suc cur)" unfolding w2 by (intro bt_dp_nodes_upd dp1 sc kn)
        note wk2 = bt_walk_greater [OF wk1 nN cn p ag greater lH, folded w2]
        note ih = "1.IH"(2) [OF nexit len_def scored_def w1_def max_len1_def next1_def ngraft nless w2_def
            dp2 wk2 nB cn ll lens(1) lp(2) ml1 lt refl e]
        from ih have "bt_post_t inp n al cur w2 (w2 (bt_nodes n (2 * pos))) kl (2 * pos) w'"
          by simp
        from bt_post_greater [OF wk1 nN cn p ag greater lH this [unfolded w2]]
        have "bt_post_t inp n al cur w pos kl kg w'" by (rule bt_post_t_cong [OF _ sn cn])
        with ih show ?thesis by simp
      qed
    qed
  qed
qed

definition bt_lookup_ok :: "nat \<Rightarrow> workmem \<Rightarrow> nat \<Rightarrow> bool" where
  "bt_lookup_ok n w m \<longleftrightarrow> (\<forall>h<LOOKUP_SIZE. w (bt_lookup n h) = NO_MATCH_POS \<or> w (bt_lookup n h) < m)"

definition bt_inv :: "byte list \<Rightarrow> nat \<Rightarrow> nat \<Rightarrow> workmem \<Rightarrow> nat \<Rightarrow> bool" where
  "bt_inv inp n al w cur \<longleftrightarrow> bt_dp inp n w cur cur \<and> bt_heap n w cur \<and> bt_tree inp n al w cur
     \<and> bt_lookup_ok n w cur"

lemma bt_reach_same_tree:
  assumes "bt_reach n w a y" "\<And>k. k < 2 * n \<Longrightarrow> w' (bt_nodes n k) = w (bt_nodes n k)"
  shows "bt_reach n w' a y"
  using assms
proof (induction rule: bt_reach.induct)
  case (self v)
  then show ?case by (auto intro: bt_reach.self)
next
  case (left v y)
  have e: "w' (bt_nodes n (2 * v)) = w (bt_nodes n (2 * v))" using left(1) by (intro left(4)) simp
  show ?case by (rule bt_reach.left [OF left(1)], unfold e, rule left(3) [OF left(4)])
next
  case (right v y)
  have e: "w' (bt_nodes n (2 * v + 1)) = w (bt_nodes n (2 * v + 1))" using right(1) by (intro right(4)) simp
  show ?case by (rule bt_reach.right [OF right(1)], unfold e, rule right(3) [OF right(4)])
qed

lemma bt_nodes_lookup_upd: "k < 2 * n \<Longrightarrow> (w(bt_lookup n h := v)) (bt_nodes n k) = w (bt_nodes n k)"
  using bt_nodes_lookup [of k n h] by simp

lemma bt_reach_lookup_upd:
  "bt_reach n (w(bt_lookup n h := v)) a y = bt_reach n w a y"
proof
  assume "bt_reach n (w(bt_lookup n h := v)) a y"
  then show "bt_reach n w a y" by (rule bt_reach_same_tree) (simp add: bt_nodes_lookup_upd)
next
  assume "bt_reach n w a y"
  then show "bt_reach n (w(bt_lookup n h := v)) a y"
    by (rule bt_reach_same_tree) (simp add: bt_nodes_lookup_upd)
qed

lemma bt_heap_lookup_upd: "m \<le> n \<Longrightarrow> bt_heap n (w(bt_lookup n h := v)) m = bt_heap n w m"
proof -
  assume m: "m \<le> n"
  have "(w(bt_lookup n h := v)) (bt_nodes n k) = w (bt_nodes n k)" if "k < 2 * m" for k
    using that m by (intro bt_nodes_lookup_upd) simp
  then show ?thesis by (simp add: bt_heap_def bt_slot_ok_def)
qed

lemma bt_tree_lookup_upd: "m \<le> n \<Longrightarrow> bt_tree inp n al (w(bt_lookup n h := v)) m = bt_tree inp n al w m"
proof -
  assume m: "m \<le> n"
  have "(w(bt_lookup n h := v)) (bt_nodes n (2 * p)) = w (bt_nodes n (2 * p))"
    "(w(bt_lookup n h := v)) (bt_nodes n (2 * p + 1)) = w (bt_nodes n (2 * p + 1))" if "p < m" for p
    using that m by (auto intro!: bt_nodes_lookup_upd)
  then show ?thesis unfolding bt_tree_def bt_reach_lookup_upd by (simp cong: conj_cong)
qed

lemma bt_walk_t_start:
  assumes "bt_heap n w cur" "bt_tree inp n al w cur" "pos = NO_MATCH_POS \<or> pos < cur"
  shows "bt_walk_t inp n al cur w pos (2 * cur) (2 * cur + 1) 0 0"
  using assms by (simp add: bt_walk_t_def agree_def)

lemma bt_post_t_start:
  assumes po: "bt_post_t inp n al cur w pos (2 * cur) (2 * cur + 1) w'"
    and t: "bt_tree inp n al w cur" and n: "n \<le> NO_MATCH_POS"
  shows "bt_heap n w' (Suc cur)" "bt_tree inp n al w' (Suc cur)"
    "\<And>h. h < LOOKUP_SIZE \<Longrightarrow> w' (bt_lookup n h) = w (bt_lookup n h)"
proof -
  from po show hp: "bt_heap n w' (Suc cur)"
    and "\<And>h. h < LOOKUP_SIZE \<Longrightarrow> w' (bt_lookup n h) = w (bt_lookup n h)"
    by (simp_all add: bt_post_t_def)
  from po have sh: "bt_shrink n w w' cur"
    and pl: "\<And>y. bt_reach n w' (w' (bt_nodes n (2 * cur))) y \<Longrightarrow> lex_le inp (horizon n al cur) y cur"
    and pg: "\<And>y. bt_reach n w' (w' (bt_nodes n (2 * cur + 1))) y \<Longrightarrow> lex_ge inp (horizon n al cur) y cur"
    by (simp_all add: bt_post_t_def)
  have hc: "bt_heap n w' cur" by (rule bt_heap_mono [OF hp]) simp
  have t': "bt_tree inp n al w' cur" by (rule bt_tree_shrink [OF t sh hc n])
  show "bt_tree inp n al w' (Suc cur)"
    unfolding bt_tree_def
  proof (intro allI impI)
    fix p assume "p < Suc cur"
    then consider "p < cur" | "p = cur" by linarith
    then show "(\<forall>y. bt_reach n w' (w' (bt_nodes n (2 * p))) y \<longrightarrow> lex_le inp (horizon n al p) y p)
      \<and> (\<forall>y. bt_reach n w' (w' (bt_nodes n (2 * p + 1))) y \<longrightarrow> lex_ge inp (horizon n al p) y p)"
    proof cases
      case 1
      with t' show ?thesis by (simp add: bt_tree_def)
    next
      case 2
      with pl pg show ?thesis by blast
    qed
  qed
qed

lemma btparse_parse_inv:
  assumes "bt_inv inp n al w cur" "n \<le> BLOCK_SIZE" "lmp + 3 \<le> n" "cur \<le> lmp + 1"
  shows "bt_inv inp n al (btparse_parse inp n md al lmp w nmc cur) (lmp + 1)"
  using assms
proof (induction inp n md al lmp w nmc cur rule: btparse_parse.induct)
  case (1 inp n md al lmp w0 nmc0 cur)
  note inv = "1.prems"(1) and nB = "1.prems"(2) and lm = "1.prems"(3)
  have nN: "n \<le> NO_MATCH_POS" by (rule BLOCK_SIZE_NO [OF nB])
  show ?case
  proof (cases "cur \<le> lmp")
    case False
    with "1.prems"(4) have "cur = lmp + 1" by simp
    moreover have "btparse_parse inp n md al lmp w0 nmc0 cur = w0"
      using False by (subst btparse_parse.simps) simp
    ultimately show ?thesis using inv by simp
  next
    case True
    then have cn: "cur < n" "cur + 3 \<le> n" using lm by simp_all
    define w1 where "w1 = btparse_literal n w0 cur"
    define nmc where "nmc = (if cur > nmc0 then cur else nmc0)"
    define max_len where "max_len = MIN_MATCH - 1"
    define hash where "hash = crush_hash3_bits inp cur CRUSH_HASH_BITS"
    define pos where "pos = w1 (bt_lookup n hash)"
    define w2 where "w2 = w1(bt_lookup n hash := cur mod 2 ^ 32)"
    define len_left where "len_left = (if n - cur > MAX_MATCH then MAX_MATCH else n - cur)"
    define len_limit where "len_limit = (if cur = nmc then len_left
                         else if al < len_left then al else len_left)"
    define num_chain where "num_chain = md"
    obtain w3 next3 where sr: "btparse_search inp n al len_limit cur w2 pos (bt_nodes n (2 * cur))
                   (bt_nodes n (2 * cur + 1)) 0 0 max_len nmc num_chain = (w3, next3)"
      by (cases "btparse_search inp n al len_limit cur w2 pos (bt_nodes n (2 * cur))
                   (bt_nodes n (2 * cur + 1)) 0 0 max_len nmc num_chain") auto
    have e: "btparse_parse inp n md al lmp w0 nmc0 cur = btparse_parse inp n md al lmp w3 next3 (cur + 1)"
      apply (subst btparse_parse.simps)
      apply (simp only: True if_True Let_def w1_def [symmetric] nmc_def [symmetric] max_len_def [symmetric]
          hash_def [symmetric])
      apply (simp only: pos_def [symmetric] w2_def [symmetric] len_left_def [symmetric])
      apply (simp only: len_limit_def [symmetric] num_chain_def [symmetric] sr prod.case)
      done
    from inv have dp0: "bt_dp inp n w0 cur cur" and h0: "bt_heap n w0 cur"
      and t0: "bt_tree inp n al w0 cur" and l0: "bt_lookup_ok n w0 cur"
      by (simp_all add: bt_inv_def)
    have dp1: "bt_dp inp n w1 cur (cur + 1)" and sn1: "same_nodes n w0 w1"
      unfolding w1_def by (rule btparse_literal_dp [OF dp0 cn(1) nB])+
    have cle: "cur \<le> n" using cn by simp
    have h1: "bt_heap n w1 cur" by (rule bt_heap_cong [OF sn1 cle h0])
    have t1: "bt_tree inp n al w1 cur" by (rule bt_tree_cong [OF sn1 cle t0])
    have hl: "hash < LOOKUP_SIZE"
      unfolding hash_def LOOKUP_SIZE_def by (rule hash3_less) (simp add: CRUSH_HASH_BITS_def)
    have l1: "w1 (bt_lookup n h) = w0 (bt_lookup n h)" if "h < LOOKUP_SIZE" for h
      using sn1 that by (simp add: same_nodes_def)
    have p: "pos = NO_MATCH_POS \<or> pos < cur" using l0 hl l1 [OF hl] by (simp add: bt_lookup_ok_def pos_def)
    have cm: "cur mod 2 ^ 32 = cur" using cn nB by (simp add: BLOCK_SIZE_def)
    have dp2: "bt_dp inp n w2 cur (Suc cur)"
      using bt_dp_cong [OF same_dp_lookup_upd, of "cur + 1" n inp w1 hash "cur mod 2 ^ 32" cur] dp1 cn
      by (simp add: w2_def)
    have h2: "bt_heap n w2 cur" unfolding w2_def using h1 cle by (simp add: bt_heap_lookup_upd)
    have t2: "bt_tree inp n al w2 cur" unfolding w2_def using t1 cle by (simp add: bt_tree_lookup_upd)
    have l2: "bt_lookup_ok n w2 (Suc cur)"
      unfolding bt_lookup_ok_def
    proof (intro allI impI)
      fix h assume h: "h < LOOKUP_SIZE"
      show "w2 (bt_lookup n h) = NO_MATCH_POS \<or> w2 (bt_lookup n h) < Suc cur"
      proof (cases "h = hash")
        case True
        then have "w2 (bt_lookup n h) = cur" unfolding w2_def cm by simp
        then show ?thesis by simp
      next
        case False
        then have "bt_lookup n h \<noteq> bt_lookup n hash" by (simp add: bt_layout)
        then have "w2 (bt_lookup n h) = w0 (bt_lookup n h)" by (simp add: w2_def l1 [OF h])
        with l0 h show ?thesis by (auto simp: bt_lookup_ok_def)
      qed
    qed
    have wk: "bt_walk_t inp n al cur w2 pos (2 * cur) (2 * cur + 1) 0 0"
      by (rule bt_walk_t_start [OF h2 t2 p])
    have ll: "horizon n al cur \<le> len_limit" "len_limit \<le> MAX_MATCH" "len_limit \<le> n - cur"
      by (auto simp: horizon_def len_limit_def len_left_def)
    from btparse_search_inv [OF dp2 wk nB cn(1) ll _ _ _ refl refl sr]
    have dp3: "bt_dp inp n w3 cur (Suc cur)" and po: "bt_post_t inp n al cur w2 pos (2 * cur) (2 * cur + 1) w3"
      by (simp_all add: max_len_def)
    note ps = bt_post_t_start [OF po t2 nN]
    have l3: "bt_lookup_ok n w3 (Suc cur)"
      using l2 ps(3) by (simp add: bt_lookup_ok_def)
    have "bt_dp inp n w3 (Suc cur) (Suc cur)" by (rule bt_dp_weaken [OF dp3]) simp
    with ps(1,2) l3 have inv3: "bt_inv inp n al w3 (cur + 1)" by (simp add: bt_inv_def)
    have c1: "cur + 1 \<le> lmp + 1" using True by simp
    note ih = "1.IH" [OF True w1_def nmc_def max_len_def hash_def pos_def w2_def len_left_def
        len_limit_def num_chain_def sr [symmetric] inv3 nB lm c1]
    show ?thesis unfolding e by (rule ih)
  qed
qed

lemma btparse_tail_dp:
  assumes "bt_dp inp n w cur cur" "cur \<le> n" "n \<le> BLOCK_SIZE"
  shows "bt_dp inp n (btparse_tail n w cur) n n"
  using assms
proof (induction n w cur rule: btparse_tail.induct)
  case (1 n w cur)
  show ?case
  proof (cases "cur < n")
    case False
    with "1.prems" have "cur = n" by simp
    moreover have "btparse_tail n w cur = w" using False by (subst btparse_tail.simps) simp
    ultimately show ?thesis using "1.prems"(1) by simp
  next
    case True
    have e: "btparse_tail n w cur = btparse_tail n (btparse_literal n w cur) (cur + 1)"
      using True by (subst btparse_tail.simps) simp
    from btparse_literal_dp(1) [OF "1.prems"(1) True "1.prems"(3)]
    have "bt_dp inp n (btparse_literal n w cur) (cur + 1) (cur + 1)" by (rule bt_dp_weaken) simp
    from "1.IH" [OF True this _ "1.prems"(3)] True show ?thesis unfolding e by simp
  qed
qed

lemma btparse_init_closed:
  "btparse_init n w i = (\<lambda>a. if i \<le> a \<and> a \<le> n then UINT32_MAX
      else if 2 * (n + 1) + i \<le> a \<and> a \<le> 2 * (n + 1) + n then 1 else w a)"
proof (induction n w i rule: btparse_init.induct)
  case (1 n w i)
  show ?case
  proof (cases "i \<le> n")
    case False
    then show ?thesis by (subst btparse_init.simps) (auto simp: fun_eq_iff)
  next
    case True
    have "btparse_init n w i = btparse_init n (w(bt_cost n i := UINT32_MAX, bt_mlen n i := 1)) (i + 1)"
      using True by (subst btparse_init.simps) simp
    also note "1.IH" [OF True]
    also have "(\<lambda>a. if i + 1 \<le> a \<and> a \<le> n then UINT32_MAX
      else if 2 * (n + 1) + (i + 1) \<le> a \<and> a \<le> 2 * (n + 1) + n then 1
      else (w(bt_cost n i := UINT32_MAX, bt_mlen n i := 1)) a)
      = (\<lambda>a. if i \<le> a \<and> a \<le> n then UINT32_MAX
      else if 2 * (n + 1) + i \<le> a \<and> a \<le> 2 * (n + 1) + n then 1 else w a)"
      using True by (auto simp: fun_eq_iff bt_layout)
    finally show ?thesis .
  qed
qed

lemma bt_inv_start:
  assumes "w = (btparse_init n (fill w0 (bt_lookup n 0) 0 LOOKUP_SIZE NO_MATCH_POS) 0)(bt_cost n 0 := 0)"
  shows "bt_inv inp n al w 0"
proof -
  have c: "w (bt_cost n 0) = 0" by (simp add: assms)
  have r: "w (bt_cost n j) = UINT32_MAX \<and> w (bt_mlen n j) = 1" if "1 \<le> j" "j \<le> n" for j
    using that by (simp add: assms btparse_init_closed bt_layout)
  have l: "w (bt_lookup n h) = NO_MATCH_POS" if "h < LOOKUP_SIZE" for h
    using that by (simp add: assms btparse_init_closed fill_closed bt_layout)
  have "bt_dp inp n w 0 0" unfolding bt_dp_def using c r by auto
  moreover have "bt_heap n w 0" "bt_tree inp n al w 0" by (simp_all add: bt_heap_def bt_tree_def)
  moreover have "bt_lookup_ok n w 0" using l by (simp add: bt_lookup_ok_def)
  ultimately show ?thesis by (simp add: bt_inv_def)
qed

fun bt_entries :: "nat \<Rightarrow> workmem \<Rightarrow> nat \<Rightarrow> ptoken list \<Rightarrow> bool" where
  "bt_entries n w i [] \<longleftrightarrow> i = n + 1"
| "bt_entries n w i (t # ts) \<longleftrightarrow> i \<le> n
     \<and> (case t of PLit b \<Rightarrow> w (bt_mlen n i) = 1
         | PMatch L offs \<Rightarrow> w (bt_mlen n i) = L \<and> L \<noteq> 1 \<and> w (bt_mpos n i) + 1 = offs)
     \<and> bt_entries n w (i + 1) ts"

lemma bt_entries_frame:
  assumes "bt_entries n w i ts"
    "\<And>j. i \<le> j \<Longrightarrow> j \<le> n \<Longrightarrow> w' (bt_mlen n j) = w (bt_mlen n j) \<and> w' (bt_mpos n j) = w (bt_mpos n j)"
  shows "bt_entries n w' i ts"
  using assms
proof (induction ts arbitrary: i)
  case Nil
  then show ?case by simp
next
  case (Cons t ts)
  from Cons.prems(1) have i: "i \<le> n" and r: "bt_entries n w (i + 1) ts" by simp_all
  have "bt_entries n w' (i + 1) ts" by (rule Cons.IH [OF r]) (simp add: Cons.prems(2))
  with Cons.prems(1) Cons.prems(2) [of i] i show ?case by (simp split: ptoken.splits)
qed

lemma btparse_emit_tokens:
  assumes "bt_entries n w i ts" "ptokens_ok inp cur ts" "n = length inp" "n < 2 ^ 64"
  shows "btparse_emit inp n w lbw cur i = emit_ptokens False lbw ts"
  using assms(1,2)
proof (induction ts arbitrary: lbw cur i)
  case Nil
  then show ?case by (subst btparse_emit.simps) (simp add: emit_ptokens_def)
next
  case (Cons t ts)
  from Cons.prems(1) have i: "i \<le> n" and r: "bt_entries n w (i + 1) ts" by simp_all
  show ?case
  proof (cases t)
    case (PLit b)
    with Cons.prems have m: "w (bt_mlen n i) = 1" and c: "cur < n" "b = inp ! cur"
      and ok: "ptokens_ok inp (cur + 1) ts" using assms(3) by simp_all
    have cm: "(cur + 1) mod 2 ^ 64 = cur + 1" using c(1) assms(4) by simp
    have "btparse_emit inp n w lbw cur i = btparse_emit inp n w (emit_literal lbw (inp ! cur)) (cur + 1) (i + 1)"
      using i by (subst btparse_emit.simps) (simp only: m cm if_True simp_thms)
    also have "\<dots> = emit_ptokens False (emit_literal lbw (inp ! cur)) ts" by (rule Cons.IH [OF r ok])
    finally show ?thesis by (simp add: PLit c(2) emit_ptokens_Cons)
  next
    case (PMatch L offs)
    with Cons.prems have m: "w (bt_mlen n i) = L" "L \<noteq> 1" "w (bt_mpos n i) + 1 = offs"
      and c: "cur + L \<le> n" and ok: "ptokens_ok inp (cur + L) ts" using assms(3) by simp_all
    have cm: "(cur + L) mod 2 ^ 64 = cur + L" using c assms(4) by simp
    have o: "w (bt_mpos n i) = offs - 1" using m(3) by simp
    have "btparse_emit inp n w lbw cur i
        = btparse_emit inp n w (btparse_emit_match lbw (offs - 1) L) (cur + L) (i + 1)"
      using i by (subst btparse_emit.simps) (simp only: m(1,2) o cm if_True if_False simp_thms)
    also have "\<dots> = emit_ptokens False (btparse_emit_match lbw (offs - 1) L) ts" by (rule Cons.IH [OF r ok])
    finally show ?thesis by (simp add: PMatch emit_ptokens_Cons)
  qed
qed

lemma btparse_gather_tokens:
  assumes "\<forall>j. 1 \<le> j \<and> j \<le> cur \<longrightarrow> bt_arr_ok inp n w j" "w (bt_cost n 0) = 0"
    "cur \<le> nt" "nt \<le> n" "n = length inp" "n < 2 ^ 64"
    "bt_entries n w (nt + 1) ts" "ptokens_ok inp cur ts"
  shows "\<exists>w' nt' ts'. btparse_gather n w cur nt = Some (w', nt') \<and> nt' \<le> n
     \<and> bt_entries n w' (nt' + 1) ts' \<and> ptokens_ok inp 0 ts'
     \<and> sum_list (map ptoken_cost ts') = w (bt_cost n cur) + sum_list (map ptoken_cost ts)"
  using assms(1,2,3,4,7,8)
proof (induction cur arbitrary: w nt ts rule: less_induct)
  case (less cur)
  note arr = less.prems(1) and c0 = less.prems(2) and cn = less.prems(3,4)
    and ent = less.prems(5) and ok = less.prems(6)
  show ?case
  proof (cases "cur > 0")
    case False
    then have "btparse_gather n w cur nt = Some (w, nt)" by (subst btparse_gather.simps) simp
    with False cn ent ok c0 show ?thesis by auto
  next
    case True
    define L where "L = w (bt_mlen n cur)"
    define mp where "mp = w (bt_mpos n cur)"
    define w1 where "w1 = w(bt_mlen n nt := w (bt_mlen n cur))"
    define w2 where "w2 = w1(bt_mpos n nt := w1 (bt_mpos n cur))"
    have a: "bt_arr_ok inp n w cur" using arr True by simp
    then have L: "L = 1 \<or> bt_match_ok inp cur L (mp + 1)" "L \<le> cur"
      and ce: "w (bt_cost n cur) = w (bt_cost n (cur - L)) + ptoken_cost (bt_tok inp n w cur)"
      by (simp_all add: bt_arr_ok_def L_def mp_def)
    have L1: "1 \<le> L" using L(1) by (auto simp: bt_match_ok_def MIN_MATCH_def)
    have cl: "cur \<le> n" using cn by simp
    have nt1: "1 \<le> nt" using True cn by simp
    have rd: "w2 (bt_mlen n nt) = L" "w2 (bt_mpos n nt) = mp" "w2 (bt_mlen n cur) = L"
      "\<And>j. j \<le> n \<Longrightarrow> w2 (bt_cost n j) = w (bt_cost n j)"
      "\<And>j. j \<le> n \<Longrightarrow> j \<noteq> nt \<Longrightarrow> w2 (bt_mlen n j) = w (bt_mlen n j) \<and> w2 (bt_mpos n j) = w (bt_mpos n j)"
      using cn cl by (auto simp add: w2_def w1_def L_def mp_def bt_layout)
    have u: "ulong_sub cur (w2 (bt_mlen n cur)) = cur - L" "ulong_sub nt 1 = nt - 1"
      unfolding rd(3)
      by (rule ulong_sub_simp [OF L(2) le_less_trans [OF cl assms(6)]],
          rule ulong_sub_simp [OF nt1 le_less_trans [OF cn(2) assms(6)]])
    have e: "btparse_gather n w cur nt = btparse_gather n w2 (cur - L) (nt - 1)"
      using True by (subst btparse_gather.simps)
        (simp only: if_True Let_def w1_def [symmetric] w2_def [symmetric] u)
    define t where "t = bt_tok inp n w cur"
    have arr2: "\<forall>j. 1 \<le> j \<and> j \<le> cur - L \<longrightarrow> bt_arr_ok inp n w2 j"
    proof (intro allI impI)
      fix j assume j: "1 \<le> j \<and> j \<le> cur - L"
      then have jn: "j \<le> n" "j \<noteq> nt" "j - w (bt_mlen n j) \<le> n" "j \<le> cur" using cn L1 True by auto
      have aj: "bt_arr_ok inp n w j" using arr j jn(4) by simp
      note f = rd(5) [OF jn(1,2)]
      show "bt_arr_ok inp n w2 j"
        by (rule bt_arr_ok_frame [OF aj f [THEN conjunct1] f [THEN conjunct2] rd(4) [OF jn(1)]
              rd(4) [OF jn(3)]])
    qed
    have ent2: "bt_entries n w2 (nt - 1 + 1) (t # ts)"
    proof -
      have "bt_entries n w2 (nt + 1) ts" by (rule bt_entries_frame [OF ent]) (simp add: rd(5))
      moreover have "case t of PLit b \<Rightarrow> w2 (bt_mlen n nt) = 1
         | PMatch L' offs \<Rightarrow> w2 (bt_mlen n nt) = L' \<and> L' \<noteq> 1 \<and> w2 (bt_mpos n nt) + 1 = offs"
        by (simp add: t_def bt_tok_def rd L_def [symmetric] mp_def [symmetric])
      ultimately show ?thesis using nt1 cn by simp
    qed
    have ok2: "ptokens_ok inp (cur - L) (t # ts)"
    proof (cases "L = 1")
      case True
      then have t: "t = PLit (inp ! (cur - 1))" by (simp add: t_def bt_tok_def L_def)
      show ?thesis using ok \<open>0 < cur\<close> cl assms(5) by (simp add: t True)
    next
      case False
      then have t: "t = PMatch L (mp + 1)" by (simp add: t_def bt_tok_def L_def mp_def)
      from False L(1) have m: "bt_match_ok inp cur L (mp + 1)" by simp
      then show ?thesis using ok cl assms(5) L(2) by (simp add: t bt_match_ok_def)
    qed
    have lt: "cur - L < cur" using True L1 by simp
    have c2: "w2 (bt_cost n 0) = 0" using c0 rd(4) [of 0] by simp
    have cn2: "cur - L \<le> nt - 1" "nt - 1 \<le> n" using cn L1 True by simp_all
    from less.IH [OF lt arr2 c2 cn2 ent2 ok2]
    obtain w' nt' ts' where r: "btparse_gather n w2 (cur - L) (nt - 1) = Some (w', nt')" "nt' \<le> n"
      "bt_entries n w' (nt' + 1) ts'" "ptokens_ok inp 0 ts'"
      "sum_list (map ptoken_cost ts') = w2 (bt_cost n (cur - L)) + sum_list (map ptoken_cost (t # ts))"
      by blast
    have "w2 (bt_cost n (cur - L)) = w (bt_cost n (cur - L))" using cl by (intro rd(4)) simp
    with r(5) ce have "sum_list (map ptoken_cost ts') = w (bt_cost n cur) + sum_list (map ptoken_cost ts)"
      by (simp add: t_def)
    with r(1-4) show ?thesis unfolding e by blast
  qed
qed

lemma crush_pack_btparse_tokens:
  assumes "length inp \<le> BLOCK_SIZE"
  shows "\<exists>ts. crush_pack_btparse inp w0 md al = Some (encode_ptokens False ts) \<and> ptokens_ok inp 0 ts
     \<and> sum_list (map ptoken_cost ts) \<le> 9 * length inp"
proof -
  define n where "n = length inp"
  consider "n = 0" | "0 < n" "n < 4" | "4 \<le> n" by linarith
  then show ?thesis
  proof cases
    case 1
    then show ?thesis
      by (intro exI [of _ "[]"]) (simp add: crush_pack_btparse_def n_def encode_ptokens_Nil)
  next
    case 2
    from literals_loop_tokens [of n inp 0 lbw_init False] 2
    show ?thesis
      by (intro exI [of _ "map PLit inp"])
         (simp add: crush_pack_btparse_def n_def [symmetric] Let_def encode_ptokens_def)
  next
    case 3
    define w1 where "w1 = fill w0 (bt_lookup n 0) 0 LOOKUP_SIZE NO_MATCH_POS"
    define w2 where "w2 = btparse_init n w1 0"
    define w3 where "w3 = w2(bt_cost n 0 := 0)"
    define w4 where "w4 = btparse_parse inp n md al (n - 3) w3 0 0"
    define w5 where "w5 = btparse_tail n w4 (n - 3 + 1)"
    have nB: "n \<le> BLOCK_SIZE" using assms by (simp add: n_def)
    have n64: "n < 2 ^ 64" using nB by (simp add: BLOCK_SIZE_def)
    have lm: "3 < n" "n \<noteq> 0" "\<not> n < 4" using 3 by simp_all
    have i3: "bt_inv inp n al w3 0" by (rule bt_inv_start) (simp add: w3_def w2_def w1_def)
    have "bt_inv inp n al w4 (n - 3 + 1)"
      unfolding w4_def using 3 by (intro btparse_parse_inv [OF i3 nB]) simp_all
    then have "bt_dp inp n w4 (n - 3 + 1) (n - 3 + 1)" by (simp add: bt_inv_def)
    from btparse_tail_dp [OF this _ nB] 3 have dp5: "bt_dp inp n w5 n n" by (simp add: w5_def)
    have arr: "\<forall>j. 1 \<le> j \<and> j \<le> n \<longrightarrow> bt_arr_ok inp n w5 j"
      using bt_dp_node [OF dp5] by auto
    have c0: "w5 (bt_cost n 0) = 0" using dp5 by (simp add: bt_dp_def)
    have cb: "w5 (bt_cost n n) \<le> 9 * n" by (rule bt_dp_bound [OF dp5]) simp
    from btparse_gather_tokens [OF arr c0 order_refl order_refl n_def n64, of "[]"]
    obtain w6 nt ts where g: "btparse_gather n w5 n n = Some (w6, nt)" "nt \<le> n"
      "bt_entries n w6 (nt + 1) ts" "ptokens_ok inp 0 ts"
      "sum_list (map ptoken_cost ts) = w5 (bt_cost n n)"
      by (auto simp: n_def)
    have "nt + 1 < 2 ^ 64" using g(2) nB by (simp add: BLOCK_SIZE_def)
    then have nm: "(nt + 1) mod 2 ^ 64 = nt + 1" by (rule mod_less)
    have "crush_pack_btparse inp w0 md al
        = Some (lbw_finalize (btparse_emit inp n w6 lbw_init 0 (nt + 1)))"
      unfolding crush_pack_btparse_def Let_def n_def [symmetric]
      by (simp only: lm if_True if_False w1_def [symmetric] w2_def [symmetric] w3_def [symmetric]
            w4_def [symmetric] w5_def [symmetric] g(1) option.case prod.case nm)
    also have "btparse_emit inp n w6 lbw_init 0 (nt + 1) = emit_ptokens False lbw_init ts"
      by (rule btparse_emit_tokens [OF g(3,4) n_def n64])
    finally have "crush_pack_btparse inp w0 md al = Some (encode_ptokens False ts)"
      by (simp add: encode_ptokens_def)
    with g(4,5) cb show ?thesis unfolding n_def by auto
  qed
qed


text \<open>
  Claim C8, amended. Levels 6 and 7 are not bounded by level 5 (see the run of the three levels
  on a source of 17 bytes below). What bounds each of the levels 5, 6 and 7, on every source
  of at most \<open>BLOCK_SIZE\<close> bytes and whatever \<open>workmem\<close> holds, is the coding of every byte as a
  literal: the call returns, the stream it stores has at most \<open>(9 * N + 7) div 8\<close> bytes, the
  size returned is its length, and \<open>crush_depack\<close> decodes it back to the source.
\<close>

theorem fast_levels_bound:
  assumes "length S \<le> BLOCK_SIZE" "level = 5 \<or> level = 6 \<or> level = 7"
  shows "\<exists>packed. crush_pack_level S w level = Some (length packed, packed)
          \<and> length packed \<le> (9 * length S + 7) div 8
          \<and> crush_depack packed (length S) = (RETURN (length S), S)"
proof -
  define md :: nat where "md = (if level = 5 then 1 else if level = 6 then 8 else 64)"
  define al :: nat where "al = (if level = 5 then 16 else if level = 6 then 32 else 64)"
  from crush_pack_leparse_tokens [OF assms(1), of w md al]
  obtain ts where ts: "crush_pack_leparse S w md al = Some (encode_ptokens True ts)"
    "ptokens_ok S 0 ts" "sum_list (map ptoken_cost ts) \<le> 9 * length S" by blast
  have "crush_pack_level S w level = map_option (\<lambda>packed. (length packed, packed))
          (crush_pack_leparse S w md al)"
    using assms(2) by (auto simp add: crush_pack_level_def md_def al_def)
  then have "crush_pack_level S w level
      = Some (length (encode_ptokens True ts), encode_ptokens True ts)"
    by (simp add: ts(1))
  moreover have "length (encode_ptokens True ts) \<le> (9 * length S + 7) div 8"
    unfolding encode_ptokens_length [OF ts(2)] using ts(3) by (intro div_le_mono) simp
  moreover note depack_encode_ptokens [OF ts(2), of True]
  ultimately show ?thesis by blast
qed

theorem fast_levels_bound_witness:
  "length [65 :: byte, 65, 65, 65, 65] \<le> BLOCK_SIZE \<and> ((6 :: int) = 5 \<or> (6 :: int) = 6 \<or> (6 :: int) = 7)
   \<and> (\<exists>packed. crush_pack_level [65, 65, 65, 65, 65] (\<lambda>_. 0) 6 = Some (length packed, packed)
          \<and> length packed \<le> (9 * length [65 :: byte, 65, 65, 65, 65] + 7) div 8
          \<and> crush_depack packed (length [65 :: byte, 65, 65, 65, 65])
              = (RETURN (length [65 :: byte, 65, 65, 65, 65]), [65, 65, 65, 65, 65]))"
  using fast_levels_bound [of "[65, 65, 65, 65, 65]" 6 "\<lambda>_. 0"] by (simp add: BLOCK_SIZE_def)


section \<open>What the packers store is a parse of the source\<close>

lemma crush_pack_level_tokens:
  assumes "length S \<le> BLOCK_SIZE" "level \<in> {5, 6, 7, 8, 9, 10}"
  shows "\<exists>ts. crush_pack_level S w level
             = Some (length (encode_ptokens (level \<le> 7) ts), encode_ptokens (level \<le> 7) ts)
          \<and> ptokens_ok S 0 ts \<and> sum_list (map ptoken_cost ts) \<le> 9 * length S"
proof (cases "level \<le> 7")
  case True
  define md :: nat where "md = (if level = 5 then 1 else if level = 6 then 8 else 64)"
  define al :: nat where "al = (if level = 5 then 16 else if level = 6 then 32 else 64)"
  from crush_pack_leparse_tokens [OF assms(1), of w md al]
  obtain ts where ts: "crush_pack_leparse S w md al = Some (encode_ptokens True ts)"
    "ptokens_ok S 0 ts" "sum_list (map ptoken_cost ts) \<le> 9 * length S" by blast
  have "crush_pack_level S w level = map_option (\<lambda>packed. (length packed, packed))
          (crush_pack_leparse S w md al)"
    using assms(2) True by (auto simp add: crush_pack_level_def md_def al_def)
  with ts True show ?thesis by auto
next
  case False
  define md :: nat where "md = (if level = 8 then 16 else if level = 9 then 32 else ULONG_MAX)"
  define al :: nat where "al = (if level = 8 then 96 else if level = 9 then 224 else ULONG_MAX)"
  from crush_pack_btparse_tokens [OF assms(1), of w md al]
  obtain ts where ts: "crush_pack_btparse S w md al = Some (encode_ptokens False ts)"
    "ptokens_ok S 0 ts" "sum_list (map ptoken_cost ts) \<le> 9 * length S" by blast
  have "crush_pack_level S w level = map_option (\<lambda>packed. (length packed, packed))
          (crush_pack_btparse S w md al)"
    using assms(2) False by (auto simp add: crush_pack_level_def md_def al_def)
  with ts False show ?thesis by auto
qed


text \<open>
  Claim C1. For every source \<open>S\<close> of at most \<open>BLOCK_SIZE\<close> bytes, every level from 5 to 10 and
  whatever \<open>workmem\<close> holds, \<open>crush_pack_level\<close> returns, the size it returns is the number of
  bytes it has stored, and \<open>crush_depack\<close> on these bytes with \<open>depacked_size\<close> the length of \<open>S\<close>
  returns that length and has written \<open>S\<close>.
\<close>

theorem pack_depack_roundtrip:
  assumes "length S \<le> BLOCK_SIZE" "level \<in> {5, 6, 7, 8, 9, 10}"
  shows "\<exists>packed. crush_pack_level S w level = Some (length packed, packed)
          \<and> crush_depack packed (length S) = (RETURN (length S), S)"
proof -
  from crush_pack_level_tokens [OF assms, of w]
  obtain ts where ts: "crush_pack_level S w level
             = Some (length (encode_ptokens (level \<le> 7) ts), encode_ptokens (level \<le> 7) ts)"
    "ptokens_ok S 0 ts" by blast
  from ts(1) depack_encode_ptokens [OF ts(2), of "level \<le> 7"] show ?thesis by blast
qed

theorem pack_depack_roundtrip_witness:
  "length [65 :: byte, 66, 65, 66, 65, 66, 67] \<le> BLOCK_SIZE \<and> (8 :: int) \<in> {5, 6, 7, 8, 9, 10}
   \<and> (\<exists>packed. crush_pack_level [65, 66, 65, 66, 65, 66, 67] (\<lambda>_. 0) 8 = Some (length packed, packed)
          \<and> crush_depack packed (length [65 :: byte, 66, 65, 66, 65, 66, 67])
              = (RETURN (length [65 :: byte, 66, 65, 66, 65, 66, 67]), [65, 66, 65, 66, 65, 66, 67]))"
  using pack_depack_roundtrip [of "[65, 66, 65, 66, 65, 66, 67]" 8 "\<lambda>_. 0"]
  by (simp add: BLOCK_SIZE_def)


text \<open>
  Claim C6. For every source \<open>S\<close> of at most \<open>BLOCK_SIZE\<close> bytes and every level from 5 to 10,
  the size returned by \<open>crush_pack_level\<close>, which is the number of bytes stored to \<open>dst\<close>, is at
  most \<open>crush_max_packed_size\<close> of the length of \<open>S\<close>, that is \<open>N + N / 8 + 64\<close>.
\<close>

theorem packed_size_bound:
  assumes "length S \<le> BLOCK_SIZE" "level \<in> {5, 6, 7, 8, 9, 10}"
  shows "\<exists>packed. crush_pack_level S w level = Some (length packed, packed)
          \<and> length packed \<le> crush_max_packed_size (length S)"
proof -
  from crush_pack_level_tokens [OF assms, of w]
  obtain ts where ts: "crush_pack_level S w level
             = Some (length (encode_ptokens (level \<le> 7) ts), encode_ptokens (level \<le> 7) ts)"
    "ptokens_ok S 0 ts" "sum_list (map ptoken_cost ts) \<le> 9 * length S" by blast
  have "length (encode_ptokens (level \<le> 7) ts) \<le> (9 * length S + 7) div 8"
    unfolding encode_ptokens_length [OF ts(2)] using ts(3) by (intro div_le_mono) simp
  also have "\<dots> \<le> length S + length S div 8 + 64" by simp
  also have "\<dots> = crush_max_packed_size (length S)"
  proof -
    have "length S + length S div 8 + 64 < 2 ^ 64" using assms(1) by (simp add: BLOCK_SIZE_def)
    then show ?thesis unfolding crush_max_packed_size_def by (rule mod_less [symmetric])
  qed
  finally show ?thesis using ts(1) by blast
qed

theorem packed_size_bound_witness:
  "length [65 :: byte, 66, 65, 66, 65, 66, 67] \<le> BLOCK_SIZE \<and> (10 :: int) \<in> {5, 6, 7, 8, 9, 10}
   \<and> (\<exists>packed. crush_pack_level [65, 66, 65, 66, 65, 66, 67] (\<lambda>_. 0) 10 = Some (length packed, packed)
          \<and> length packed \<le> crush_max_packed_size (length [65 :: byte, 66, 65, 66, 65, 66, 67]))"
  using packed_size_bound [of "[65, 66, 65, 66, 65, 66, 67]" 10 "\<lambda>_. 0"]
  by (simp add: BLOCK_SIZE_def)

text \<open>
  The tokens the main loop of \<open>crush_depack\<close> reads while it produces \<open>depacked_size\<close> bytes
  (the copies left out), and the invariant of claim C9 on a token sequence that starts at
  source position \<open>i\<close>.
\<close>

fun token_len :: "token \<Rightarrow> nat" where
  "token_len (Literal b) = 1"
| "token_len (Match len offs) = len + 3"

function depack_tokens :: "lsb_bitreader \<Rightarrow> nat \<Rightarrow> nat \<Rightarrow> token list option" where
  "depack_tokens lbr dst_size depacked_size =
     (if dst_size < depacked_size then
        (case depack_token lbr of
           None \<Rightarrow> None
         | Some (t, lbr') \<Rightarrow>
             map_option ((#) t) (depack_tokens lbr' (dst_size + token_len t) depacked_size))
      else Some [])"
  by pat_completeness auto
termination
proof (relation "measure (\<lambda>(lbr, i, m). m - i)", goal_cases)
  case 1
  show ?case by simp
next
  case (2 lbr dst_size depacked_size x2 t lbr')
  then show ?case by (cases t) simp_all
qed

declare depack_tokens.simps [simp del]

fun ptoken_raw :: "ptoken \<Rightarrow> token" where
  "ptoken_raw (PLit b) = Literal b"
| "ptoken_raw (PMatch len offs) = Match (len - MIN_MATCH) (offs - 1)"

fun ptokens_inv :: "nat \<Rightarrow> ptoken list \<Rightarrow> bool" where
  "ptokens_inv i [] \<longleftrightarrow> True"
| "ptokens_inv i (PLit b # ts) \<longleftrightarrow> ptokens_inv (i + 1) ts"
| "ptokens_inv i (PMatch len offs # ts) \<longleftrightarrow>
     1 \<le> offs \<and> offs \<le> i \<and> offs \<le> W_SIZE \<and> MIN_MATCH \<le> len \<and> len \<le> MAX_MATCH \<and> len \<noteq> 2
     \<and> ptokens_inv (i + len) ts"

lemma ptokens_ok_inv: "ptokens_ok inp i ts \<Longrightarrow> ptokens_inv i ts"
proof (induction ts arbitrary: i)
  case Nil
  show ?case by simp
next
  case (Cons t ts)
  then show ?case by (cases t) (auto simp: MIN_MATCH_def)
qed

lemma depack_tokens_ptokens:
  assumes "rstate lbr (fst (ptokens_code ts) + 2 ^ snd (ptokens_code ts) * R) nb"
    "snd (ptokens_code ts) \<le> nb" "ptokens_ok inp i ts"
  shows "depack_tokens lbr i (length inp) = Some (map ptoken_raw ts)"
  using assms
proof (induction ts arbitrary: lbr i nb)
  case Nil
  then show ?case by (simp add: depack_tokens.simps)
next
  case (Cons t ts)
  define c where "c = snd (ptoken_code t)"
  define R' where "R' = fst (ptokens_code ts) + 2 ^ snd (ptokens_code ts) * R"
  have V: "fst (ptokens_code (t # ts)) + 2 ^ snd (ptokens_code (t # ts)) * R
      = fst (ptoken_code t) + 2 ^ c * R'"
    by (simp add: c_def R'_def power_add algebra_simps)
  have nb: "c \<le> nb" "snd (ptokens_code ts) \<le> nb - c" using Cons.prems(2) by (simp_all add: c_def)
  show ?case
  proof (cases t)
    case (PLit b)
    with Cons.prems(3) have h: "i < length inp" "ptokens_ok inp (i + 1) ts" by simp_all
    have c9: "c = 9" by (simp add: c_def PLit)
    from depack_token_literal [OF Cons.prems(1) [unfolded V], of b R'] nb PLit c9
    obtain lbr' where d: "depack_token lbr = Some (Literal b, lbr')" "rstate lbr' R' (nb - 9)" by auto
    have "depack_tokens lbr' (i + 1) (length inp) = Some (map ptoken_raw ts)"
      using d(2) nb(2) h unfolding R'_def c9 by (intro Cons.IH) simp_all
    then show ?thesis using h by (subst depack_tokens.simps) (simp add: d PLit)
  next
    case (PMatch len offs)
    with Cons.prems(3) have h: "MIN_MATCH \<le> len" "len \<le> MAX_MATCH" "1 \<le> offs" "offs \<le> W_SIZE"
      "i + len \<le> length inp" "ptokens_ok inp (i + len) ts" by simp_all
    have cm: "c = snd (match_code len offs)" by (simp add: c_def PMatch)
    have V': "fst (ptoken_code t) + 2 ^ c * R' = fst (match_code len offs) + 2 ^ snd (match_code len offs) * R'"
      by (simp add: cm PMatch)
    from depack_token_match [OF Cons.prems(1) [unfolded V] V' h(1-4)] nb cm
    obtain lbr' where d: "depack_token lbr = Some (Match (len - MIN_MATCH) (offs - 1), lbr')"
      "rstate lbr' R' (nb - c)" by auto
    have l3: "len - MIN_MATCH + 3 = len" using h(1) by (simp add: MIN_MATCH_def)
    have "depack_tokens lbr' (i + len) (length inp) = Some (map ptoken_raw ts)"
      using d(2) nb(2) h unfolding R'_def by (intro Cons.IH) simp_all
    moreover have "i < length inp" using h(1,5) by (simp add: MIN_MATCH_def)
    ultimately show ?thesis by (subst depack_tokens.simps) (simp add: d PMatch l3)
  qed
qed

lemma depack_tokens_encode:
  assumes "ptokens_ok inp 0 ts"
  shows "depack_tokens (lbr_init (encode_ptokens le ts)) 0 (length inp) = Some (map ptoken_raw ts)"
proof -
  from wstate_emit_ptokens [OF wstate_init assms, of le]
  have w: "wstate (emit_ptokens le lbw_init ts) (fst (ptokens_code ts)) (snd (ptokens_code ts))" by simp
  note r = rstate_finalize [OF w]
  have "rstate (lbr_init (encode_ptokens le ts)) (fst (ptokens_code ts) + 2 ^ snd (ptokens_code ts) * 0)
     (8 * ((snd (ptokens_code ts) + 7) div 8))" using r by (simp add: encode_ptokens_def)
  from depack_tokens_ptokens [OF this _ assms] show ?thesis by simp
qed


text \<open>
  Claim C9. For every source \<open>S\<close> of at most \<open>BLOCK_SIZE\<close> bytes and every level from 5 to 10,
  the bytes stored by \<open>crush_pack_level\<close> are what the emit code of the level writes for a token
  sequence \<open>ts\<close>, these are the tokens the decoder reads from the stream, they are a parse of
  \<open>S\<close>, and every match among them, at the source position \<open>i\<close> where it stands, has
  \<open>1 \<le> offs \<le> i\<close>, \<open>offs \<le> W_SIZE\<close> and \<open>MIN_MATCH \<le> len \<le> MAX_MATCH\<close>; no match has length 2.
\<close>

theorem emitted_token_invariant:
  assumes "length S \<le> BLOCK_SIZE" "level \<in> {5, 6, 7, 8, 9, 10}"
  shows "\<exists>packed ts. crush_pack_level S w level = Some (length packed, packed)
          \<and> packed = encode_ptokens (level \<le> 7) ts
          \<and> depack_tokens (lbr_init packed) 0 (length S) = Some (map ptoken_raw ts)
          \<and> ptokens_ok S 0 ts \<and> ptokens_inv 0 ts"
proof -
  from crush_pack_level_tokens [OF assms, of w]
  obtain ts where ts: "crush_pack_level S w level
             = Some (length (encode_ptokens (level \<le> 7) ts), encode_ptokens (level \<le> 7) ts)"
    "ptokens_ok S 0 ts" by blast
  from ts depack_tokens_encode [OF ts(2), of "level \<le> 7"] ptokens_ok_inv [OF ts(2)]
  show ?thesis by blast
qed

theorem emitted_token_invariant_witness:
  "length [65 :: byte, 66, 65, 66, 65, 66, 67] \<le> BLOCK_SIZE \<and> (9 :: int) \<in> {5, 6, 7, 8, 9, 10}
   \<and> (\<exists>packed ts. crush_pack_level [65, 66, 65, 66, 65, 66, 67] (\<lambda>_. 0) 9 = Some (length packed, packed)
          \<and> packed = encode_ptokens ((9 :: int) \<le> 7) ts
          \<and> depack_tokens (lbr_init packed) 0 (length [65 :: byte, 66, 65, 66, 65, 66, 67])
               = Some (map ptoken_raw ts)
          \<and> ptokens_ok [65, 66, 65, 66, 65, 66, 67] 0 ts \<and> ptokens_inv 0 ts)"
  using emitted_token_invariant [of "[65, 66, 65, 66, 65, 66, 67]" 9 "\<lambda>_. 0"]
  by (simp add: BLOCK_SIZE_def)


section \<open>Concrete runs of the packers\<close>

text \<open>
  Claim C8, as stated, fails: on this source of 17 bytes level 5 packs to 7 bytes, levels 6 and
  7 to 8 bytes. At level 5 the one candidate of the chain at position 9 gives a match of 8
  bytes; at levels 6 and 7 a second candidate at position 11 is found, left-extended to
  position 10 without a comparison against the alternatives there, and the parse ends one bit
  longer (57 bits against 56).
\<close>

theorem fast_levels_counterexample:
  "crush_pack_level [0, 0, 1, 0, 1, 0, 1, 0, 1, 0, 0, 1, 0, 1, 0, 1, 0] (\<lambda>_. 0) 5
     = Some (7, [0, 0, 8, 120, 8, 26, 32])
   \<and> crush_pack_level [0, 0, 1, 0, 1, 0, 1, 0, 1, 0, 0, 1, 0, 1, 0, 1, 0] (\<lambda>_. 0) 6
     = Some (8, [0, 0, 8, 40, 16, 20, 48, 0])
   \<and> crush_pack_level [0, 0, 1, 0, 1, 0, 1, 0, 1, 0, 0, 1, 0, 1, 0, 1, 0] (\<lambda>_. 0) 7
     = Some (8, [0, 0, 8, 40, 16, 20, 48, 0])"
  by (simp add: pack_eval cong: if_weak_cong let_weak_cong prod.case_cong_weak)

end
